(* ===== verification/Logger_Prelude.thy ===== *)
theory Logger_Prelude
  imports Main "HOL-Library.Word"
begin

text \<open>
  Prelude of the \<open>mp_logger\<close> development: C strings and character arrays, the character
  classes of \<open><ctype.h>\<close> (in the "C" locale), decimal printing as \<open>snprintf\<close> does
  it, and the generic lemmas on lists and words that the component theories share.

  A \<open>char *\<close> or a \<open>char[N]\<close> is the list of the bytes of the object it points at
  (\<open>cbuf\<close>); the C string in it is what comes before the first NUL byte, or before the
  end of the list. A pointer that the code compares with \<open>NULL\<close> is an option.
\<close>

named_theorems cstring_simps \<open>reading C strings out of arrays\<close>
named_theorems wf_intros \<open>preservation of the well-formedness predicates\<close>

section \<open>Integers\<close>

type_synonym size_t = "64 word"
type_synonym uint64_t = "64 word"
type_synonym int64_t = "64 word"
type_synonym uint16_t = "16 word"
type_synonym uint_fast32_t = "32 word"

lemma unat_plus_one [simp]:
  "unat (w :: size_t) + 1 < 2 ^ 64 \<Longrightarrow> unat (w + 1) = unat w + 1"
  by (simp add: unat_word_ariths)

lemma unat_less_2p64: "unat (w :: size_t) < 2 ^ 64"
  by (rule order_less_le_trans [OF unsigned_less]) simp

lemma word_pos_unat: "(0 :: size_t) < w \<longleftrightarrow> 0 < unat w"
  by (simp add: word_less_nat_alt)

section \<open>Lists\<close>

lemma length_takeWhile_neq:
  "x \<in> set xs \<Longrightarrow> length (takeWhile (\<lambda>y. y \<noteq> x) xs) < length xs"
  by (induction xs) auto

lemma takeWhile_neq_append: "x \<in> set xs \<Longrightarrow> takeWhile (\<lambda>y. y \<noteq> x) (xs @ ys) = takeWhile (\<lambda>y. y \<noteq> x) xs"
  by (rule takeWhile_append1) auto

section \<open>Arrays of bytes and C strings\<close>

type_synonym cbuf = "char list"

abbreviation NUL :: char where "NUL \<equiv> CHR 0x00"

definition cstr :: "cbuf \<Rightarrow> string" where
  "cstr b = takeWhile (\<lambda>c. c \<noteq> NUL) b"

definition strlen :: "cbuf \<Rightarrow> nat" where
  "strlen b = length (cstr b)"

text \<open>\<open>strcmp(a, b) == 0\<close>.\<close>

definition strcmp_eq :: "cbuf \<Rightarrow> cbuf \<Rightarrow> bool" where
  "strcmp_eq a b \<longleftrightarrow> cstr a = cstr b"

text \<open>\<open>strchr(s, c)\<close> and \<open>strrchr(s, c)\<close> for a character other than NUL, as an offset.\<close>

definition strchr :: "cbuf \<Rightarrow> char \<Rightarrow> nat option" where
  "strchr s c =
     (if c \<in> set (cstr s) then Some (length (takeWhile (\<lambda>x. x \<noteq> c) (cstr s))) else None)"

definition strrchr :: "cbuf \<Rightarrow> char \<Rightarrow> nat option" where
  "strrchr s c =
     (if c \<in> set (cstr s)
      then Some (length (cstr s) - 1 - length (takeWhile (\<lambda>x. x \<noteq> c) (rev (cstr s))))
      else None)"

text \<open>
  \<open>memcpy(dest + pos, bytes, length)\<close>. A write past the end would make the list longer, so
  a lemma that an operation keeps the length of an array says that it stays inside it.
\<close>

definition overwrite :: "'a list \<Rightarrow> nat \<Rightarrow> 'a list \<Rightarrow> 'a list" where
  "overwrite dest pos bytes = take pos dest @ bytes @ drop (pos + length bytes) dest"

text \<open>The array of \<open>n\<close> zero bytes that \<open>memset\<close> and \<open>calloc\<close> leave.\<close>

abbreviation zeros :: "nat \<Rightarrow> cbuf" where "zeros n \<equiv> replicate n NUL"

text \<open>\<open>snprintf(dest, capacity, ...)\<close> of the text \<open>s\<close>: cut to the capacity and terminated.\<close>

definition snprintf :: "cbuf \<Rightarrow> nat \<Rightarrow> string \<Rightarrow> cbuf" where
  "snprintf dest capacity s =
     (if capacity = 0 then dest else overwrite dest 0 (take (capacity - 1) s @ [NUL]))"

text \<open>A char array of a struct: its declared size, with a terminator inside.\<close>

definition wf_array :: "nat \<Rightarrow> cbuf \<Rightarrow> bool" where
  "wf_array n b \<longleftrightarrow> length b = n \<and> NUL \<in> set b"

lemma cstr_Nil [simp]: "cstr [] = []"
  and cstr_Cons: "cstr (c # b) = (if c = NUL then [] else c # cstr b)"
  by (simp_all add: cstr_def)

lemma cstr_not_Nil: "cstr b \<noteq> [] \<Longrightarrow> 0 < length b"
  by (cases b) auto

lemma NUL_notin_cstr [simp]: "NUL \<notin> set (cstr b)"
  by (auto simp: cstr_def dest: set_takeWhileD)

lemma cstr_id [cstring_simps]: "NUL \<notin> set s \<Longrightarrow> cstr s = s"
  unfolding cstr_def by (rule takeWhile_eq_all_conv [THEN iffD2]) auto

lemma cstr_idem [simp]: "cstr (cstr b) = cstr b"
  by (simp add: cstr_id)

lemma cstr_append_NUL [cstring_simps]: "NUL \<notin> set s \<Longrightarrow> cstr (s @ NUL # rest) = s"
  unfolding cstr_def by (subst takeWhile_append2) auto

lemma cstr_append: "NUL \<notin> set s \<Longrightarrow> cstr (s @ b) = s @ cstr b"
  unfolding cstr_def by (subst takeWhile_append2) auto

lemma cstr_append_left: "NUL \<in> set s \<Longrightarrow> cstr (s @ b) = cstr s"
  unfolding cstr_def by (rule takeWhile_neq_append)

lemma cstr_append_terminated: "cstr (s @ NUL # b) = cstr s"
  by (cases "NUL \<in> set s") (simp_all add: cstr_append_left cstr_append_NUL cstr_id)

lemma cstr_zeros [simp]: "cstr (zeros n) = []"
  by (cases n) (simp_all add: cstr_Cons)

lemma set_cstr_subset: "set (cstr b) \<subseteq> set b"
  by (auto simp: cstr_def dest: set_takeWhileD)

lemma strlen_le: "strlen b \<le> length b"
  by (simp add: strlen_def cstr_def length_takeWhile_le)

lemma strlen_less_array: "wf_array n b \<Longrightarrow> strlen b < n"
proof -
  assume wf: "wf_array n b"
  have "takeWhile (\<lambda>c. c \<noteq> NUL) b \<noteq> b"
    using wf by (auto simp: wf_array_def takeWhile_eq_all_conv)
  then have "length (takeWhile (\<lambda>c. c \<noteq> NUL) b) \<noteq> length b"
    by (metis append_eq_conv_conj order_refl take_all takeWhile_eq_take)
  then show ?thesis
    using strlen_le [of b] wf by (simp add: strlen_def cstr_def wf_array_def)
qed

lemma cstr_take_strlen: "cstr b = take (strlen b) b"
  unfolding strlen_def cstr_def by (rule takeWhile_eq_take)

lemma nth_cstr: "i < strlen b \<Longrightarrow> cstr b ! i = b ! i"
  by (simp add: cstr_take_strlen)

lemma NUL_notin_take [simp]: "NUL \<notin> set (take n (cstr b))"
  by (meson NUL_notin_cstr in_set_takeD)

lemma wf_array_length: "wf_array n b \<Longrightarrow> length b = n"
  by (simp add: wf_array_def)

lemma wf_array_zeros [wf_intros]: "0 < n \<Longrightarrow> wf_array n (zeros n)"
  by (simp add: wf_array_def)

lemma length_overwrite [simp]:
  "pos + length bytes \<le> length dest \<Longrightarrow> length (overwrite dest pos bytes) = length dest"
  by (simp add: overwrite_def)

lemma overwrite_Nil [simp]: "overwrite dest pos [] = dest"
  by (simp add: overwrite_def)

lemma overwrite_0: "overwrite dest 0 bytes = bytes @ drop (length bytes) dest"
  by (simp add: overwrite_def)

lemma cstr_overwrite_0 [cstring_simps]:
  "NUL \<notin> set s \<Longrightarrow> cstr (overwrite dest 0 (s @ [NUL])) = s"
  by (simp add: overwrite_0 cstr_append_NUL)

lemma list_update_as_overwrite:
  "i < length xs \<Longrightarrow> xs[i := x] = overwrite xs i [x]"
  by (simp add: overwrite_def upd_conv_take_nth_drop)

text \<open>Copying \<open>n\<close> bytes and then writing a terminator behind them.\<close>

lemma overwrite_terminate:
  assumes "length bytes = n" and "n < length dest"
  shows "(overwrite dest 0 bytes)[n := x] = overwrite dest 0 (bytes @ [x])"
proof -
  have "drop n dest = dest ! n # drop (Suc n) dest"
    using assms(2) by (rule Cons_nth_drop_Suc [symmetric])
  with assms show ?thesis
    by (auto simp: overwrite_0 list_update_append)
qed

lemma terminate_copy:
  assumes "length bytes = n" and "n < length dest"
  shows "(if n > 0 then overwrite dest 0 bytes else dest)[n := x] = overwrite dest 0 (bytes @ [x])"
  using overwrite_terminate [OF assms] assms(1) by (cases "n = 0") auto

lemma overwrite_update_0:
  "bytes \<noteq> [] \<Longrightarrow> overwrite (dest[0 := x]) 0 bytes = overwrite dest 0 bytes"
  by (cases bytes; cases dest) (simp_all add: overwrite_0)

lemma length_snprintf [simp]:
  "capacity \<le> length dest \<Longrightarrow> length (snprintf dest capacity s) = length dest"
  by (cases "capacity = 0") (auto simp: snprintf_def)

lemma cstr_snprintf [cstring_simps]:
  assumes "0 < capacity" and "NUL \<notin> set s"
  shows "cstr (snprintf dest capacity s) = take (capacity - 1) s"
proof -
  have "NUL \<notin> set (take (capacity - 1) s)"
    using assms(2) by (meson in_set_takeD)
  then show ?thesis
    using assms(1) by (simp add: snprintf_def cstr_overwrite_0)
qed

lemma strcmp_eq_refl [simp]: "strcmp_eq a a"
  and strcmp_eq_sym: "strcmp_eq a b \<longleftrightarrow> strcmp_eq b a"
  by (auto simp: strcmp_eq_def)

section \<open>Splitting at a separator\<close>

text \<open>The pieces of a text between the occurrences of a separator; at least one piece.\<close>

fun split_on :: "char \<Rightarrow> string \<Rightarrow> string list" where
  "split_on d [] = [[]]"
| "split_on d (c # cs) =
     (if c = d then [] # split_on d cs
      else (c # hd (split_on d cs)) # tl (split_on d cs))"

lemma split_on_not_Nil [simp]: "split_on d s \<noteq> []"
  by (cases s) auto

lemma split_on_none: "d \<notin> set s \<Longrightarrow> split_on d s = [s]"
  by (induction s) auto

lemma split_on_append: "d \<notin> set a \<Longrightarrow> split_on d (a @ d # b) = a # split_on d b"
  by (induction a) auto

lemma split_on_ConsD:
  "split_on d s = p # ps \<Longrightarrow>
   d \<notin> set p \<and> (if ps = [] then s = p else \<exists>s'. s = p @ d # s' \<and> split_on d s' = ps)"
proof (induction s arbitrary: p ps)
  case Nil
  then show ?case by simp
next
  case (Cons c s)
  obtain q qs where qs: "split_on d s = q # qs"
    by (meson neq_Nil_conv split_on_not_Nil)
  with Cons.prems Cons.IH [OF qs] show ?case
    by (auto split: if_splits)
qed

lemma split_on_three_iff:
  "split_on d s = [a, b, c] \<longleftrightarrow>
     s = a @ d # b @ d # c \<and> d \<notin> set a \<and> d \<notin> set b \<and> d \<notin> set c"
proof
  assume s: "split_on d s = [a, b, c]"
  from split_on_ConsD [OF s] obtain t where t: "s = a @ d # t" "split_on d t = [b, c]" "d \<notin> set a"
    by auto
  from split_on_ConsD [OF t(2)] obtain u where u: "t = b @ d # u" "split_on d u = [c]" "d \<notin> set b"
    by auto
  from split_on_ConsD [OF u(2)] t u show "s = a @ d # b @ d # c \<and> d \<notin> set a \<and> d \<notin> set b \<and> d \<notin> set c"
    by auto
qed (simp add: split_on_append split_on_none)

section \<open>Character classes of the C locale\<close>

definition char_code :: "char \<Rightarrow> nat" where
  "char_code c = of_char c"

definition isdigit :: "char \<Rightarrow> bool" where
  "isdigit c \<longleftrightarrow> 48 \<le> char_code c \<and> char_code c \<le> 57"

definition isupper :: "char \<Rightarrow> bool" where
  "isupper c \<longleftrightarrow> 65 \<le> char_code c \<and> char_code c \<le> 90"

definition islower :: "char \<Rightarrow> bool" where
  "islower c \<longleftrightarrow> 97 \<le> char_code c \<and> char_code c \<le> 122"

definition isalnum :: "char \<Rightarrow> bool" where
  "isalnum c \<longleftrightarrow> isdigit c \<or> isupper c \<or> islower c"

definition isspace :: "char \<Rightarrow> bool" where
  "isspace c \<longleftrightarrow> char_code c = 32 \<or> (9 \<le> char_code c \<and> char_code c \<le> 13)"

definition iscntrl :: "char \<Rightarrow> bool" where
  "iscntrl c \<longleftrightarrow> char_code c < 32 \<or> char_code c = 127"

definition tolower :: "char \<Rightarrow> char" where
  "tolower c = (if isupper c then char_of (char_code c + 32) else c)"

lemmas ctype_defs =
  isdigit_def isupper_def islower_def isalnum_def isspace_def iscntrl_def tolower_def

lemma char_code_less [simp]: "char_code c < 256"
  by (simp add: char_code_def)

lemma char_code_inject [simp]: "char_code c = char_code d \<longleftrightarrow> c = d"
  by (simp add: char_code_def)

lemma char_code_char_of [simp]: "n < 256 \<Longrightarrow> char_code (char_of n) = n"
  by (simp add: char_code_def)

lemma isspace_NUL [simp]: "\<not> isspace NUL"
  and isalnum_NUL [simp]: "\<not> isalnum NUL"
  and isdigit_NUL [simp]: "\<not> isdigit NUL"
  by (simp_all add: ctype_defs char_code_def)

end
