(* ===== verification/Logger_Types.thy ===== *)
theory Logger_Types
  imports Logger_Prelude
begin

text \<open>
  The data model of \<open>include/mp_logger.h\<close>, \<open>include/mp_logger_constants.h\<close> and
  \<open>src/mp_logger_internal.h\<close>: the constants, the enumerations, the structured fields, the
  configuration and the record handed to the sinks, with the name tables of
  \<open>src/mp_logger.c\<close>.
\<close>

section \<open>Capacities and texts of \<open>mp_logger_constants.h\<close>\<close>

abbreviation (input) MP_LOGGER_NAME_CAPACITY :: nat where "MP_LOGGER_NAME_CAPACITY \<equiv> 64"
abbreviation (input) MP_LOGGER_PATH_CAPACITY :: nat where "MP_LOGGER_PATH_CAPACITY \<equiv> 256"
abbreviation (input) MP_LOGGER_ACTIVE_STREAMS_CAPACITY :: nat where
  "MP_LOGGER_ACTIVE_STREAMS_CAPACITY \<equiv> 128"
abbreviation (input) MP_LOGGER_HOST_CAPACITY :: nat where "MP_LOGGER_HOST_CAPACITY \<equiv> 128"
abbreviation (input) MP_LOGGER_MAX_STREAMS :: nat where "MP_LOGGER_MAX_STREAMS \<equiv> 8"
abbreviation (input) MP_LOGGER_TIMESTAMP_CAPACITY :: nat where "MP_LOGGER_TIMESTAMP_CAPACITY \<equiv> 32"
abbreviation (input) MP_LOGGER_RENDER_PADDING :: size_t where "MP_LOGGER_RENDER_PADDING \<equiv> 384"
abbreviation (input) MP_LOGGER_STREAM_NAME_CAPACITY :: nat where
  "MP_LOGGER_STREAM_NAME_CAPACITY \<equiv> 32"
abbreviation (input) MP_LOGGER_RUN_SUFFIX_CAPACITY :: nat where "MP_LOGGER_RUN_SUFFIX_CAPACITY \<equiv> 32"
abbreviation (input) MP_LOGGER_NUMBER_TEXT_CAPACITY :: nat where "MP_LOGGER_NUMBER_TEXT_CAPACITY \<equiv> 64"
abbreviation (input) MP_LOGGER_SEQUENCE_TEXT_CAPACITY :: nat where
  "MP_LOGGER_SEQUENCE_TEXT_CAPACITY \<equiv> 32"
abbreviation (input) MP_LOGGER_JSON_UNICODE_ESCAPE_CAPACITY :: nat where
  "MP_LOGGER_JSON_UNICODE_ESCAPE_CAPACITY \<equiv> 7"
abbreviation (input) MP_LOGGER_DROP_MESSAGE_CAPACITY :: nat where
  "MP_LOGGER_DROP_MESSAGE_CAPACITY \<equiv> 128"
abbreviation (input) MP_LOGGER_STREAM_ERROR_MESSAGE_CAPACITY :: nat where
  "MP_LOGGER_STREAM_ERROR_MESSAGE_CAPACITY \<equiv> 160"
abbreviation (input) MP_LOGGER_BACKUP_LINE_CAPACITY :: nat where "MP_LOGGER_BACKUP_LINE_CAPACITY \<equiv> 512"
abbreviation (input) MP_LOGGER_BOOTSTRAP_LINE_CAPACITY :: nat where
  "MP_LOGGER_BOOTSTRAP_LINE_CAPACITY \<equiv> 512"
abbreviation (input) MP_LOGGER_BOOTSTRAP_SECTION_CAPACITY :: nat where
  "MP_LOGGER_BOOTSTRAP_SECTION_CAPACITY \<equiv> 32"
abbreviation (input) MP_LOGGER_BOOTSTRAP_KEY_CAPACITY :: nat where
  "MP_LOGGER_BOOTSTRAP_KEY_CAPACITY \<equiv> 64"
abbreviation (input) MP_LOGGER_BOOTSTRAP_VALUE_CAPACITY :: nat where
  "MP_LOGGER_BOOTSTRAP_VALUE_CAPACITY \<equiv> 256"

definition reserved_keys :: "string list" where
  "reserved_keys =
     [''ts'', ''level'', ''service'', ''environment'', ''sequence_id'', ''message'', ''context'']"

section \<open>Levels\<close>

text \<open>
  The C enumeration is an integer, and the code compares it, shifts by it and handles values
  that are no enumerator, so a level is its number. The order on levels is the order of the
  numbers.
\<close>

datatype mp_log_level_t = Log_Level (level_number: int)

abbreviation MP_LOG_LEVEL_TRACE :: mp_log_level_t where "MP_LOG_LEVEL_TRACE \<equiv> Log_Level 0"
abbreviation MP_LOG_LEVEL_DEBUG :: mp_log_level_t where "MP_LOG_LEVEL_DEBUG \<equiv> Log_Level 1"
abbreviation MP_LOG_LEVEL_INFO :: mp_log_level_t where "MP_LOG_LEVEL_INFO \<equiv> Log_Level 2"
abbreviation MP_LOG_LEVEL_WARNING :: mp_log_level_t where "MP_LOG_LEVEL_WARNING \<equiv> Log_Level 3"
abbreviation MP_LOG_LEVEL_ERROR :: mp_log_level_t where "MP_LOG_LEVEL_ERROR \<equiv> Log_Level 4"
abbreviation MP_LOG_LEVEL_FATAL :: mp_log_level_t where "MP_LOG_LEVEL_FATAL \<equiv> Log_Level 5"

instantiation mp_log_level_t :: linorder
begin

definition less_eq_mp_log_level_t :: "mp_log_level_t \<Rightarrow> mp_log_level_t \<Rightarrow> bool" where
  "less_eq_mp_log_level_t a b \<longleftrightarrow> level_number a \<le> level_number b"

definition less_mp_log_level_t :: "mp_log_level_t \<Rightarrow> mp_log_level_t \<Rightarrow> bool" where
  "less_mp_log_level_t a b \<longleftrightarrow> level_number a < level_number b"

instance
  by standard
    (auto simp: less_eq_mp_log_level_t_def less_mp_log_level_t_def mp_log_level_t.expand)

end

lemma Log_Level_le [simp]: "Log_Level a \<le> Log_Level b \<longleftrightarrow> a \<le> b"
  and Log_Level_less [simp]: "Log_Level a < Log_Level b \<longleftrightarrow> a < b"
  by (simp_all add: less_eq_mp_log_level_t_def less_mp_log_level_t_def)

text \<open>The six enumerators.\<close>

definition valid_level :: "mp_log_level_t \<Rightarrow> bool" where
  "valid_level l \<longleftrightarrow> MP_LOG_LEVEL_TRACE \<le> l \<and> l \<le> MP_LOG_LEVEL_FATAL"

lemma valid_level_cases:
  assumes "valid_level l"
  obtains "l = MP_LOG_LEVEL_TRACE" | "l = MP_LOG_LEVEL_DEBUG" | "l = MP_LOG_LEVEL_INFO"
    | "l = MP_LOG_LEVEL_WARNING" | "l = MP_LOG_LEVEL_ERROR" | "l = MP_LOG_LEVEL_FATAL"
proof -
  obtain n where l: "l = Log_Level n" by (cases l)
  with assms have "n \<in> {0, 1, 2, 3, 4, 5}"
    by (auto simp: valid_level_def)
  with l that show ?thesis by auto
qed

definition mp_log_level_name :: "mp_log_level_t \<Rightarrow> string" where
  "mp_log_level_name level =
     (if level = MP_LOG_LEVEL_TRACE then ''TRACE''
      else if level = MP_LOG_LEVEL_DEBUG then ''DEBUG''
      else if level = MP_LOG_LEVEL_INFO then ''INFO''
      else if level = MP_LOG_LEVEL_WARNING then ''WARNING''
      else if level = MP_LOG_LEVEL_ERROR then ''ERROR''
      else if level = MP_LOG_LEVEL_FATAL then ''FATAL''
      else ''UNKNOWN'')"

definition mp_logger_level_in_range ::
    "mp_log_level_t \<Rightarrow> mp_log_level_t \<Rightarrow> mp_log_level_t \<Rightarrow> bool" where
  "mp_logger_level_in_range level minimum maximum \<longleftrightarrow> level \<ge> minimum \<and> level \<le> maximum"

section \<open>Formats and status codes\<close>

datatype mp_log_format_t = MP_LOG_FORMAT_TEXT | MP_LOG_FORMAT_JSON | Log_Format_Other int

datatype mp_log_status_t =
    MP_LOG_STATUS_OK
  | MP_LOG_STATUS_QUEUE_FULL
  | MP_LOG_STATUS_BUSY
  | MP_LOG_STATUS_INVALID_ARGUMENT
  | MP_LOG_STATUS_IO_ERROR
  | MP_LOG_STATUS_CONFIG_ERROR
  | MP_LOG_STATUS_NOT_RUNNING
  | MP_LOG_STATUS_INTERNAL_ERROR
  | MP_LOG_STATUS_LIMIT_EXCEEDED
  | Log_Status_Other int \<comment> \<open>any other number, which a custom sink may return\<close>

fun mp_log_status_name :: "mp_log_status_t \<Rightarrow> string" where
  "mp_log_status_name MP_LOG_STATUS_OK = ''OK''"
| "mp_log_status_name MP_LOG_STATUS_QUEUE_FULL = ''QUEUE_FULL''"
| "mp_log_status_name MP_LOG_STATUS_BUSY = ''BUSY''"
| "mp_log_status_name MP_LOG_STATUS_INVALID_ARGUMENT = ''INVALID_ARGUMENT''"
| "mp_log_status_name MP_LOG_STATUS_IO_ERROR = ''IO_ERROR''"
| "mp_log_status_name MP_LOG_STATUS_CONFIG_ERROR = ''CONFIG_ERROR''"
| "mp_log_status_name MP_LOG_STATUS_NOT_RUNNING = ''NOT_RUNNING''"
| "mp_log_status_name MP_LOG_STATUS_INTERNAL_ERROR = ''INTERNAL_ERROR''"
| "mp_log_status_name MP_LOG_STATUS_LIMIT_EXCEEDED = ''LIMIT_EXCEEDED''"
| "mp_log_status_name (Log_Status_Other _) = ''UNKNOWN''"

section \<open>Structured fields and records\<close>

text \<open>
  The tag and the union of \<open>mp_log_field_t\<close> are one datatype. A \<open>double\<close> is its
  64-bit pattern (IEEE 754 binary64). \<open>Field_Other\<close> is a tag that is no enumerator.
\<close>

datatype mp_log_field_value =
    MP_LOG_FIELD_STRING "cbuf option"
  | MP_LOG_FIELD_BOOL bool
  | MP_LOG_FIELD_INT64 int64_t
  | MP_LOG_FIELD_UINT64 uint64_t
  | MP_LOG_FIELD_FLOAT64 "64 word"
  | Field_Other int

record mp_log_field =
  field_key :: "cbuf option"
  field_value :: mp_log_field_value

definition mp_log_field_string :: "cbuf option \<Rightarrow> cbuf option \<Rightarrow> mp_log_field" where
  "mp_log_field_string key v = \<lparr>field_key = key, field_value = MP_LOG_FIELD_STRING v\<rparr>"

definition mp_log_field_bool :: "cbuf option \<Rightarrow> bool \<Rightarrow> mp_log_field" where
  "mp_log_field_bool key v = \<lparr>field_key = key, field_value = MP_LOG_FIELD_BOOL v\<rparr>"

definition mp_log_field_int64 :: "cbuf option \<Rightarrow> int64_t \<Rightarrow> mp_log_field" where
  "mp_log_field_int64 key v = \<lparr>field_key = key, field_value = MP_LOG_FIELD_INT64 v\<rparr>"

definition mp_log_field_uint64 :: "cbuf option \<Rightarrow> uint64_t \<Rightarrow> mp_log_field" where
  "mp_log_field_uint64 key v = \<lparr>field_key = key, field_value = MP_LOG_FIELD_UINT64 v\<rparr>"

definition mp_log_field_float64 :: "cbuf option \<Rightarrow> 64 word \<Rightarrow> mp_log_field" where
  "mp_log_field_float64 key v = \<lparr>field_key = key, field_value = MP_LOG_FIELD_FLOAT64 v\<rparr>"

text \<open>The record that the sinks receive; \<open>field_count\<close> is the length of the list.\<close>

record mp_log_record =
  sequence_id :: uint64_t
  unix_epoch_millis :: int64_t
  level :: mp_log_level_t
  message :: "cbuf option"
  context_text :: "cbuf option"
  record_fields :: "mp_log_field list option"

section \<open>Configuration\<close>

record mp_logger_config =
  service_name :: cbuf
  environment_name :: cbuf
  build_version :: cbuf
  buffer_capacity :: size_t
  message_capacity :: size_t
  context_capacity :: size_t
  field_capacity :: size_t
  field_key_capacity :: size_t
  field_value_capacity :: size_t
  format :: mp_log_format_t
  pretty_output :: bool
  log_directory :: cbuf
  file_name_prefix :: cbuf
  backup_file_name_prefix :: cbuf
  active_streams :: cbuf
  stdout_min_level :: mp_log_level_t
  stdout_max_level :: mp_log_level_t
  stderr_min_level :: mp_log_level_t
  stderr_max_level :: mp_log_level_t
  file_min_level :: mp_log_level_t
  file_max_level :: mp_log_level_t
  udp_min_level :: mp_log_level_t
  udp_max_level :: mp_log_level_t
  udp_host :: cbuf
  udp_port :: uint16_t

text \<open>Every char array of the struct has its declared size and holds a terminator.\<close>

definition wf_config :: "mp_logger_config \<Rightarrow> bool" where
  "wf_config c \<longleftrightarrow>
     wf_array MP_LOGGER_NAME_CAPACITY (service_name c) \<and>
     wf_array MP_LOGGER_NAME_CAPACITY (environment_name c) \<and>
     wf_array MP_LOGGER_NAME_CAPACITY (build_version c) \<and>
     wf_array MP_LOGGER_PATH_CAPACITY (log_directory c) \<and>
     wf_array MP_LOGGER_NAME_CAPACITY (file_name_prefix c) \<and>
     wf_array MP_LOGGER_NAME_CAPACITY (backup_file_name_prefix c) \<and>
     wf_array MP_LOGGER_ACTIVE_STREAMS_CAPACITY (active_streams c) \<and>
     wf_array MP_LOGGER_HOST_CAPACITY (udp_host c)"

end
