(* ===== verification/Logger_Strings.thy ===== *)
theory Logger_Strings
  imports Logger_Types
begin

text \<open>
  The string primitives: trimmed and truncated copies, file-name sanitizing, case-insensitive
  comparison and unquoting (\<open>src/mp_logger_bootstrap.c\<close>, \<open>src/mp_logger_streams.c\<close>).
  Every copy is modelled on the destination array, byte by byte, and has a specification on
  the C strings in it.
\<close>

section \<open>Trimmed copies\<close>

text \<open>The loop that advances \<open>start\<close> over the leading white space.\<close>

fun skip_spaces :: "cbuf \<Rightarrow> nat" where
  "skip_spaces [] = 0"
| "skip_spaces (c # cs) = (if c \<noteq> NUL \<and> isspace c then Suc (skip_spaces cs) else 0)"

text \<open>The loop that moves \<open>end\<close> back over the trailing white space.\<close>

fun trim_end :: "cbuf \<Rightarrow> nat \<Rightarrow> nat \<Rightarrow> nat" where
  "trim_end src start 0 = 0"
| "trim_end src start (Suc e) =
     (if Suc e > start \<and> isspace (src ! e) then trim_end src start e else Suc e)"

definition mp_logger_copy_trimmed :: "cbuf \<Rightarrow> nat \<Rightarrow> cbuf option \<Rightarrow> cbuf" where
  "mp_logger_copy_trimmed dest dest_capacity src_ptr =
     (if dest_capacity = 0 then dest
      else case src_ptr of
        None \<Rightarrow> dest[0 := NUL]
      | Some src \<Rightarrow>
          let start = skip_spaces src;
              end_pos = trim_end src start (strlen src);
              len0 = end_pos - start;
              len = (if len0 \<ge> dest_capacity then dest_capacity - 1 else len0);
              dest' = (if len > 0 then overwrite dest 0 (take len (drop start src)) else dest)
          in dest'[len := NUL])"

text \<open>What the copy is meant to hold: the string without the white space at its ends.\<close>

definition trim :: "string \<Rightarrow> string" where
  "trim s = rev (dropWhile isspace (rev (dropWhile isspace s)))"

lemma skip_spaces_eq: "skip_spaces src = length (takeWhile isspace (cstr src))"
  by (induction src) (auto simp: cstr_Cons)

lemma trim_end_le: "trim_end src start e \<le> e"
  by (induction src start e rule: trim_end.induct) auto

lemma trim_end_ge: "start \<le> e \<Longrightarrow> start \<le> trim_end src start e"
  by (induction src start e rule: trim_end.induct) auto

lemma take_trim_end:
  "start \<le> e \<Longrightarrow> e \<le> length src \<Longrightarrow>
   take (trim_end src start e - start) (drop start src) =
   rev (dropWhile isspace (rev (take (e - start) (drop start src))))"
proof (induction src start e rule: trim_end.induct)
  case (1 src start)
  then show ?case by simp
next
  case (2 src start e)
  show ?case
  proof (cases "start \<le> e")
    case True
    have snoc: "take (Suc e - start) (drop start src) = take (e - start) (drop start src) @ [src ! e]"
      using True "2.prems" by (simp add: Suc_diff_le take_Suc_conv_app_nth)
    show ?thesis
    proof (cases "isspace (src ! e)")
      case True
      with \<open>start \<le> e\<close> "2.IH" "2.prems" show ?thesis
        by (simp add: snoc)
    next
      case False
      with \<open>start \<le> e\<close> show ?thesis
        by (simp add: snoc)
    qed
  next
    case False
    with "2.prems" show ?thesis by simp
  qed
qed

lemma trim_cstr:
  fixes src :: cbuf
  defines "start \<equiv> skip_spaces src"
  shows "take (trim_end src start (strlen src) - start) (drop start src) = trim (cstr src)"
proof -
  have start_le: "start \<le> strlen src"
    by (simp add: start_def skip_spaces_eq strlen_def length_takeWhile_le)
  have "take (strlen src - start) (drop start src) = drop start (cstr src)"
    by (simp add: cstr_take_strlen drop_take)
  also have "\<dots> = dropWhile isspace (cstr src)"
    by (simp add: start_def skip_spaces_eq dropWhile_eq_drop)
  finally show ?thesis
    using take_trim_end [OF start_le strlen_le] by (simp add: trim_def)
qed

lemma length_trim_cstr: "length (trim (cstr src)) = trim_end src (skip_spaces src) (strlen src) - skip_spaces src"
proof -
  have "trim_end src (skip_spaces src) (strlen src) \<le> length src"
    using trim_end_le strlen_le le_trans by blast
  then show ?thesis
    by (simp flip: trim_cstr)
qed

lemma NUL_notin_trim [simp]: "NUL \<notin> set (trim (cstr s))"
proof -
  have "set (trim t) \<subseteq> set t" for t
    by (auto simp: trim_def dest!: set_dropWhileD)
  then show ?thesis using NUL_notin_cstr by blast
qed

lemma trim_Nil [simp]: "trim [] = []"
  by (simp add: trim_def)

lemma trim_snoc:
  assumes "isspace c"
  shows "trim (s @ [c]) = trim s"
proof (cases "dropWhile isspace s = []")
  case True
  then have "dropWhile isspace (s @ [c]) = []"
    using assms unfolding dropWhile_eq_Nil_conv by auto
  with True show ?thesis unfolding trim_def by (simp only: True)
next
  case False
  then have "dropWhile isspace (s @ [c]) = dropWhile isspace s @ [c]"
    by (auto simp: dropWhile_append)
  then show ?thesis using assms by (simp add: trim_def)
qed

lemma trim_snoc_newline: "trim (s @ [CHR 0x0A]) = trim s"
  by (rule trim_snoc) (simp add: isspace_def char_code_def)

lemma trim_append_blanks: "list_all isspace b \<Longrightarrow> trim (s @ b) = trim s"
proof (induction b arbitrary: s)
  case (Cons c b)
  then show ?case using Cons.IH [of "s @ [c]"] by (simp add: trim_snoc)
qed simp

lemma mp_logger_copy_trimmed_eq:
  assumes "0 < n" and "n \<le> length dest"
  shows "mp_logger_copy_trimmed dest n (Some src) =
    overwrite dest 0 (take (n - 1) (trim (cstr src)) @ [NUL])"
proof -
  define t where "t = trim (cstr src)"
  define len where "len = (if length t \<ge> n then n - 1 else length t)"
  have len_min: "len = min (n - 1) (length t)"
    using assms(1) by (auto simp: len_def)
  have start: "take len (drop (skip_spaces src) src) = take len t"
    by (simp add: t_def len_min min_def flip: trim_cstr)
  have copy: "mp_logger_copy_trimmed dest n (Some src) =
      (if len > 0 then overwrite dest 0 (take len t) else dest)[len := NUL]"
    unfolding mp_logger_copy_trimmed_def Let_def option.case length_trim_cstr [symmetric]
      t_def [symmetric] len_def [symmetric] start
    using assms(1) by simp
  have "(if len > 0 then overwrite dest 0 (take len t) else dest)[len := NUL] =
      overwrite dest 0 (take len t @ [NUL])"
    using assms by (intro terminate_copy) (auto simp: len_min)
  moreover have "take len t = take (n - 1) t"
    by (simp add: len_min min_def)
  ultimately show ?thesis by (simp add: copy t_def)
qed

lemma length_copy_trimmed [simp]:
  "n \<le> length dest \<Longrightarrow> length (mp_logger_copy_trimmed dest n src) = length dest"
proof (cases "n = 0 \<or> src = None")
  case True
  then show ?thesis by (auto simp: mp_logger_copy_trimmed_def)
next
  case False
  moreover assume "n \<le> length dest"
  ultimately show ?thesis by (auto simp: mp_logger_copy_trimmed_eq)
qed

lemma cstr_copy_trimmed [cstring_simps]:
  assumes "0 < n" and "n \<le> length dest"
  shows "cstr (mp_logger_copy_trimmed dest n (Some src)) = take (n - 1) (trim (cstr src))"
proof -
  have "NUL \<notin> set (take (n - 1) (trim (cstr src)))"
    by (meson NUL_notin_trim in_set_takeD)
  then show ?thesis
    by (simp add: mp_logger_copy_trimmed_eq [OF assms] cstr_overwrite_0)
qed

lemma wf_array_copy_trimmed [wf_intros]:
  "wf_array n dest \<Longrightarrow> wf_array n (mp_logger_copy_trimmed dest n (Some src))"
proof -
  assume wf: "wf_array n dest"
  then have "0 < n" and "length dest = n"
    by (auto simp: wf_array_def)
  then show ?thesis
    by (simp add: wf_array_def mp_logger_copy_trimmed_eq overwrite_0)
qed

section \<open>Truncated copies\<close>

text \<open>
  The array and the copied length that \<open>out_length\<close> reports. The destination is an array
  of the model and so never \<open>NULL\<close>.
\<close>

definition mp_logger_copy_truncated :: "cbuf \<Rightarrow> nat \<Rightarrow> cbuf option \<Rightarrow> cbuf \<times> nat" where
  "mp_logger_copy_truncated dest dest_capacity src_ptr =
     (if dest_capacity = 0 then (dest, 0)
      else
        let dest0 = dest[0 := NUL] in
        case src_ptr of
          None \<Rightarrow> (dest0, 0)
        | Some src \<Rightarrow>
            let len0 = strlen src;
                len = (if len0 \<ge> dest_capacity then dest_capacity - 1 else len0);
                dest1 = (if len > 0 then overwrite dest0 0 (take len src) else dest0)
            in (dest1[len := NUL], len))"

lemma mp_logger_copy_truncated_eq:
  assumes "0 < n" and "n \<le> length dest"
  shows "mp_logger_copy_truncated dest n (Some src) =
    (overwrite dest 0 (take (n - 1) (cstr src) @ [NUL]), min (n - 1) (strlen src))"
proof -
  define len where "len = min (n - 1) (strlen src)"
  have len: "(if strlen src \<ge> n then n - 1 else strlen src) = len"
    using assms(1) by (auto simp: len_def)
  have bytes: "take len src = take (n - 1) (cstr src)"
    by (simp add: len_def cstr_take_strlen)
  have lens: "length (take len src) = len" "len < length dest"
    using assms strlen_le [of src] by (auto simp: len_def)
  have "(if len > 0 then overwrite (dest[0 := NUL]) 0 (take len src) else dest[0 := NUL])[len := NUL] =
      overwrite (dest[0 := NUL]) 0 (take len src @ [NUL])"
    using lens by (intro terminate_copy) auto
  also have "\<dots> = overwrite dest 0 (take len src @ [NUL])"
    by (rule overwrite_update_0) simp
  finally have "(if len > 0 then overwrite (dest[0 := NUL]) 0 (take len src) else dest[0 := NUL])[len := NUL] =
      overwrite dest 0 (take (n - 1) (cstr src) @ [NUL])"
    by (simp only: bytes)
  then have "mp_logger_copy_truncated dest n (Some src) =
      (overwrite dest 0 (take (n - 1) (cstr src) @ [NUL]), len)"
    unfolding mp_logger_copy_truncated_def Let_def option.case len using assms(1) by simp
  then show ?thesis by (simp only: len_def)
qed

lemma length_copy_truncated [simp]:
  "n \<le> length dest \<Longrightarrow> length (fst (mp_logger_copy_truncated dest n src)) = length dest"
proof (cases "n = 0 \<or> src = None")
  case True
  then show ?thesis by (auto simp: mp_logger_copy_truncated_def)
next
  case False
  moreover assume "n \<le> length dest"
  ultimately show ?thesis by (auto simp: mp_logger_copy_truncated_eq)
qed

lemma cstr_copy_truncated [cstring_simps]:
  assumes "0 < n" and "n \<le> length dest"
  shows "cstr (fst (mp_logger_copy_truncated dest n (Some src))) = take (n - 1) (cstr src)"
  by (simp add: mp_logger_copy_truncated_eq [OF assms] cstr_overwrite_0)

lemma snd_copy_truncated [simp]:
  "0 < n \<Longrightarrow> n \<le> length dest \<Longrightarrow>
   snd (mp_logger_copy_truncated dest n (Some src)) = min (n - 1) (strlen src)"
  by (simp add: mp_logger_copy_truncated_eq)

section \<open>File-name components\<close>

fun mp_logger_sanitize_file_component :: "cbuf \<Rightarrow> cbuf" where
  "mp_logger_sanitize_file_component [] = []"
| "mp_logger_sanitize_file_component (c # cs) =
     (if c = NUL then c # cs
      else (if \<not> (isalnum c \<or> c = CHR ''-'' \<or> c = CHR ''_'') then CHR ''_'' else c)
        # mp_logger_sanitize_file_component cs)"

definition file_safe :: "char \<Rightarrow> bool" where
  "file_safe c \<longleftrightarrow> isalnum c \<or> c = CHR ''-'' \<or> c = CHR ''_''"

lemma length_sanitize [simp]: "length (mp_logger_sanitize_file_component b) = length b"
  by (induction b) auto

lemma cstr_sanitize [cstring_simps]:
  "cstr (mp_logger_sanitize_file_component b) =
    map (\<lambda>c. if file_safe c then c else CHR ''_'') (cstr b)"
  by (induction b) (auto simp: cstr_Cons file_safe_def)

lemma NUL_in_sanitize [simp]:
  "NUL \<in> set (mp_logger_sanitize_file_component b) \<longleftrightarrow> NUL \<in> set b"
  by (induction b) auto

lemma wf_array_sanitize [wf_intros]:
  "wf_array n b \<Longrightarrow> wf_array n (mp_logger_sanitize_file_component b)"
  by (simp add: wf_array_def)

lemma sanitize_safe:
  "c \<in> set (cstr (mp_logger_sanitize_file_component b)) \<Longrightarrow> file_safe c"
  by (auto simp: cstr_sanitize file_safe_def)

lemma sanitize_idem:
  "mp_logger_sanitize_file_component (mp_logger_sanitize_file_component b) =
    mp_logger_sanitize_file_component b"
  by (induction b) auto

section \<open>Case-insensitive comparison\<close>

text \<open>The loop over both strings at once; the end of a list stands for its terminator.\<close>

fun mp_logger_equal_ignore_case :: "cbuf \<Rightarrow> cbuf \<Rightarrow> bool" where
  "mp_logger_equal_ignore_case (l # ls) (r # rs) =
     (if l \<noteq> NUL \<and> r \<noteq> NUL
      then if tolower l \<noteq> tolower r then False else mp_logger_equal_ignore_case ls rs
      else l = NUL \<and> r = NUL)"
| "mp_logger_equal_ignore_case (l # ls) [] = (l = NUL)"
| "mp_logger_equal_ignore_case [] (r # rs) = (r = NUL)"
| "mp_logger_equal_ignore_case [] [] = True"

lemma equal_ignore_case_iff:
  "mp_logger_equal_ignore_case l r \<longleftrightarrow> map tolower (cstr l) = map tolower (cstr r)"
  by (induction l r rule: mp_logger_equal_ignore_case.induct) (auto simp: cstr_Cons)

lemma equal_ignore_case_trans:
  "mp_logger_equal_ignore_case v a \<Longrightarrow> mp_logger_equal_ignore_case v b \<Longrightarrow>
   mp_logger_equal_ignore_case a b"
  by (simp add: equal_ignore_case_iff)

section \<open>Quoted scalars\<close>

definition mp_logger_unquote_scalar :: "cbuf \<Rightarrow> cbuf" where
  "mp_logger_unquote_scalar value =
     (let len = strlen value in
      if len \<ge> 2 \<and>
         ((value ! 0 = CHR 0x22 \<and> value ! (len - 1) = CHR 0x22) \<or>
          (value ! 0 = CHR 0x27 \<and> value ! (len - 1) = CHR 0x27))
      then (overwrite value 0 (take (len - 2) (drop 1 value)))[len - 2 := NUL]
      else value)"

definition unquote :: "string \<Rightarrow> string" where
  "unquote s =
     (if length s \<ge> 2 \<and> hd s = last s \<and> hd s \<in> {CHR 0x22, CHR 0x27} then butlast (tl s) else s)"

lemma length_unquote_scalar [simp]: "length (mp_logger_unquote_scalar v) = length v"
  using strlen_le [of v] by (auto simp: mp_logger_unquote_scalar_def Let_def)

lemma cstr_unquote_scalar [cstring_simps]:
  "cstr (mp_logger_unquote_scalar v) = unquote (cstr v)"
proof -
  define s where "s = cstr v"
  have len: "strlen v = length s" and s_take: "s = take (length s) v"
    using cstr_take_strlen [of v] by (simp_all add: s_def strlen_def)
  have hd_last: "hd s = v ! 0 \<and> last s = v ! (length s - 1)" if "2 \<le> length s"
  proof -
    have "s \<noteq> []" using that by auto
    then show ?thesis
      using that nth_cstr [of 0 v] nth_cstr [of "length s - 1" v] len
      by (simp add: hd_conv_nth last_conv_nth flip: s_def)
  qed
  have inner: "take (length s - 2) (drop 1 v) = butlast (tl s)" if "2 \<le> length s"
  proof -
    have "butlast (tl s) = take (length s - 2) (drop 1 s)"
      by (simp add: butlast_conv_take drop_Suc numeral_2_eq_2)
    also have "\<dots> = take (length s - 2) (drop 1 v)"
      by (subst s_take) (simp add: drop_take min_def)
    finally show ?thesis ..
  qed
  have upd: "cstr ((overwrite v 0 (butlast (tl s)))[length s - 2 := NUL]) = butlast (tl s)"
    if "2 \<le> length s"
  proof -
    have "length s \<le> length v" using strlen_le [of v] len by simp
    moreover have "NUL \<notin> set (butlast (tl s))"
      using NUL_notin_cstr [of v] by (metis in_set_butlastD list.set_sel(2) s_def tl_Nil)
    ultimately show ?thesis
      using that by (simp add: overwrite_terminate cstr_overwrite_0)
  qed
  show ?thesis
    using hd_last inner upd
    by (auto simp: mp_logger_unquote_scalar_def unquote_def Let_def len simp flip: s_def)
qed

section \<open>Properties\<close>

text \<open>
  A trimmed copy stays inside its destination, terminates it, and holds the source string
  without the white space at its ends, cut to what fits before the terminator; the bytes behind
  the terminator keep their old values.
\<close>

theorem copy_trimmed_spec:
  assumes "0 < n" and "n \<le> length dest"
  shows "let r = mp_logger_copy_trimmed dest n (Some src) in
    length r = length dest \<and> cstr r = take (n - 1) (trim (cstr src)) \<and>
    strlen r < n \<and> drop (Suc (strlen r)) r = drop (Suc (strlen r)) dest"
proof -
  define r where "r = mp_logger_copy_trimmed dest n (Some src)"
  have c: "cstr r = take (n - 1) (trim (cstr src))"
    using assms by (simp add: r_def cstr_copy_trimmed)
  then have len: "strlen r = min (n - 1) (length (trim (cstr src)))"
    by (simp add: strlen_def min.commute)
  have "r = overwrite dest 0 (cstr r @ [NUL])"
    unfolding c unfolding r_def by (rule mp_logger_copy_trimmed_eq [OF assms])
  then have "r = (cstr r @ [NUL]) @ drop (Suc (strlen r)) dest"
    by (simp add: overwrite_0 strlen_def)
  then have "drop (Suc (strlen r)) r = drop (Suc (strlen r)) ((cstr r @ [NUL]) @ drop (Suc (strlen r)) dest)"
    by (rule arg_cong)
  also have "\<dots> = drop (Suc (strlen r)) dest"
    by (simp add: strlen_def)
  finally show ?thesis
    using c len assms by (auto simp: Let_def simp flip: r_def) (simp add: r_def)
qed

theorem copy_trimmed_spec_witness:
  "cstr (mp_logger_copy_trimmed (zeros 4) 4 (Some ''  ab cd '')) = ''ab ''"
  using copy_trimmed_spec [of 4 "zeros 4" "''  ab cd ''"]
  by (simp add: Let_def cstr_Cons trim_def isspace_def char_code_def)

end
