(* ===== verification/Logger_Parse.thy ===== *)
theory Logger_Parse
  imports Logger_Strings
begin

text \<open>
  The scalar parsers of \<open>src/mp_logger_bootstrap.c\<close>: booleans, sizes, ports, build
  versions, level and format names, and the file extension test. A parser that reports
  through an \<open>int\<close> and an out-parameter returns an option; one that reports a status
  returns it with the new value of its out-parameter.
\<close>

section \<open>Booleans and file extensions\<close>

definition mp_logger_parse_bool :: "cbuf \<Rightarrow> bool option" where
  "mp_logger_parse_bool value =
     (if mp_logger_equal_ignore_case value ''true'' \<or> strcmp_eq value ''1'' \<or>
         mp_logger_equal_ignore_case value ''yes'' then Some True
      else if mp_logger_equal_ignore_case value ''false'' \<or> strcmp_eq value ''0'' \<or>
         mp_logger_equal_ignore_case value ''no'' then Some False
      else None)"

definition mp_logger_has_yaml_extension :: "cbuf option \<Rightarrow> bool" where
  "mp_logger_has_yaml_extension config_path =
     (case config_path of
        None \<Rightarrow> False
      | Some path \<Rightarrow>
          (case strrchr path CHR ''.'' of
             None \<Rightarrow> False
           | Some i \<Rightarrow>
               mp_logger_equal_ignore_case (drop i path) ''.yaml'' \<or>
               mp_logger_equal_ignore_case (drop i path) ''.yml''))"

section \<open>Sizes and ports\<close>

text \<open>The value of a digit string.\<close>

definition digit_value :: "char \<Rightarrow> nat" where
  "digit_value c = char_code c - 48"

definition decimal_value :: "string \<Rightarrow> nat" where
  "decimal_value ds = foldl (\<lambda>n d. 10 * n + digit_value d) 0 ds"

text \<open>
  \<open>strtoull(value, &end, 10)\<close> of the C library: the number, the offset of \<open>end\<close> and whether
  \<open>errno\<close> is set. It skips white space and takes a sign; a minus sign negates modulo
  \<open>2 ^ 64\<close> without an error.
\<close>

definition strtoull10 :: "cbuf \<Rightarrow> uint64_t \<times> nat \<times> bool" where
  "strtoull10 value =
     (let s = cstr value;
          r = dropWhile isspace s;
          neg = (r \<noteq> [] \<and> hd r = CHR ''-'');
          r' = (if r \<noteq> [] \<and> hd r \<in> {CHR ''-'', CHR ''+''} then tl r else r);
          ds = takeWhile isdigit r';
          n = decimal_value ds
      in if ds = [] then (0, 0, False)
         else if n \<ge> 2 ^ 64 then (- 1, length s - length r' + length ds, True)
         else (if neg then - of_nat n else of_nat n, length s - length r' + length ds, False))"

definition mp_logger_parse_size_value :: "cbuf \<Rightarrow> size_t option" where
  "mp_logger_parse_size_value value =
     (case strtoull10 value of
        (parsed, end_offset, failed) \<Rightarrow>
          if failed \<or> end_offset = 0 \<or> end_offset \<noteq> strlen value then None else Some parsed)"

definition mp_logger_parse_port_value :: "cbuf \<Rightarrow> uint16_t option" where
  "mp_logger_parse_port_value value =
     (case mp_logger_parse_size_value value of
        None \<Rightarrow> None
      | Some parsed \<Rightarrow> if parsed > 65535 then None else Some (ucast parsed))"

lemma decimal_value_snoc [simp]: "decimal_value (ds @ [d]) = 10 * decimal_value ds + digit_value d"
  by (simp add: decimal_value_def)

lemma decimal_value_Nil [simp]: "decimal_value [] = 0"
  by (simp add: decimal_value_def)

lemma isdigit_not_isspace: "isdigit c \<Longrightarrow> \<not> isspace c"
  by (auto simp: ctype_defs)

lemma isdigit_not_sign [simp]: "isdigit c \<Longrightarrow> c \<noteq> CHR ''-''" "isdigit c \<Longrightarrow> c \<noteq> CHR ''+''"
  by (auto simp: ctype_defs char_code_def)

lemma digits_no_NUL: "list_all isdigit s \<Longrightarrow> NUL \<notin> set s"
  by (auto simp: list_all_iff)

text \<open>On a plain digit string the parser is total up to the range of \<open>size_t\<close>.\<close>

lemma strtoull10_digits:
  assumes "list_all isdigit s" and "s \<noteq> []"
  shows "strtoull10 s =
    (if decimal_value s \<ge> 2 ^ 64 then (- 1, length s, True)
     else (of_nat (decimal_value s), length s, False))"
proof -
  have c: "cstr s = s" using assms(1) by (simp add: cstr_id digits_no_NUL)
  obtain d ds where s: "s = d # ds" using assms(2) by (cases s) auto
  with assms(1) have d: "isdigit d" by simp
  have ws: "dropWhile isspace s = s"
    using d by (simp add: s isdigit_not_isspace)
  have digits: "takeWhile isdigit ds = ds"
    using assms(1) by (simp add: s list_all_iff takeWhile_eq_all_conv)
  show ?thesis
    using d unfolding strtoull10_def Let_def c ws
    by (simp add: s digits)
qed

lemma parse_size_digits:
  assumes "list_all isdigit s" and "s \<noteq> []"
  shows "mp_logger_parse_size_value s =
    (if decimal_value s < 2 ^ 64 then Some (of_nat (decimal_value s)) else None)"
  using assms(2)
  by (auto simp: mp_logger_parse_size_value_def strtoull10_digits [OF assms] strlen_def
      cstr_id digits_no_NUL [OF assms(1)])

section \<open>Build versions\<close>

text \<open>The loop with its component count and the flag \<open>saw_digit\<close>.\<close>

fun build_version_loop :: "cbuf \<Rightarrow> nat \<Rightarrow> bool \<Rightarrow> bool" where
  "build_version_loop [] component_count saw_digit = (saw_digit \<and> component_count = 2)"
| "build_version_loop (c # cs) component_count saw_digit =
     (if c = NUL then saw_digit \<and> component_count = 2
      else if isdigit c then build_version_loop cs component_count True
      else if c = CHR ''.''
      then if \<not> saw_digit then False else build_version_loop cs (component_count + 1) False
      else False)"

definition mp_logger_is_build_version_valid :: "cbuf \<Rightarrow> bool" where
  "mp_logger_is_build_version_valid value =
     (if cstr value = [] then False else build_version_loop value 0 False)"

definition digit_string :: "string \<Rightarrow> bool" where
  "digit_string s \<longleftrightarrow> s \<noteq> [] \<and> list_all isdigit s"

lemma not_isdigit_dot [simp]: "\<not> isdigit CHR ''.''"
  by (simp add: ctype_defs char_code_def)

text \<open>
  The loop from a state with \<open>k\<close> finished components, where the current one has a digit
  already (\<open>saw_digit\<close>) or has not begun.
\<close>

lemma build_version_loop_iff:
  "build_version_loop v k saw \<longleftrightarrow>
     (let parts = split_on CHR ''.'' (cstr v) in
      k + length parts = 3 \<and> list_all isdigit (hd parts) \<and> (saw \<or> hd parts \<noteq> []) \<and>
      list_all digit_string (tl parts))"
proof (induction v k saw rule: build_version_loop.induct)
  case (1 k saw)
  then show ?case by (auto simp: Let_def)
next
  case (2 c cs k saw)
  obtain p ps where ps: "split_on CHR ''.'' (cstr cs) = p # ps"
    by (meson neq_Nil_conv split_on_not_Nil)
  show ?case
  proof (cases "c = NUL \<or> isdigit c \<or> c \<noteq> CHR ''.''")
    case True
    with 2 show ?thesis by (auto simp: Let_def cstr_Cons ps)
  next
    case False
    with 2 show ?thesis by (auto simp: Let_def cstr_Cons ps digit_string_def)
  qed
qed

text \<open>
  The build version check accepts exactly three non-empty runs of decimal digits joined by
  two dots.
\<close>

theorem is_build_version_valid_iff:
  "mp_logger_is_build_version_valid v \<longleftrightarrow>
     (\<exists>a b c. cstr v = a @ CHR ''.'' # b @ CHR ''.'' # c \<and>
        digit_string a \<and> digit_string b \<and> digit_string c)"
proof -
  have no_dot: "CHR ''.'' \<notin> set a" if "digit_string a" for a
    using that not_isdigit_dot by (auto simp: digit_string_def list_all_iff)
  have three: "mp_logger_is_build_version_valid v \<longleftrightarrow>
      (\<exists>a b c. split_on CHR ''.'' (cstr v) = [a, b, c] \<and>
        digit_string a \<and> digit_string b \<and> digit_string c)"
  proof (cases "cstr v = []")
    case True
    then show ?thesis by (simp add: mp_logger_is_build_version_valid_def)
  next
    case False
    then show ?thesis
      by (auto simp: mp_logger_is_build_version_valid_def build_version_loop_iff Let_def
          digit_string_def numeral_3_eq_3 length_Suc_conv)
  qed
  show ?thesis
    unfolding three split_on_three_iff using no_dot by blast
qed

section \<open>Level and format names\<close>

definition mp_logger_parse_level_name ::
    "cbuf option \<Rightarrow> mp_log_level_t \<Rightarrow> mp_log_status_t \<times> mp_log_level_t" where
  "mp_logger_parse_level_name value out_level =
     (case value of
        None \<Rightarrow> (MP_LOG_STATUS_INVALID_ARGUMENT, out_level)
      | Some v \<Rightarrow>
          if mp_logger_equal_ignore_case v ''trace'' then (MP_LOG_STATUS_OK, MP_LOG_LEVEL_TRACE)
          else if mp_logger_equal_ignore_case v ''debug'' then (MP_LOG_STATUS_OK, MP_LOG_LEVEL_DEBUG)
          else if mp_logger_equal_ignore_case v ''info'' then (MP_LOG_STATUS_OK, MP_LOG_LEVEL_INFO)
          else if mp_logger_equal_ignore_case v ''warn'' \<or>
                  mp_logger_equal_ignore_case v ''warning''
            then (MP_LOG_STATUS_OK, MP_LOG_LEVEL_WARNING)
          else if mp_logger_equal_ignore_case v ''error'' then (MP_LOG_STATUS_OK, MP_LOG_LEVEL_ERROR)
          else if mp_logger_equal_ignore_case v ''fatal'' then (MP_LOG_STATUS_OK, MP_LOG_LEVEL_FATAL)
          else (MP_LOG_STATUS_CONFIG_ERROR, out_level))"

definition mp_logger_parse_format_name ::
    "cbuf option \<Rightarrow> mp_log_format_t \<Rightarrow> mp_log_status_t \<times> mp_log_format_t" where
  "mp_logger_parse_format_name value out_format =
     (case value of
        None \<Rightarrow> (MP_LOG_STATUS_INVALID_ARGUMENT, out_format)
      | Some v \<Rightarrow>
          if mp_logger_equal_ignore_case v ''text'' then (MP_LOG_STATUS_OK, MP_LOG_FORMAT_TEXT)
          else if mp_logger_equal_ignore_case v ''json'' then (MP_LOG_STATUS_OK, MP_LOG_FORMAT_JSON)
          else (MP_LOG_STATUS_CONFIG_ERROR, out_format))"

lemma parse_level_status:
  "fst (mp_logger_parse_level_name (Some v) old) \<in> {MP_LOG_STATUS_OK, MP_LOG_STATUS_CONFIG_ERROR}"
  by (simp add: mp_logger_parse_level_name_def)

lemma parse_level_failed:
  "fst (mp_logger_parse_level_name v old) \<noteq> MP_LOG_STATUS_OK \<Longrightarrow>
   snd (mp_logger_parse_level_name v old) = old"
  by (auto simp: mp_logger_parse_level_name_def split: option.splits if_splits)

lemma parse_level_valid:
  "fst (mp_logger_parse_level_name v old) = MP_LOG_STATUS_OK \<Longrightarrow>
   valid_level (snd (mp_logger_parse_level_name v old))"
  by (auto simp: mp_logger_parse_level_name_def valid_level_def split: option.splits if_splits)

lemma parse_level_keeps_valid [wf_intros]:
  "valid_level old \<Longrightarrow> valid_level (snd (mp_logger_parse_level_name v old))"
  using parse_level_valid parse_level_failed by metis

lemma parse_format_status:
  "fst (mp_logger_parse_format_name (Some v) old) \<in> {MP_LOG_STATUS_OK, MP_LOG_STATUS_CONFIG_ERROR}"
  by (simp add: mp_logger_parse_format_name_def)

lemma parse_format_failed:
  "fst (mp_logger_parse_format_name v old) \<noteq> MP_LOG_STATUS_OK \<Longrightarrow>
   snd (mp_logger_parse_format_name v old) = old"
  by (auto simp: mp_logger_parse_format_name_def split: option.splits if_splits)

end
