(* ===== verification/Logger_Config.thy ===== *)
theory Logger_Config
  imports Logger_Parse
begin

text \<open>
  Configuration values (\<open>src/mp_logger_bootstrap.c\<close>): the documented defaults, one
  dispatcher per bootstrap section, \<open>mp_logger_config_apply_override\<close>, and the
  validation of \<open>src/mp_logger.c\<close>. The dispatchers share a contract, stated as the locale
  \<open>config_section\<close> and interpreted for each of them.
\<close>

section \<open>Defaults\<close>

text \<open>The config after \<open>memset(config, 0, sizeof(*config))\<close>.\<close>

definition zeroed_config :: mp_logger_config where
  "zeroed_config = \<lparr>
     service_name = zeros MP_LOGGER_NAME_CAPACITY,
     environment_name = zeros MP_LOGGER_NAME_CAPACITY,
     build_version = zeros MP_LOGGER_NAME_CAPACITY,
     buffer_capacity = 0, message_capacity = 0, context_capacity = 0,
     field_capacity = 0, field_key_capacity = 0, field_value_capacity = 0,
     format = MP_LOG_FORMAT_TEXT, pretty_output = False,
     log_directory = zeros MP_LOGGER_PATH_CAPACITY,
     file_name_prefix = zeros MP_LOGGER_NAME_CAPACITY,
     backup_file_name_prefix = zeros MP_LOGGER_NAME_CAPACITY,
     active_streams = zeros MP_LOGGER_ACTIVE_STREAMS_CAPACITY,
     stdout_min_level = Log_Level 0, stdout_max_level = Log_Level 0,
     stderr_min_level = Log_Level 0, stderr_max_level = Log_Level 0,
     file_min_level = Log_Level 0, file_max_level = Log_Level 0,
     udp_min_level = Log_Level 0, udp_max_level = Log_Level 0,
     udp_host = zeros MP_LOGGER_HOST_CAPACITY, udp_port = 0\<rparr>"

definition mp_logger_config_init_defaults :: mp_logger_config where
  "mp_logger_config_init_defaults =
     (let config = zeroed_config in config\<lparr>
        service_name := mp_logger_copy_trimmed (service_name config) 64 (Some ''mp-service''),
        environment_name := mp_logger_copy_trimmed (environment_name config) 64 (Some ''development''),
        build_version := mp_logger_copy_trimmed (build_version config) 64 (Some ''0.0.0''),
        buffer_capacity := 1024,
        message_capacity := 512,
        context_capacity := 1024,
        field_capacity := 8,
        field_key_capacity := 32,
        field_value_capacity := 128,
        format := MP_LOG_FORMAT_JSON,
        pretty_output := False,
        log_directory := mp_logger_copy_trimmed (log_directory config) 256 (Some ''.''),
        file_name_prefix := mp_logger_copy_trimmed (file_name_prefix config) 64 (Some ''mp-service''),
        backup_file_name_prefix :=
          mp_logger_copy_trimmed (backup_file_name_prefix config) 64 (Some ''mp-logger-internal''),
        active_streams := mp_logger_copy_trimmed (active_streams config) 128 (Some ''stdout,stderr,file''),
        stdout_min_level := MP_LOG_LEVEL_TRACE,
        stdout_max_level := MP_LOG_LEVEL_INFO,
        stderr_min_level := MP_LOG_LEVEL_WARNING,
        stderr_max_level := MP_LOG_LEVEL_FATAL,
        file_min_level := MP_LOG_LEVEL_TRACE,
        file_max_level := MP_LOG_LEVEL_FATAL,
        udp_min_level := MP_LOG_LEVEL_ERROR,
        udp_max_level := MP_LOG_LEVEL_FATAL,
        udp_host := mp_logger_copy_trimmed (udp_host config) 128 (Some ''127.0.0.1''),
        udp_port := 5514\<rparr>)"

section \<open>Validation\<close>

definition mp_logger_validate_config :: "mp_logger_config \<Rightarrow> bool" where
  "mp_logger_validate_config config \<longleftrightarrow>
     buffer_capacity config > 0 \<and>
     message_capacity config > 1 \<and>
     context_capacity config > 1 \<and>
     field_capacity config > 0 \<and>
     field_key_capacity config > 1 \<and>
     field_value_capacity config > 1 \<and>
     cstr (service_name config) \<noteq> [] \<and>
     cstr (environment_name config) \<noteq> [] \<and>
     cstr (build_version config) \<noteq> [] \<and>
     cstr (file_name_prefix config) \<noteq> [] \<and>
     cstr (backup_file_name_prefix config) \<noteq> [] \<and>
     cstr (log_directory config) \<noteq> []"

section \<open>Section dispatchers\<close>

definition mp_logger_apply_root_value ::
    "cbuf \<Rightarrow> cbuf \<Rightarrow> mp_logger_config \<Rightarrow> mp_log_status_t \<times> mp_logger_config" where
  "mp_logger_apply_root_value key v config =
     (if strcmp_eq key ''service_name''
      then (MP_LOG_STATUS_OK,
            config\<lparr>service_name := mp_logger_copy_trimmed (service_name config) 64 (Some v)\<rparr>)
      else if strcmp_eq key ''environment_name''
      then (MP_LOG_STATUS_OK,
            config\<lparr>environment_name := mp_logger_copy_trimmed (environment_name config) 64 (Some v)\<rparr>)
      else if strcmp_eq key ''build_version''
      then (if \<not> mp_logger_is_build_version_valid v then (MP_LOG_STATUS_CONFIG_ERROR, config)
            else (MP_LOG_STATUS_OK,
              config\<lparr>build_version := mp_logger_copy_trimmed (build_version config) 64 (Some v)\<rparr>))
      else (MP_LOG_STATUS_CONFIG_ERROR, config))"

definition mp_logger_apply_logger_value ::
    "cbuf \<Rightarrow> cbuf \<Rightarrow> mp_logger_config \<Rightarrow> mp_log_status_t \<times> mp_logger_config" where
  "mp_logger_apply_logger_value key v config =
     (if strcmp_eq key ''buffer_capacity''
      then (case mp_logger_parse_size_value v of
              None \<Rightarrow> (MP_LOG_STATUS_CONFIG_ERROR, config)
            | Some parsed_size \<Rightarrow> (MP_LOG_STATUS_OK, config\<lparr>buffer_capacity := parsed_size\<rparr>))
      else if strcmp_eq key ''message_capacity''
      then (case mp_logger_parse_size_value v of
              None \<Rightarrow> (MP_LOG_STATUS_CONFIG_ERROR, config)
            | Some parsed_size \<Rightarrow> (MP_LOG_STATUS_OK, config\<lparr>message_capacity := parsed_size\<rparr>))
      else if strcmp_eq key ''context_capacity''
      then (case mp_logger_parse_size_value v of
              None \<Rightarrow> (MP_LOG_STATUS_CONFIG_ERROR, config)
            | Some parsed_size \<Rightarrow> (MP_LOG_STATUS_OK, config\<lparr>context_capacity := parsed_size\<rparr>))
      else if strcmp_eq key ''field_capacity''
      then (case mp_logger_parse_size_value v of
              None \<Rightarrow> (MP_LOG_STATUS_CONFIG_ERROR, config)
            | Some parsed_size \<Rightarrow> (MP_LOG_STATUS_OK, config\<lparr>field_capacity := parsed_size\<rparr>))
      else if strcmp_eq key ''field_key_capacity''
      then (case mp_logger_parse_size_value v of
              None \<Rightarrow> (MP_LOG_STATUS_CONFIG_ERROR, config)
            | Some parsed_size \<Rightarrow> (MP_LOG_STATUS_OK, config\<lparr>field_key_capacity := parsed_size\<rparr>))
      else if strcmp_eq key ''field_value_capacity''
      then (case mp_logger_parse_size_value v of
              None \<Rightarrow> (MP_LOG_STATUS_CONFIG_ERROR, config)
            | Some parsed_size \<Rightarrow> (MP_LOG_STATUS_OK, config\<lparr>field_value_capacity := parsed_size\<rparr>))
      else if strcmp_eq key ''format''
      then (case mp_logger_parse_format_name (Some v) (format config) of
              (status, parsed_format) \<Rightarrow> (status, config\<lparr>format := parsed_format\<rparr>))
      else if strcmp_eq key ''pretty_output''
      then (case mp_logger_parse_bool v of
              None \<Rightarrow> (MP_LOG_STATUS_CONFIG_ERROR, config)
            | Some parsed_bool \<Rightarrow> (MP_LOG_STATUS_OK, config\<lparr>pretty_output := parsed_bool\<rparr>))
      else if strcmp_eq key ''log_directory''
      then (MP_LOG_STATUS_OK,
            config\<lparr>log_directory := mp_logger_copy_trimmed (log_directory config) 256 (Some v)\<rparr>)
      else if strcmp_eq key ''file_name_prefix''
      then (MP_LOG_STATUS_OK,
            config\<lparr>file_name_prefix := mp_logger_copy_trimmed (file_name_prefix config) 64 (Some v)\<rparr>)
      else if strcmp_eq key ''backup_file_name_prefix''
      then (MP_LOG_STATUS_OK,
            config\<lparr>backup_file_name_prefix :=
              mp_logger_copy_trimmed (backup_file_name_prefix config) 64 (Some v)\<rparr>)
      else if strcmp_eq key ''active_streams''
      then (MP_LOG_STATUS_OK,
            config\<lparr>active_streams := mp_logger_copy_trimmed (active_streams config) 128 (Some v)\<rparr>)
      else (MP_LOG_STATUS_CONFIG_ERROR, config))"

definition mp_logger_apply_stdout_value ::
    "cbuf \<Rightarrow> cbuf \<Rightarrow> mp_logger_config \<Rightarrow> mp_log_status_t \<times> mp_logger_config" where
  "mp_logger_apply_stdout_value key v config =
     (if strcmp_eq key ''minimum_level''
      then (case mp_logger_parse_level_name (Some v) (stdout_min_level config) of
              (status, l) \<Rightarrow> (status, config\<lparr>stdout_min_level := l\<rparr>))
      else if strcmp_eq key ''maximum_level''
      then (case mp_logger_parse_level_name (Some v) (stdout_max_level config) of
              (status, l) \<Rightarrow> (status, config\<lparr>stdout_max_level := l\<rparr>))
      else (MP_LOG_STATUS_CONFIG_ERROR, config))"

definition mp_logger_apply_stderr_value ::
    "cbuf \<Rightarrow> cbuf \<Rightarrow> mp_logger_config \<Rightarrow> mp_log_status_t \<times> mp_logger_config" where
  "mp_logger_apply_stderr_value key v config =
     (if strcmp_eq key ''minimum_level''
      then (case mp_logger_parse_level_name (Some v) (stderr_min_level config) of
              (status, l) \<Rightarrow> (status, config\<lparr>stderr_min_level := l\<rparr>))
      else if strcmp_eq key ''maximum_level''
      then (case mp_logger_parse_level_name (Some v) (stderr_max_level config) of
              (status, l) \<Rightarrow> (status, config\<lparr>stderr_max_level := l\<rparr>))
      else (MP_LOG_STATUS_CONFIG_ERROR, config))"

definition mp_logger_apply_file_value ::
    "cbuf \<Rightarrow> cbuf \<Rightarrow> mp_logger_config \<Rightarrow> mp_log_status_t \<times> mp_logger_config" where
  "mp_logger_apply_file_value key v config =
     (if strcmp_eq key ''minimum_level''
      then (case mp_logger_parse_level_name (Some v) (file_min_level config) of
              (status, l) \<Rightarrow> (status, config\<lparr>file_min_level := l\<rparr>))
      else if strcmp_eq key ''maximum_level''
      then (case mp_logger_parse_level_name (Some v) (file_max_level config) of
              (status, l) \<Rightarrow> (status, config\<lparr>file_max_level := l\<rparr>))
      else (MP_LOG_STATUS_CONFIG_ERROR, config))"

definition mp_logger_apply_udp_value ::
    "cbuf \<Rightarrow> cbuf \<Rightarrow> mp_logger_config \<Rightarrow> mp_log_status_t \<times> mp_logger_config" where
  "mp_logger_apply_udp_value key v config =
     (if strcmp_eq key ''minimum_level''
      then (case mp_logger_parse_level_name (Some v) (udp_min_level config) of
              (status, l) \<Rightarrow> (status, config\<lparr>udp_min_level := l\<rparr>))
      else if strcmp_eq key ''maximum_level''
      then (case mp_logger_parse_level_name (Some v) (udp_max_level config) of
              (status, l) \<Rightarrow> (status, config\<lparr>udp_max_level := l\<rparr>))
      else if strcmp_eq key ''host''
      then (MP_LOG_STATUS_OK,
            config\<lparr>udp_host := mp_logger_copy_trimmed (udp_host config) 128 (Some v)\<rparr>)
      else if strcmp_eq key ''port''
      then (case mp_logger_parse_port_value v of
              None \<Rightarrow> (MP_LOG_STATUS_CONFIG_ERROR, config)
            | Some port \<Rightarrow> (MP_LOG_STATUS_OK, config\<lparr>udp_port := port\<rparr>))
      else (MP_LOG_STATUS_CONFIG_ERROR, config))"

definition mp_logger_apply_value ::
    "cbuf \<Rightarrow> cbuf \<Rightarrow> cbuf \<Rightarrow> mp_logger_config \<Rightarrow> mp_log_status_t \<times> mp_logger_config" where
  "mp_logger_apply_value section_name key v config =
     (if strcmp_eq section_name '''' then mp_logger_apply_root_value key v config
      else if strcmp_eq section_name ''logger'' then mp_logger_apply_logger_value key v config
      else if strcmp_eq section_name ''stdout'' then mp_logger_apply_stdout_value key v config
      else if strcmp_eq section_name ''stderr'' then mp_logger_apply_stderr_value key v config
      else if strcmp_eq section_name ''file'' then mp_logger_apply_file_value key v config
      else if strcmp_eq section_name ''udp'' then mp_logger_apply_udp_value key v config
      else (MP_LOG_STATUS_CONFIG_ERROR, config))"

text \<open>
  The local arrays of \<open>mp_logger_config_apply_override\<close> are uninitialised and are
  overwritten before they are read; they start as zeros here.
\<close>

definition mp_logger_config_apply_override ::
    "mp_logger_config option \<Rightarrow> cbuf option \<Rightarrow> cbuf option \<Rightarrow> cbuf option \<Rightarrow>
     mp_log_status_t \<times> mp_logger_config option" where
  "mp_logger_config_apply_override config section_name key v =
     (case (config, key, v) of
        (Some c, Some k, Some x) \<Rightarrow>
          let normalized_section = mp_logger_copy_trimmed (zeros 32) 32
                (Some (case section_name of None \<Rightarrow> '''' | Some s \<Rightarrow> s));
              normalized_key = mp_logger_copy_trimmed (zeros 64) 64 (Some k);
              normalized_value = mp_logger_unquote_scalar
                (mp_logger_copy_trimmed (zeros 256) 256 (Some x))
          in if cstr normalized_key = [] then (MP_LOG_STATUS_CONFIG_ERROR, config)
             else (case mp_logger_apply_value normalized_section normalized_key normalized_value c of
                     (status, c') \<Rightarrow> (status, Some c'))
      | _ \<Rightarrow> (MP_LOG_STATUS_INVALID_ARGUMENT, config))"

section \<open>The contract of a section\<close>

text \<open>The eight thresholds of the built-in streams are enumerators.\<close>

definition levels_ok :: "mp_logger_config \<Rightarrow> bool" where
  "levels_ok c \<longleftrightarrow>
     valid_level (stdout_min_level c) \<and> valid_level (stdout_max_level c) \<and>
     valid_level (stderr_min_level c) \<and> valid_level (stderr_max_level c) \<and>
     valid_level (file_min_level c) \<and> valid_level (file_max_level c) \<and>
     valid_level (udp_min_level c) \<and> valid_level (udp_max_level c)"

definition config_inv :: "mp_logger_config \<Rightarrow> bool" where
  "config_inv c \<longleftrightarrow> wf_config c \<and> levels_ok c"

lemmas config_inv_defs = config_inv_def wf_config_def levels_ok_def

text \<open>
  What the callers of a dispatcher rely on: it keeps the invariant of the config, it reports
  \<open>OK\<close> or \<open>CONFIG_ERROR\<close>, and an error leaves the config as it was.
\<close>

locale config_section =
  fixes apply_value :: "cbuf \<Rightarrow> cbuf \<Rightarrow> mp_logger_config \<Rightarrow> mp_log_status_t \<times> mp_logger_config"
  assumes apply_inv: "config_inv c \<Longrightarrow> config_inv (snd (apply_value k v c))"
    and apply_status: "fst (apply_value k v c) \<in> {MP_LOG_STATUS_OK, MP_LOG_STATUS_CONFIG_ERROR}"
    and apply_failed: "fst (apply_value k v c) \<noteq> MP_LOG_STATUS_OK \<Longrightarrow> snd (apply_value k v c) = c"
begin

lemma apply_cases:
  obtains c' where "apply_value k v c = (MP_LOG_STATUS_OK, c')" "config_inv c \<Longrightarrow> config_inv c'"
  | "apply_value k v c = (MP_LOG_STATUS_CONFIG_ERROR, c)"
proof -
  obtain s c' where sc: "apply_value k v c = (s, c')" by (cases "apply_value k v c")
  with apply_status [of k v c] apply_failed [of k v c] apply_inv [of c k v] that
  show ?thesis by auto
qed

end

text \<open>
  The contract of one call, with an introduction rule for each shape of branch that the
  dispatchers are made of.
\<close>

definition keeps_config :: "mp_logger_config \<Rightarrow> mp_log_status_t \<times> mp_logger_config \<Rightarrow> bool" where
  "keeps_config c r \<longleftrightarrow>
     (config_inv c \<longrightarrow> config_inv (snd r)) \<and>
     fst r \<in> {MP_LOG_STATUS_OK, MP_LOG_STATUS_CONFIG_ERROR} \<and>
     (fst r \<noteq> MP_LOG_STATUS_OK \<longrightarrow> snd r = c)"

named_theorems keeps_intros \<open>branches of a section dispatcher\<close>

lemma keeps_if [keeps_intros]:
  "(b \<Longrightarrow> keeps_config c x) \<Longrightarrow> (\<not> b \<Longrightarrow> keeps_config c y) \<Longrightarrow> keeps_config c (if b then x else y)"
  by simp

lemma keeps_error [keeps_intros]: "keeps_config c (MP_LOG_STATUS_CONFIG_ERROR, c)"
  by (simp add: keeps_config_def)

lemma keeps_assign [keeps_intros]:
  "(config_inv c \<Longrightarrow> config_inv c') \<Longrightarrow> keeps_config c (MP_LOG_STATUS_OK, c')"
  by (simp add: keeps_config_def)

lemma keeps_option [keeps_intros]:
  "(\<And>x. config_inv c \<Longrightarrow> config_inv (f x)) \<Longrightarrow>
   keeps_config c (case p of None \<Rightarrow> (MP_LOG_STATUS_CONFIG_ERROR, c) | Some x \<Rightarrow> (MP_LOG_STATUS_OK, f x))"
  by (simp add: keeps_config_def split: option.split)

lemma keeps_level [keeps_intros]:
  "(\<And>l. config_inv c \<Longrightarrow> valid_level l \<Longrightarrow> config_inv (f l)) \<Longrightarrow>
   (config_inv c \<Longrightarrow> valid_level old) \<Longrightarrow> f old = c \<Longrightarrow>
   keeps_config c (case mp_logger_parse_level_name (Some v) old of (status, l) \<Rightarrow> (status, f l))"
  using parse_level_status [of v old] parse_level_failed [of "Some v" old]
    parse_level_keeps_valid [of old "Some v"]
  by (auto simp: keeps_config_def case_prod_beta)

lemma keeps_format [keeps_intros]:
  "(\<And>x. config_inv c \<Longrightarrow> config_inv (f x)) \<Longrightarrow> f old = c \<Longrightarrow>
   keeps_config c (case mp_logger_parse_format_name (Some v) old of (status, x) \<Rightarrow> (status, f x))"
  using parse_format_status [of v old] parse_format_failed [of "Some v" old]
  by (auto simp: keeps_config_def case_prod_beta)

lemma config_sectionI: "(\<And>k v c. keeps_config c (f k v c)) \<Longrightarrow> config_section f"
  by (simp add: config_section_def keeps_config_def)

context config_section
begin

lemma keeps: "keeps_config c (apply_value k v c)"
  using apply_inv apply_status [of k v c] apply_failed by (simp add: keeps_config_def)

end

interpretation root_section: config_section mp_logger_apply_root_value
  unfolding mp_logger_apply_root_value_def
  by (intro config_sectionI keeps_intros) (simp_all add: config_inv_defs wf_array_copy_trimmed)

interpretation logger_section: config_section mp_logger_apply_logger_value
  unfolding mp_logger_apply_logger_value_def
  by (intro config_sectionI keeps_intros) (simp_all add: config_inv_defs wf_array_copy_trimmed)

interpretation stdout_section: config_section mp_logger_apply_stdout_value
  unfolding mp_logger_apply_stdout_value_def
  by (intro config_sectionI keeps_intros) (simp_all add: config_inv_defs)

interpretation stderr_section: config_section mp_logger_apply_stderr_value
  unfolding mp_logger_apply_stderr_value_def
  by (intro config_sectionI keeps_intros) (simp_all add: config_inv_defs)

interpretation file_section: config_section mp_logger_apply_file_value
  unfolding mp_logger_apply_file_value_def
  by (intro config_sectionI keeps_intros) (simp_all add: config_inv_defs)

interpretation udp_section: config_section mp_logger_apply_udp_value
  unfolding mp_logger_apply_udp_value_def
  by (intro config_sectionI keeps_intros) (simp_all add: config_inv_defs wf_array_copy_trimmed)

text \<open>The dispatcher over the sections keeps the contract of its sections.\<close>

interpretation dispatch: config_section "mp_logger_apply_value section_name" for section_name
  unfolding mp_logger_apply_value_def
  by (intro config_sectionI keeps_intros root_section.keeps logger_section.keeps
      stdout_section.keeps stderr_section.keeps file_section.keeps udp_section.keeps)

section \<open>Overrides and defaults\<close>

lemma apply_override_Some:
  "mp_logger_config_apply_override (Some c) sec (Some k) (Some v) =
     (let key = mp_logger_copy_trimmed (zeros 64) 64 (Some k) in
      if cstr key = [] then (MP_LOG_STATUS_CONFIG_ERROR, Some c)
      else map_prod id Some
        (mp_logger_apply_value
           (mp_logger_copy_trimmed (zeros 32) 32 (Some (case sec of None \<Rightarrow> '''' | Some s \<Rightarrow> s)))
           key (mp_logger_unquote_scalar (mp_logger_copy_trimmed (zeros 256) 256 (Some v))) c))"
  by (simp add: mp_logger_config_apply_override_def Let_def map_prod_def)

text \<open>The outcomes of an override of an existing config.\<close>

lemma apply_override_cases:
  obtains c' where "mp_logger_config_apply_override (Some c) sec (Some k) (Some v) = (MP_LOG_STATUS_OK, Some c')"
      "config_inv c \<Longrightarrow> config_inv c'"
  | "mp_logger_config_apply_override (Some c) sec (Some k) (Some v) = (MP_LOG_STATUS_CONFIG_ERROR, Some c)"
proof (cases "cstr (mp_logger_copy_trimmed (zeros 64) 64 (Some k)) = []")
  case True
  with that(2) show ?thesis by (simp add: apply_override_Some)
next
  case False
  then show ?thesis
    by (rule_tac dispatch.apply_cases [of
          "mp_logger_copy_trimmed (zeros 32) 32 (Some (case sec of None \<Rightarrow> '''' | Some s \<Rightarrow> s))"
          "mp_logger_copy_trimmed (zeros 64) 64 (Some k)"
          "mp_logger_unquote_scalar (mp_logger_copy_trimmed (zeros 256) 256 (Some v))" c])
      (simp_all add: apply_override_Some that)
qed

lemma config_inv_defaults: "config_inv mp_logger_config_init_defaults"
  by (simp add: mp_logger_config_init_defaults_def zeroed_config_def config_inv_defs valid_level_def
      wf_array_copy_trimmed wf_array_zeros)

section \<open>Properties\<close>

text \<open>
  An override of a well-formed configuration is atomic: it either reports \<open>OK\<close> and
  leaves a configuration whose arrays keep their sizes and terminators and whose thresholds
  are levels, or it reports an error and leaves the configuration as it was. A missing
  argument is \<open>INVALID_ARGUMENT\<close>.
\<close>

theorem apply_override_contract:
  assumes "config_inv c"
  shows "case mp_logger_config_apply_override (Some c) sec key v of (status, r) \<Rightarrow>
    (case (key, v) of
       (Some _, Some _) \<Rightarrow>
         status = MP_LOG_STATUS_OK \<and> (\<exists>c'. r = Some c' \<and> config_inv c') \<or>
         status = MP_LOG_STATUS_CONFIG_ERROR \<and> r = Some c
     | _ \<Rightarrow> status = MP_LOG_STATUS_INVALID_ARGUMENT \<and> r = Some c)"
proof (cases key; cases v)
  fix k x assume "key = Some k" "v = Some x"
  with assms show ?thesis
    by (cases rule: apply_override_cases [of c sec k x]) auto
qed (simp_all add: mp_logger_config_apply_override_def)

theorem apply_override_contract_witness:
  "case mp_logger_config_apply_override (Some mp_logger_config_init_defaults) None None None of
    (status, r) \<Rightarrow> status = MP_LOG_STATUS_INVALID_ARGUMENT \<and> r = Some mp_logger_config_init_defaults"
  using apply_override_contract [OF config_inv_defaults, of None None None] by simp

end
