(* ===== verification/Logger_Bootstrap.thy ===== *)
theory Logger_Bootstrap
  imports Logger_Config
begin

text \<open>
  The bootstrap loader and the stream list of \<open>src/mp_logger_bootstrap.c\<close>. The file is a
  parameter (the bytes that \<open>fopen\<close> finds under a path, or nothing); \<open>fgets\<close> is
  modelled with its line buffer, so a line that does not fit is read in pieces as the code
  reads it. The loader is then proved equal to an interpreter of text lines.
\<close>

section \<open>The stream list\<close>

text \<open>
  The loop over the comma-separated names: \<open>cursor\<close> is the rest of the local buffer, and a
  token is the cursor with its comma overwritten by NUL.
\<close>

function split_stream_loop ::
    "cbuf list \<Rightarrow> nat \<Rightarrow> nat \<Rightarrow> cbuf \<Rightarrow> bool \<times> cbuf list \<times> nat" where
  "split_stream_loop names max_names count cursor =
     (if cstr cursor = [] then (True, names, count)
      else let comma = strchr cursor CHR '','' in
        if count \<ge> max_names then (False, names, 0)
        else
          let token = (case comma of None \<Rightarrow> cursor | Some i \<Rightarrow> cursor[i := NUL]);
              names' = names[count := mp_logger_copy_trimmed (names ! count) 32 (Some token)];
              count' = (if cstr (names' ! count) \<noteq> [] then count + 1 else count)
          in case comma of
               None \<Rightarrow> (True, names', count')
             | Some i \<Rightarrow> split_stream_loop names' max_names count' (drop (i + 1) cursor))"
  by pat_completeness auto
termination
  by (relation "measure (\<lambda>(names, max_names, count, cursor). length cursor)")
    (auto intro!: diff_less dest: cstr_not_Nil)

declare split_stream_loop.simps [simp del]

text \<open>The result is the \<open>int\<close>, the array of names and \<open>*out_count\<close>.\<close>

definition mp_logger_split_stream_list ::
    "cbuf option \<Rightarrow> cbuf list \<Rightarrow> nat \<Rightarrow> bool \<times> cbuf list \<times> nat" where
  "mp_logger_split_stream_list active names max_names =
     (case active of
        None \<Rightarrow> (True, names, 0)
      | Some s \<Rightarrow>
          if cstr s = [] then (True, names, 0)
          else split_stream_loop names max_names 0
            (mp_logger_copy_trimmed (zeros MP_LOGGER_ACTIVE_STREAMS_CAPACITY)
               MP_LOGGER_ACTIVE_STREAMS_CAPACITY (Some s)))"

text \<open>The names a list text stands for: its pieces, trimmed, cut to 31 bytes, the empty ones left out.\<close>

definition token_name :: "string \<Rightarrow> string" where
  "token_name s = take 31 (trim s)"

definition stream_names :: "string \<Rightarrow> string list" where
  "stream_names s = List.filter (\<lambda>n. n \<noteq> []) (map token_name (split_on CHR '','' s))"

lemma stream_names_Nil [simp]: "stream_names [] = []"
  by (simp add: stream_names_def token_name_def)

lemma strchr_None: "strchr s d = None \<longleftrightarrow> d \<notin> set (cstr s)"
  by (simp add: strchr_def)

lemma strchr_Some:
  assumes "strchr s d = Some i" and "d \<noteq> NUL"
  shows "i < strlen s" and "cstr (s[i := NUL]) = take i (cstr s)" and "d \<notin> set (take i (cstr s))"
    and "cstr s = take i (cstr s) @ d # cstr (drop (i + 1) s)"
proof -
  have d: "d \<in> set (cstr s)" and i: "i = length (takeWhile (\<lambda>x. x \<noteq> d) (cstr s))"
    using assms(1) by (auto simp: strchr_def split: if_splits)
  have pre: "take i (cstr s) = takeWhile (\<lambda>x. x \<noteq> d) (cstr s)"
    unfolding i by (rule takeWhile_eq_take [symmetric])
  show lt: "i < strlen s"
    unfolding i strlen_def using d by (rule length_takeWhile_neq)
  show "d \<notin> set (take i (cstr s))"
    unfolding pre by (auto dest: set_takeWhileD)
  have len: "i < length s" using lt strlen_le le_trans less_le_trans by blast
  have s_split: "s = take i s @ s ! i # drop (Suc i) s"
    using len by (rule id_take_nth_drop)
  have take_eq: "take i s = take i (cstr s)"
    using lt by (simp add: cstr_take_strlen)
  have nth: "s ! i = d"
  proof -
    have "s ! i = cstr s ! i" using lt by (simp add: nth_cstr)
    also have "\<not> (\<lambda>x. x \<noteq> d) \<dots>"
      unfolding i using lt i by (intro nth_length_takeWhile) (simp add: strlen_def)
    finally show ?thesis by simp
  qed
  have "s[i := NUL] = take i (cstr s) @ NUL # drop (Suc i) s"
    using len by (simp add: upd_conv_take_nth_drop take_eq)
  then show "cstr (s[i := NUL]) = take i (cstr s)"
    by (simp add: cstr_append_NUL)
  have "cstr s = cstr (take i (cstr s) @ d # drop (Suc i) s)"
    using s_split nth take_eq by simp
  then show "cstr s = take i (cstr s) @ d # cstr (drop (i + 1) s)"
    using assms(2) by (simp add: cstr_append cstr_Cons)
qed

lemma stream_names_comma:
  "CHR '','' \<notin> set a \<Longrightarrow>
   stream_names (a @ CHR '','' # b) =
     (if token_name a = [] then [] else [token_name a]) @ stream_names b"
  by (simp add: stream_names_def split_on_append)

lemma stream_names_single:
  "CHR '','' \<notin> set a \<Longrightarrow> stream_names a = (if token_name a = [] then [] else [token_name a])"
  by (simp add: stream_names_def split_on_none)

text \<open>
  The rows of the array a list asks for: one for each name, and one more when the last piece the
  loop visits is blank, since the room is tested before the piece is read. An empty piece behind
  the last comma is not visited.
\<close>

definition visited_pieces :: "string \<Rightarrow> string list" where
  "visited_pieces s =
     (let ps = split_on CHR '','' s in if last ps = [] then butlast ps else ps)"

definition rows_needed :: "string \<Rightarrow> nat" where
  "rows_needed s = length (stream_names s) +
     (if visited_pieces s \<noteq> [] \<and> token_name (last (visited_pieces s)) = [] then 1 else 0)"

lemma visited_pieces_Nil [simp]: "visited_pieces [] = []"
  by (simp add: visited_pieces_def)

lemma visited_pieces_comma:
  "CHR '','' \<notin> set a \<Longrightarrow> visited_pieces (a @ CHR '','' # b) = a # visited_pieces b"
  by (simp add: visited_pieces_def split_on_append Let_def)

lemma visited_pieces_not_Nil:
  assumes "s \<noteq> []"
  shows "visited_pieces s \<noteq> []"
proof (cases s)
  case (Cons c cs)
  then show ?thesis
    using split_on_not_Nil [of "CHR '',''" cs] by (cases "split_on CHR '','' cs") (auto simp: visited_pieces_def Let_def)
qed (use assms in simp)

lemma rows_needed_Nil [simp]: "rows_needed [] = 0"
  by (simp add: rows_needed_def)

text \<open>Each name has its row, and a text that is visited at all needs one.\<close>

lemma stream_names_pieces:
  "stream_names s = List.filter (\<lambda>n. n \<noteq> []) (map token_name (visited_pieces s))"
proof -
  obtain ps p where ps: "split_on CHR '','' s = ps @ [p]"
    by (metis append_butlast_last_id split_on_not_Nil)
  show ?thesis
    unfolding stream_names_def visited_pieces_def Let_def ps by (simp add: token_name_def)
qed

lemma rows_needed_pos:
  assumes "s \<noteq> []"
  shows "0 < rows_needed s"
proof -
  have "last (visited_pieces s) \<in> set (visited_pieces s)"
    using visited_pieces_not_Nil [OF assms] by (rule last_in_set)
  then show ?thesis
    using visited_pieces_not_Nil [OF assms]
    by (auto simp: rows_needed_def stream_names_pieces filter_empty_conv)
qed

lemma rows_needed_comma:
  assumes "CHR '','' \<notin> set a"
  shows "rows_needed (a @ CHR '','' # b) =
    (if b = [] then 1 else (if token_name a = [] then 0 else 1) + rows_needed b)"
  using visited_pieces_not_Nil [of b]
  by (simp add: rows_needed_def visited_pieces_comma [OF assms] stream_names_comma [OF assms])

lemma rows_needed_single:
  assumes "CHR '','' \<notin> set a" and "a \<noteq> []"
  shows "rows_needed a = 1"
  using assms by (simp add: rows_needed_def visited_pieces_def stream_names_single split_on_none)

text \<open>The array of names: \<open>max_names\<close> rows of 32 bytes.\<close>

definition wf_names :: "nat \<Rightarrow> cbuf list \<Rightarrow> bool" where
  "wf_names max_names names \<longleftrightarrow>
     length names = max_names \<and> list_all (\<lambda>n. length n = MP_LOGGER_STREAM_NAME_CAPACITY) names"

lemma wf_names_update:
  "wf_names m names \<Longrightarrow> k < m \<Longrightarrow> wf_names m (names[k := mp_logger_copy_trimmed (names ! k) 32 src])"
  by (auto simp: wf_names_def list_all_length nth_list_update)

lemma wf_names_token:
  "wf_names m names \<Longrightarrow> k < m \<Longrightarrow>
   cstr (mp_logger_copy_trimmed (names ! k) 32 (Some src)) = token_name (cstr src)"
  by (simp add: wf_names_def list_all_length cstr_copy_trimmed token_name_def)

text \<open>What the loop has built when it starts from \<open>count\<close> names.\<close>

lemma split_stream_loop_spec:
  assumes "wf_names m names" and "count \<le> m"
  shows "case split_stream_loop names m count cursor of (ok, names', n) \<Rightarrow>
    wf_names m names' \<and>
    (ok \<longrightarrow> n = count + length (stream_names (cstr cursor)) \<and> n \<le> m \<and>
       map cstr (take n names') = map cstr (take count names) @ stream_names (cstr cursor)) \<and>
    (count + length (stream_names (cstr cursor)) < m \<longrightarrow> ok) \<and> (\<not> ok \<longrightarrow> n = 0)"
  using assms
proof (induction names m count cursor rule: split_stream_loop.induct)
  case (1 names m count cursor)
  show ?case
  proof (cases "cstr cursor = [] \<or> m \<le> count")
    case True
    with 1 show ?thesis by (auto simp: split_stream_loop.simps [of names m count cursor])
  next
    case False
    then have ne: "cstr cursor \<noteq> []" and lt: "\<not> m \<le> count" "count < m" by auto
    define token where "token = (case strchr cursor CHR '','' of None \<Rightarrow> cursor | Some i \<Rightarrow> cursor[i := NUL])"
    define names' where "names' = names[count := mp_logger_copy_trimmed (names ! count) 32 (Some token)]"
    define count' where "count' = (if cstr (names' ! count) \<noteq> [] then count + 1 else count)"
    have len: "count < length names" using 1 lt by (simp add: wf_names_def)
    have wf': "wf_names m names'" using 1 lt by (simp add: names'_def wf_names_update)
    have name: "cstr (names' ! count) = token_name (cstr token)"
      using 1 lt len by (simp add: names'_def wf_names_token)
    have le': "count' \<le> m" using lt by (simp add: count'_def)
    have taken: "map cstr (take count' names') = map cstr (take count names) @
        (if token_name (cstr token) = [] then [] else [token_name (cstr token)])"
      using len name by (simp add: count'_def names'_def take_Suc_conv_app_nth)
    have count': "count' = count + length (if token_name (cstr token) = [] then [] else [token_name (cstr token)])"
      by (simp add: count'_def name)
    show ?thesis
    proof (cases "strchr cursor CHR '',''")
      case None
      then have "stream_names (cstr cursor) =
          (if token_name (cstr token) = [] then [] else [token_name (cstr token)])"
        using None [THEN strchr_None [THEN iffD1]] by (simp add: token_def stream_names_single)
      moreover have "split_stream_loop names m count cursor = (True, names', count')"
        using None ne lt
        by (simp add: split_stream_loop.simps [of names m count cursor] Let_def token_def names'_def count'_def)
      ultimately show ?thesis using taken count' wf' le' by simp
    next
      case (Some i)
      note chr = strchr_Some [OF Some]
      have names_eq: "stream_names (cstr cursor) =
          (if token_name (cstr token) = [] then [] else [token_name (cstr token)]) @
          stream_names (cstr (drop (i + 1) cursor))"
      proof -
        have "stream_names (cstr cursor) =
            stream_names (take i (cstr cursor) @ CHR '','' # cstr (drop (i + 1) cursor))"
          using chr(4) by (intro arg_cong [of _ _ stream_names]) simp
        also have "\<dots> = (if token_name (take i (cstr cursor)) = [] then [] else [token_name (take i (cstr cursor))]) @
            stream_names (cstr (drop (i + 1) cursor))"
          using chr(3) by (intro stream_names_comma) simp
        finally show ?thesis using chr(2) by (simp add: token_def Some)
      qed
      have "split_stream_loop names m count cursor = split_stream_loop names' m count' (drop (i + 1) cursor)"
        using Some ne lt
        by (simp add: split_stream_loop.simps [of names m count cursor] Let_def token_def names'_def count'_def)
      moreover note "1.IH" [OF ne refl lt(1) token_def names'_def count'_def Some wf' le']
      ultimately show ?thesis
        using taken count' by (auto simp: names_eq split: prod.splits)
    qed
  qed
qed

text \<open>The loop succeeds exactly when the rows the text asks for are there.\<close>

lemma split_stream_loop_ok:
  assumes "wf_names m names" and "count \<le> m"
  shows "fst (split_stream_loop names m count cursor) \<longleftrightarrow> count + rows_needed (cstr cursor) \<le> m"
  using assms
proof (induction names m count cursor rule: split_stream_loop.induct)
  case (1 names m count cursor)
  show ?case
  proof (cases "cstr cursor = [] \<or> m \<le> count")
    case True
    with 1 rows_needed_pos [of "cstr cursor"] show ?thesis
      by (auto simp: split_stream_loop.simps [of names m count cursor])
  next
    case False
    then have ne: "cstr cursor \<noteq> []" and lt: "\<not> m \<le> count" "count < m" by auto
    define token where "token = (case strchr cursor CHR '','' of None \<Rightarrow> cursor | Some i \<Rightarrow> cursor[i := NUL])"
    define names' where "names' = names[count := mp_logger_copy_trimmed (names ! count) 32 (Some token)]"
    define count' where "count' = (if cstr (names' ! count) \<noteq> [] then count + 1 else count)"
    have wf': "wf_names m names'" using 1 lt by (simp add: names'_def wf_names_update)
    have "count < length names" using 1 lt by (simp add: wf_names_def)
    then have "cstr (names' ! count) = token_name (cstr token)"
      using 1 lt by (simp add: names'_def wf_names_token)
    then have count': "count' = (if token_name (cstr token) = [] then count else count + 1)"
      by (simp add: count'_def)
    show ?thesis
    proof (cases "strchr cursor CHR '',''")
      case None
      then have "fst (split_stream_loop names m count cursor)"
        using ne lt by (simp add: split_stream_loop.simps [of names m count cursor] Let_def)
      then show ?thesis
        using lt ne None [THEN strchr_None [THEN iffD1]] by (simp add: rows_needed_single)
    next
      case (Some i)
      note chr = strchr_Some [OF Some, simplified]
      have "split_stream_loop names m count cursor = split_stream_loop names' m count' (drop (i + 1) cursor)"
        using Some ne lt
        by (simp add: split_stream_loop.simps [of names m count cursor] Let_def token_def names'_def count'_def)
      moreover have "count' \<le> m" using lt by (simp add: count'_def)
      note "1.IH" [OF ne refl lt(1) token_def names'_def count'_def Some wf' this]
      moreover have "rows_needed (cstr cursor) = rows_needed (take i (cstr cursor) @ CHR '','' # cstr (drop (i + 1) cursor))"
        using chr(4) by (intro arg_cong [of _ _ rows_needed]) simp
      ultimately show ?thesis
        using lt count' chr(2) rows_needed_pos [of "cstr (drop (i + 1) cursor)"]
        by (auto simp: rows_needed_comma [OF chr(3)] token_def Some)
    qed
  qed
qed

lemma cstr_active_copy:
  "cstr (mp_logger_copy_trimmed (zeros 128) 128 (Some s)) = take 127 (trim (cstr s))"
  by (simp add: cstr_copy_trimmed)

lemma split_stream_list_spec:
  assumes "wf_names m names" and "strlen s < MP_LOGGER_ACTIVE_STREAMS_CAPACITY"
  shows "case mp_logger_split_stream_list (Some s) names m of (ok, names', n) \<Rightarrow>
    (ok \<longrightarrow> n \<le> m \<and> map cstr (take n names') = stream_names (trim (cstr s))) \<and>
    (length (stream_names (trim (cstr s))) < m \<longrightarrow> ok) \<and>
    (length (stream_names (trim (cstr s))) > m \<longrightarrow> \<not> ok)"
proof -
  have "length (trim (cstr s)) \<le> strlen s"
    using trim_end_le [of s "skip_spaces s" "strlen s"] by (simp add: length_trim_cstr)
  then have take: "take 127 (trim (cstr s)) = trim (cstr s)"
    using assms(2) by simp
  show ?thesis
    using split_stream_loop_spec [OF assms(1), of 0 "mp_logger_copy_trimmed (zeros 128) 128 (Some s)"]
    by (auto simp: mp_logger_split_stream_list_def cstr_active_copy take split: prod.splits)
qed

section \<open>Reading lines\<close>

text \<open>
  \<open>fgets(line, size, file)\<close>: at most \<open>size - 1\<close> bytes up to and including the next newline,
  terminated by NUL; the rest of the file stays for the next call.
\<close>

definition fgets_chunk :: "nat \<Rightarrow> string \<Rightarrow> string" where
  "fgets_chunk max_bytes content =
     (let window = take (max_bytes - 1) content in
      if CHR 0x0A \<in> set window then takeWhile (\<lambda>c. c \<noteq> CHR 0x0A) window @ [CHR 0x0A] else window)"

definition fgets :: "cbuf \<Rightarrow> nat \<Rightarrow> string \<Rightarrow> (cbuf \<times> string) option" where
  "fgets line max_bytes content =
     (if content = [] then None
      else let chunk = fgets_chunk max_bytes content in
        Some (overwrite line 0 (chunk @ [NUL]), drop (length chunk) content))"

lemma fgets_chunk_length: "1 < max_bytes \<Longrightarrow> content \<noteq> [] \<Longrightarrow> 0 < length (fgets_chunk max_bytes content)"
  by (cases content) (auto simp: fgets_chunk_def Let_def)

lemma fgets_rest_shorter:
  "fgets line max_bytes content = Some (line', rest) \<Longrightarrow> 1 < max_bytes \<Longrightarrow> length rest < length content"
  using fgets_chunk_length [of max_bytes content]
  by (auto simp: fgets_def Let_def split: if_splits)

lemma fgets_chunk_le: "0 < max_bytes \<Longrightarrow> length (fgets_chunk max_bytes content) < max_bytes"
proof -
  assume "0 < max_bytes"
  then show ?thesis
    using length_takeWhile_neq [of "CHR 0x0A" "take (max_bytes - 1) content"]
    by (auto simp: fgets_chunk_def Let_def)
qed

section \<open>The loader\<close>

text \<open>
  The body of the line loop. \<open>line\<close> is the line buffer, \<open>current_section\<close> the section state;
  the arrays \<open>key\<close> and \<open>value\<close> are uninitialised in the code, overwritten before they are
  read, and start as zeros here.
\<close>

function bootstrap_lines ::
    "string \<Rightarrow> cbuf \<Rightarrow> cbuf \<Rightarrow> mp_logger_config \<Rightarrow> mp_log_status_t \<times> mp_logger_config" where
  "bootstrap_lines content line current_section config =
     (case fgets line MP_LOGGER_BOOTSTRAP_LINE_CAPACITY content of
        None \<Rightarrow> (MP_LOG_STATUS_OK, config)
      | Some (line0, rest) \<Rightarrow>
          let line1 = mp_logger_copy_trimmed line0 MP_LOGGER_BOOTSTRAP_LINE_CAPACITY (Some line0) in
          if line1 ! 0 = NUL \<or> line1 ! 0 = CHR ''#''
          then bootstrap_lines rest line1 current_section config
          else case strchr line1 CHR '':'' of
            None \<Rightarrow> (MP_LOG_STATUS_CONFIG_ERROR, config)
          | Some separator \<Rightarrow>
              let line2 = line1[separator := NUL];
                  key = mp_logger_copy_trimmed (zeros MP_LOGGER_BOOTSTRAP_KEY_CAPACITY)
                    MP_LOGGER_BOOTSTRAP_KEY_CAPACITY (Some line2);
                  value = mp_logger_unquote_scalar
                    (mp_logger_copy_trimmed (zeros MP_LOGGER_BOOTSTRAP_VALUE_CAPACITY)
                       MP_LOGGER_BOOTSTRAP_VALUE_CAPACITY (Some (drop (separator + 1) line2)))
              in if value ! 0 = NUL
                 then bootstrap_lines rest line2
                   (mp_logger_copy_trimmed current_section MP_LOGGER_BOOTSTRAP_SECTION_CAPACITY (Some key))
                   config
                 else if key ! 0 = NUL then (MP_LOG_STATUS_CONFIG_ERROR, config)
                 else case mp_logger_config_apply_override (Some config) (Some current_section)
                     (Some key) (Some value) of
                   (MP_LOG_STATUS_OK, Some config') \<Rightarrow> bootstrap_lines rest line2 current_section config'
                 | _ \<Rightarrow> (MP_LOG_STATUS_CONFIG_ERROR, config))"
  by pat_completeness auto
termination
  by (relation "measure (\<lambda>(content, line, sec, config). length content)")
    (auto dest: sym intro: fgets_rest_shorter)

declare bootstrap_lines.simps [simp del]

definition mp_logger_bootstrap_load ::
    "(string \<Rightarrow> string option) \<Rightarrow> cbuf option \<Rightarrow> mp_logger_config option \<Rightarrow>
     mp_log_status_t \<times> mp_logger_config option" where
  "mp_logger_bootstrap_load read_file config_path out_config =
     (case (config_path, out_config) of
        (Some path, Some out) \<Rightarrow>
          if \<not> mp_logger_has_yaml_extension config_path then (MP_LOG_STATUS_CONFIG_ERROR, out_config)
          else (case read_file (cstr path) of
                  None \<Rightarrow> (MP_LOG_STATUS_IO_ERROR, out_config)
                | Some content \<Rightarrow>
                    (case bootstrap_lines content (zeros MP_LOGGER_BOOTSTRAP_LINE_CAPACITY)
                        (zeros MP_LOGGER_BOOTSTRAP_SECTION_CAPACITY) mp_logger_config_init_defaults of
                       (status, config) \<Rightarrow>
                         if status = MP_LOG_STATUS_OK then (status, Some config)
                         else (status, out_config)))
      | _ \<Rightarrow> (MP_LOG_STATUS_INVALID_ARGUMENT, out_config))"

section \<open>The loader as an interpreter of lines\<close>

text \<open>What one line of the file says.\<close>

datatype line_kind =
    Line_Skip
  | Line_Malformed
  | Line_Section string
  | Line_Without_Key
  | Line_Assign string string

definition classify_line :: "string \<Rightarrow> line_kind" where
  "classify_line s =
     (let t = trim s in
      if t = [] \<or> hd t = CHR ''#'' then Line_Skip
      else if CHR '':'' \<notin> set t then Line_Malformed
      else
        let k = take 63 (trim (takeWhile (\<lambda>c. c \<noteq> CHR '':'') t));
            v = unquote (take 255 (trim (tl (dropWhile (\<lambda>c. c \<noteq> CHR '':'') t))))
        in if v = [] then Line_Section k
           else if k = [] then Line_Without_Key
           else Line_Assign k v)"

fun interpret_lines :: "string list \<Rightarrow> string \<Rightarrow> mp_logger_config \<Rightarrow> mp_log_status_t \<times> mp_logger_config" where
  "interpret_lines [] sec config = (MP_LOG_STATUS_OK, config)"
| "interpret_lines (l # ls) sec config =
     (case classify_line (cstr l) of
        Line_Skip \<Rightarrow> interpret_lines ls sec config
      | Line_Malformed \<Rightarrow> (MP_LOG_STATUS_CONFIG_ERROR, config)
      | Line_Section k \<Rightarrow> interpret_lines ls (take 31 (trim k)) config
      | Line_Without_Key \<Rightarrow> (MP_LOG_STATUS_CONFIG_ERROR, config)
      | Line_Assign k v \<Rightarrow>
          (case mp_logger_config_apply_override (Some config) (Some sec) (Some k) (Some v) of
             (MP_LOG_STATUS_OK, Some config') \<Rightarrow> interpret_lines ls sec config'
           | _ \<Rightarrow> (MP_LOG_STATUS_CONFIG_ERROR, config)))"

text \<open>An override reads its strings only up to their terminators.\<close>

lemma copy_trimmed_cong:
  "0 < n \<Longrightarrow> n \<le> length dest \<Longrightarrow> cstr s = cstr s' \<Longrightarrow>
   mp_logger_copy_trimmed dest n (Some s) = mp_logger_copy_trimmed dest n (Some s')"
  by (simp add: mp_logger_copy_trimmed_eq)

lemma apply_override_cong:
  "cstr sec = cstr sec' \<Longrightarrow> cstr k = cstr k' \<Longrightarrow> cstr v = cstr v' \<Longrightarrow>
   mp_logger_config_apply_override (Some c) (Some sec) (Some k) (Some v) =
   mp_logger_config_apply_override (Some c) (Some sec') (Some k') (Some v')"
  by (simp add: apply_override_Some Let_def copy_trimmed_cong [of 32 _ sec sec']
      copy_trimmed_cong [of 64 _ k k'] copy_trimmed_cong [of 256 _ v v'])

lemma nth_0_NUL: "b \<noteq> [] \<Longrightarrow> b ! 0 = NUL \<longleftrightarrow> cstr b = []"
  by (cases b) (auto simp: cstr_Cons)

lemma nth_0_hd: "cstr b \<noteq> [] \<Longrightarrow> b ! 0 = hd (cstr b)"
  by (cases b) (auto simp: cstr_Cons split: if_splits)

text \<open>One turn of the loop, given what the rest of the file does from every buffer state.\<close>

lemma bootstrap_lines_step:
  assumes line: "fgets line MP_LOGGER_BOOTSTRAP_LINE_CAPACITY content = Some (line0, rest)"
    and len0: "length line0 = MP_LOGGER_BOOTSTRAP_LINE_CAPACITY" and short: "strlen line0 < 512"
    and sec: "length sec = MP_LOGGER_BOOTSTRAP_SECTION_CAPACITY"
    and rest: "\<And>line' sec' config'. length line' = 512 \<Longrightarrow> length sec' = 32 \<Longrightarrow>
      bootstrap_lines rest line' sec' config' = F (cstr sec') config'"
  shows "bootstrap_lines content line sec config =
    (case classify_line (cstr line0) of
       Line_Skip \<Rightarrow> F (cstr sec) config
     | Line_Malformed \<Rightarrow> (MP_LOG_STATUS_CONFIG_ERROR, config)
     | Line_Section k \<Rightarrow> F (take 31 (trim k)) config
     | Line_Without_Key \<Rightarrow> (MP_LOG_STATUS_CONFIG_ERROR, config)
     | Line_Assign k v \<Rightarrow>
         (case mp_logger_config_apply_override (Some config) (Some (cstr sec)) (Some k) (Some v) of
            (MP_LOG_STATUS_OK, Some config') \<Rightarrow> F (cstr sec) config'
          | _ \<Rightarrow> (MP_LOG_STATUS_CONFIG_ERROR, config)))"
proof -
  define line1 where "line1 = mp_logger_copy_trimmed line0 512 (Some line0)"
  define t where "t = trim (cstr line0)"
  have len1: "length line1 = 512" by (simp add: line1_def len0)
  have "length t \<le> strlen line0"
    using trim_end_le [of line0 "skip_spaces line0" "strlen line0"] by (simp add: t_def length_trim_cstr)
  then have t1: "cstr line1 = t"
    using short by (simp add: line1_def cstr_copy_trimmed len0 t_def)
  have skip: "line1 ! 0 = NUL \<or> line1 ! 0 = CHR ''#'' \<longleftrightarrow> t = [] \<or> hd t = CHR ''#''"
  proof -
    have "line1 \<noteq> []" using len1 by auto
    then show ?thesis
      using nth_0_NUL [of line1] nth_0_hd [of line1] t1 by (cases "t = []") auto
  qed
  note unfold = bootstrap_lines.simps [of content line sec config]
  show ?thesis
  proof (cases "t = [] \<or> hd t = CHR ''#''")
    case True
    then have "classify_line (cstr line0) = Line_Skip"
      by (simp add: classify_line_def flip: t_def)
    with True skip show ?thesis
      by (simp add: unfold line Let_def rest len1 sec flip: line1_def)
  next
    case False
    show ?thesis
    proof (cases "strchr line1 CHR '':''")
      case None
      then have "classify_line (cstr line0) = Line_Malformed"
        using False by (auto simp: classify_line_def strchr_None t1 simp flip: t_def)
      with None False skip show ?thesis
        by (simp add: unfold line Let_def flip: line1_def)
    next
      case (Some i)
      define line2 where "line2 = line1[i := NUL]"
      define key where "key = mp_logger_copy_trimmed (zeros 64) 64 (Some line2)"
      define val where "val = mp_logger_unquote_scalar (mp_logger_copy_trimmed (zeros 256) 256 (Some (drop (i + 1) line2)))"
      define k where "k = take 63 (trim (takeWhile (\<lambda>c. c \<noteq> CHR '':'') t))"
      define v where "v = unquote (take 255 (trim (tl (dropWhile (\<lambda>c. c \<noteq> CHR '':'') t))))"
      have colon: "CHR '':'' \<in> set t" and i: "i = length (takeWhile (\<lambda>c. c \<noteq> CHR '':'') t)"
        using Some by (auto simp: strchr_def t1 split: if_splits)
      have pre: "take i t = takeWhile (\<lambda>c. c \<noteq> CHR '':'') t"
        unfolding i by (rule takeWhile_eq_take [symmetric])
      have post: "drop (Suc i) t = tl (dropWhile (\<lambda>c. c \<noteq> CHR '':'') t)"
        by (simp add: i dropWhile_eq_drop drop_Suc tl_drop)
      have chr: "cstr line2 = take i t" "t = take i t @ CHR '':'' # cstr (drop (i + 1) line1)"
        using strchr_Some [OF Some] by (simp_all add: line2_def t1)
      have "drop (i + 1) line2 = drop (i + 1) line1"
        by (simp add: line2_def)
      then have after: "cstr (drop (i + 1) line2) = drop (Suc i) t"
        using strchr_Some(1) [OF Some] by (subst chr(2)) (simp add: strlen_def t1 min_def)
      have keyC: "cstr key = k"
        by (simp add: key_def k_def cstr_copy_trimmed chr(1) pre)
      have valC: "cstr val = v"
        unfolding v_def val_def cstr_unquote_scalar post [symmetric] after [symmetric]
        by (simp add: cstr_copy_trimmed)
      have ne: "key \<noteq> []" "val \<noteq> []"
        by (auto simp: key_def val_def simp flip: length_greater_0_conv)
      have cls: "classify_line (cstr line0) =
          (if v = [] then Line_Section k else if k = [] then Line_Without_Key else Line_Assign k v)"
        using False colon by (simp add: classify_line_def Let_def k_def v_def flip: t_def)
      have len2: "length line2 = 512" by (simp add: line2_def len1)
      have over: "mp_logger_config_apply_override (Some config) (Some sec) (Some key) (Some val) =
          mp_logger_config_apply_override (Some config) (Some (cstr sec)) (Some k) (Some v)"
        by (rule apply_override_cong) (simp_all flip: keyC valC)
      have secC: "cstr (mp_logger_copy_trimmed sec 32 (Some key)) = take 31 (trim k)"
        by (simp add: cstr_copy_trimmed sec keyC)
      have body: "bootstrap_lines content line sec config =
          (if val ! 0 = NUL then bootstrap_lines rest line2 (mp_logger_copy_trimmed sec 32 (Some key)) config
           else if key ! 0 = NUL then (MP_LOG_STATUS_CONFIG_ERROR, config)
           else case mp_logger_config_apply_override (Some config) (Some sec) (Some key) (Some val) of
               (MP_LOG_STATUS_OK, Some config') \<Rightarrow> bootstrap_lines rest line2 sec config'
             | _ \<Rightarrow> (MP_LOG_STATUS_CONFIG_ERROR, config))"
        using False skip Some
        by (simp add: unfold line Let_def flip: line1_def line2_def key_def val_def [simplified])
      show ?thesis
        unfolding body cls over nth_0_NUL [OF ne(1)] nth_0_NUL [OF ne(2)] keyC valC
        by (simp add: rest len2 sec secC cong: mp_log_status_t.case_cong option.case_cong)
    qed
  qed
qed

text \<open>
  A line that fits the buffer with its newline is read whole; the rest are the lines behind it.
\<close>

lemma fgets_last_line:
  assumes "CHR 0x0A \<notin> set content" and "content \<noteq> []" and "length content \<le> 510" and "length line = 512"
  shows "\<exists>line0. fgets line 512 content = Some (line0, []) \<and> length line0 = 512 \<and>
    cstr line0 = cstr content \<and> strlen line0 < 512"
proof -
  define line0 where "line0 = overwrite line 0 (content @ [NUL])"
  have "fgets_chunk 512 content = content"
    using assms(1,3) by (simp add: fgets_chunk_def Let_def)
  then have "fgets line 512 content = Some (line0, [])"
    using assms(2) by (simp add: fgets_def line0_def)
  moreover have "length line0 = 512" using assms(3,4) by (simp add: line0_def)
  moreover have "cstr line0 = cstr content"
    by (simp add: line0_def overwrite_0 cstr_append_terminated)
  moreover have "strlen line0 < 512"
    using \<open>cstr line0 = cstr content\<close> assms(3) strlen_le [of content] by (simp add: strlen_def)
  ultimately show ?thesis by blast
qed

lemma fgets_full_line:
  assumes "CHR 0x0A \<notin> set l" and "length l \<le> 510" and "length line = 512"
  shows "\<exists>line0. fgets line 512 (l @ CHR 0x0A # rest) = Some (line0, rest) \<and> length line0 = 512 \<and>
    trim (cstr line0) = trim (cstr l) \<and> strlen line0 < 512"
proof -
  define line0 where "line0 = overwrite line 0 ((l @ [CHR 0x0A]) @ [NUL])"
  have "CHR 0x0A \<in> set (take 511 (l @ CHR 0x0A # rest))"
    using assms(2) by (simp add: take_Cons')
  then have "fgets_chunk 512 (l @ CHR 0x0A # rest) = l @ [CHR 0x0A]"
    using assms(1,2) by (simp add: fgets_chunk_def Let_def take_Cons' takeWhile_append)
  then have "fgets line 512 (l @ CHR 0x0A # rest) = Some (line0, rest)"
    by (simp add: fgets_def line0_def)
  moreover have "length line0 = 512" using assms(2,3) by (simp add: line0_def)
  moreover have c: "cstr line0 = cstr (l @ [CHR 0x0A])"
    using cstr_append_terminated [of "l @ [CHR 0x0A]"] by (simp add: line0_def overwrite_0)
  moreover have "trim (cstr (l @ [CHR 0x0A])) = trim (cstr l)"
    by (cases "NUL \<in> set l") (simp_all add: cstr_append cstr_append_left cstr_Cons cstr_id trim_snoc_newline)
  moreover have "strlen line0 < 512"
    using c assms(2) strlen_le [of "l @ [CHR 0x0A]"] by (simp add: strlen_def)
  ultimately show ?thesis by auto
qed

lemma classify_line_trim: "trim s = trim s' \<Longrightarrow> classify_line s = classify_line s'"
  by (simp add: classify_line_def)

lemma bootstrap_lines_Nil: "bootstrap_lines [] line sec config = (MP_LOG_STATUS_OK, config)"
  by (simp add: bootstrap_lines.simps fgets_def)

lemma bootstrap_lines_interpret:
  assumes "list_all (\<lambda>l. length l \<le> 510) (split_on CHR 0x0A content)"
    and "length line = 512" and "length sec = 32"
  shows "bootstrap_lines content line sec config =
    interpret_lines (split_on CHR 0x0A content) (cstr sec) config"
  using assms
proof (induction "split_on CHR 0x0A content" arbitrary: content line sec config)
  case Nil
  then show ?case by (metis split_on_not_Nil)
next
  case (Cons l ls)
  note split = split_on_ConsD [OF Cons.hyps(2) [symmetric]]
  have short: "length l \<le> 510" and shorts: "list_all (\<lambda>l. length l \<le> 510) ls"
    using Cons.prems(1) by (simp_all flip: Cons.hyps(2))
  show ?case
  proof (cases "content = []")
    case True
    then show ?thesis by (simp add: bootstrap_lines_Nil classify_line_def)
  next
    case False
    obtain line0 rest where line0: "fgets line 512 content = Some (line0, rest)" "length line0 = 512"
        "trim (cstr line0) = trim (cstr l)" "strlen line0 < 512"
      and rest: "\<And>line' sec' config'. length line' = 512 \<Longrightarrow> length sec' = 32 \<Longrightarrow>
        bootstrap_lines rest line' sec' config' = interpret_lines ls (cstr sec') config'"
    proof (cases "ls = []")
      case True
      with split have "CHR 0x0A \<notin> set content" "content = l" by auto
      with fgets_last_line [of content line] False short Cons.prems(2) that True show ?thesis
        by (auto simp: bootstrap_lines_Nil)
    next
      case False
      with split obtain s' where s': "content = l @ CHR 0x0A # s'" "split_on CHR 0x0A s' = ls" "CHR 0x0A \<notin> set l"
        by auto
      with fgets_full_line [OF s'(3) short Cons.prems(2), of s'] that shorts
        Cons.hyps(1) [OF s'(2) [symmetric]]
      show ?thesis by auto
    qed
    have "bootstrap_lines content line sec config = interpret_lines (l # ls) (cstr sec) config"
      using bootstrap_lines_step [OF line0(1,2,4) Cons.prems(3) rest] classify_line_trim [OF line0(3)]
      by simp
    then show ?thesis by (simp only: Cons.hyps(2))
  qed
qed

lemma bootstrap_lines_inv:
  "config_inv config \<Longrightarrow>
   fst (bootstrap_lines content line sec config) \<in> {MP_LOG_STATUS_OK, MP_LOG_STATUS_CONFIG_ERROR} \<and>
   config_inv (snd (bootstrap_lines content line sec config))"
proof (induction content line sec config rule: bootstrap_lines.induct)
  case (1 content line sec config)
  show ?case
  proof (cases "fgets line MP_LOGGER_BOOTSTRAP_LINE_CAPACITY content")
    case None
    with "1.prems" show ?thesis by (simp add: bootstrap_lines.simps [of content line sec config])
  next
    case (Some lr)
    obtain line0 rest where lr: "lr = (line0, rest)" by (cases lr)
    define line1 where "line1 = mp_logger_copy_trimmed line0 MP_LOGGER_BOOTSTRAP_LINE_CAPACITY (Some line0)"
    note body = bootstrap_lines.simps [of content line sec config, unfolded Some lr option.case prod.case
        Let_def, folded line1_def]
    show ?thesis
    proof (cases "line1 ! 0 = NUL \<or> line1 ! 0 = CHR ''#''")
      case True
      then show ?thesis
        using "1.IH"(1) [OF Some lr [symmetric] line1_def True "1.prems"] by (simp add: body)
    next
      case False
      show ?thesis
      proof (cases "strchr line1 CHR '':''")
        case None
        with "1.prems" False show ?thesis by (simp add: body)
      next
        case (Some i)
        define key where "key = mp_logger_copy_trimmed (zeros 64) 64 (Some (line1[i := NUL]))"
        define val where "val = mp_logger_unquote_scalar
          (mp_logger_copy_trimmed (zeros 256) 256 (Some (drop (i + 1) (line1[i := NUL]))))"
        note IH = "1.IH"(2,3) [OF \<open>fgets line MP_LOGGER_BOOTSTRAP_LINE_CAPACITY content = Some lr\<close> lr [symmetric] line1_def False Some
            refl key_def val_def]
        note body' = body [unfolded Some option.case if_not_P [OF False], folded key_def val_def]
        show ?thesis
          by (cases rule: apply_override_cases [of config "Some sec" key val])
            (use IH "1.prems" in \<open>simp_all add: body'\<close>)
      qed
    qed
  qed
qed

lemma bootstrap_load_keeps:
  "case mp_logger_bootstrap_load read_file path out of (status, r) \<Rightarrow>
     if status = MP_LOG_STATUS_OK then \<exists>c. r = Some c \<and> config_inv c else r = out"
proof (cases "\<exists>p o' content. path = Some p \<and> out = Some o' \<and> mp_logger_has_yaml_extension path \<and>
    read_file (cstr p) = Some content")
  case True
  then obtain p o' content where load: "path = Some p" "out = Some o'" "mp_logger_has_yaml_extension path"
    "read_file (cstr p) = Some content" by blast
  obtain s c where "bootstrap_lines content (zeros 512) (zeros 32) mp_logger_config_init_defaults = (s, c)"
    by (metis surj_pair)
  with load bootstrap_lines_inv [OF config_inv_defaults, of content "zeros 512" "zeros 32"]
  show ?thesis by (simp add: mp_logger_bootstrap_load_def)
next
  case False
  then show ?thesis
    by (auto simp: mp_logger_bootstrap_load_def split: option.splits)
qed

section \<open>Properties\<close>

text \<open>
  C22: whatever the file holds, loading it is all or nothing. On \<open>OK\<close> the caller receives a
  configuration that satisfies the invariant of the struct; on any other status the caller's
  configuration is untouched.
\<close>

theorem bootstrap_load_inv:
  "case mp_logger_bootstrap_load read_file path out of (status, r) \<Rightarrow>
     if status = MP_LOG_STATUS_OK then \<exists>c. r = Some c \<and> config_inv c else r = out"
  by (rule bootstrap_load_keeps)

text \<open>
  C13: loading a file whose lines fit the line buffer is reading it line by line as the
  documented syntax says: blank lines and lines that begin with \<open>#\<close> are skipped, a line
  without a colon is an error, a key without a value opens a section, and a key with a value
  is an override in the open section; the first error ends the load.
\<close>

theorem bootstrap_load_interprets:
  assumes "mp_logger_has_yaml_extension (Some path)" and "read_file (cstr path) = Some content"
    and "list_all (\<lambda>l. length l \<le> 510) (split_on CHR 0x0A content)"
  shows "mp_logger_bootstrap_load read_file (Some path) (Some out) =
    (case interpret_lines (split_on CHR 0x0A content) '''' mp_logger_config_init_defaults of
       (status, config) \<Rightarrow> (status, Some (if status = MP_LOG_STATUS_OK then config else out)))"
  using assms bootstrap_lines_interpret [OF assms(3), of "zeros 512" "zeros 32" mp_logger_config_init_defaults]
  by (simp add: mp_logger_bootstrap_load_def split: prod.split)

definition sample_file :: string where
  "sample_file = ''logger:'' @ CHR 0x0A # ''  field_capacity: 16'' @ CHR 0x0A # []"

theorem bootstrap_load_interprets_witness:
  "mp_logger_bootstrap_load (\<lambda>_. Some sample_file) (Some ''a.yaml'') (Some zeroed_config) =
    (MP_LOG_STATUS_OK, Some (mp_logger_config_init_defaults\<lparr>field_capacity := 16\<rparr>))"
proof -
  have yaml: "mp_logger_has_yaml_extension (Some ''a.yaml'')"
    by (simp add: mp_logger_has_yaml_extension_def strrchr_def cstr_Cons ctype_defs char_code_def)
  have lines: "split_on CHR 0x0A sample_file = [''logger:'', ''  field_capacity: 16'', []]"
    unfolding sample_file_def by (subst split_on_append, simp)+ simp
  have kinds: "classify_line (cstr ''logger:'') = Line_Section ''logger''"
    "classify_line (cstr ''  field_capacity: 16'') = Line_Assign ''field_capacity'' ''16''"
    "classify_line [] = Line_Skip"
    by (simp_all add: classify_line_def cstr_Cons trim_def unquote_def isspace_def char_code_def)
  have over: "mp_logger_config_apply_override (Some mp_logger_config_init_defaults) (Some ''logger'')
      (Some ''field_capacity'') (Some ''16'') =
      (MP_LOG_STATUS_OK, Some (mp_logger_config_init_defaults\<lparr>field_capacity := 16\<rparr>))"
    by (simp add: apply_override_Some Let_def mp_logger_apply_value_def mp_logger_apply_logger_value_def
        strcmp_eq_def cstr_copy_trimmed cstr_unquote_scalar cstr_Cons trim_def unquote_def
        isspace_def char_code_def mp_logger_parse_size_value_def strtoull10_def strlen_def
        isdigit_def decimal_value_def digit_value_def)
  show ?thesis
    using bootstrap_load_interprets [of "''a.yaml''" "\<lambda>_. Some sample_file" sample_file zeroed_config, OF yaml]
    by (simp add: lines kinds over) (simp add: trim_def isspace_def char_code_def over kinds)
qed

text \<open>
  C25: the list of active streams is the comma-separated list it looks like, for every array of
  names. Splitting succeeds exactly when the array has a row for each name and one more if the
  last piece visited is blank: \<open>a,b,c\<close> and \<open>a,b,c,\<close> fit three rows, \<open>a,b,c,,\<close> does not.
  Then the rows hold, in order, the trimmed non-empty pieces; otherwise no name is reported.
\<close>

theorem split_stream_list_names:
  assumes "wf_names m names"
  shows "let list = take (MP_LOGGER_ACTIVE_STREAMS_CAPACITY - 1) (trim (cstr s))
    in \<exists>names' n. mp_logger_split_stream_list (Some s) names m = (rows_needed list \<le> m, names', n) \<and>
      wf_names m names' \<and>
      (if rows_needed list \<le> m then map cstr (take n names') = stream_names list else n = 0)"
proof -
  let ?copy = "mp_logger_copy_trimmed (zeros 128) 128 (Some s)"
  show ?thesis
  proof (cases "cstr s = []")
    case True
    then show ?thesis
      using assms(1) by (simp add: mp_logger_split_stream_list_def)
  next
    case False
    then show ?thesis
      using split_stream_loop_spec [OF assms(1), of 0 ?copy] split_stream_loop_ok [OF assms(1), of 0 ?copy]
      by (auto simp: mp_logger_split_stream_list_def cstr_active_copy Let_def split: prod.splits)
  qed
qed

theorem split_stream_list_names_witness:
  "(\<exists>names' n. mp_logger_split_stream_list (Some ''a, b,c ,'') (replicate 3 (zeros 32)) 3 = (True, names', n) \<and>
     map cstr (take n names') = [''a'', ''b'', ''c'']) \<and>
   (\<exists>names'. mp_logger_split_stream_list (Some ''a, b,c,,'') (replicate 3 (zeros 32)) 3 = (False, names', 0))"
proof -
  have wf: "wf_names 3 (replicate 3 (zeros 32))"
    by (simp add: wf_names_def list_all_iff)
  have lists: "stream_names ''a, b,c ,'' = [''a'', ''b'', ''c'']" "rows_needed ''a, b,c ,'' = 3"
    "rows_needed ''a, b,c,,'' = 4"
    by (simp_all add: rows_needed_def visited_pieces_def stream_names_def token_name_def trim_def
        isspace_def char_code_def)
  have trims: "trim (cstr ''a, b,c ,'') = ''a, b,c ,''" "trim (cstr ''a, b,c,,'') = ''a, b,c,,''"
    by (simp_all add: cstr_Cons trim_def isspace_def char_code_def)
  show ?thesis
    using split_stream_list_names [OF wf, of "''a, b,c ,''"] split_stream_list_names [OF wf, of "''a, b,c,,''"]
    by (auto simp: trims lists)
qed

end
