(* ===== verification/Logger_Numbers.thy ===== *)
theory Logger_Numbers
  imports Logger_Parse
begin

text \<open>
  The number conversions of \<open>snprintf\<close> that the logger uses: \<open>%llu\<close>, \<open>%lld\<close>,
  \<open>%04x\<close>, zero padding and \<open>%.17g\<close>. They are functions of the C library, modelled by
  what the C standard says of them, so that the rendered line is a closed value. A
  \<open>double\<close> is its IEEE 754 bit pattern and is converted exactly.
\<close>

section \<open>Decimal and hexadecimal digits\<close>

definition digit_char :: "nat \<Rightarrow> char" where
  "digit_char d = char_of (48 + d)"

fun show_nat :: "nat \<Rightarrow> string" where
  "show_nat n = (if n < 10 then [digit_char n] else show_nat (n div 10) @ [digit_char (n mod 10)])"

declare show_nat.simps [simp del]

definition show_int :: "int \<Rightarrow> string" where
  "show_int i = (if i < 0 then CHR ''-'' # show_nat (nat (- i)) else show_nat (nat i))"

text \<open>\<open>%llu\<close> and \<open>%lld\<close> of 64-bit values.\<close>

definition show_uint64 :: "uint64_t \<Rightarrow> string" where
  "show_uint64 w = show_nat (unat w)"

definition show_int64 :: "int64_t \<Rightarrow> string" where
  "show_int64 w = show_int (sint w)"

text \<open>Zero padding of a field of \<open>w\<close> characters; a sign comes before the zeros.\<close>

definition pad_zeros :: "nat \<Rightarrow> string \<Rightarrow> string" where
  "pad_zeros w s = replicate (w - length s) CHR ''0'' @ s"

definition show_padded :: "nat \<Rightarrow> int \<Rightarrow> string" where
  "show_padded w i =
     (if i < 0 then CHR ''-'' # pad_zeros (w - 1) (show_nat (nat (- i)))
      else pad_zeros w (show_nat (nat i)))"

definition hex_char :: "nat \<Rightarrow> char" where
  "hex_char d = (if d < 10 then char_of (48 + d) else char_of (87 + d))"

text \<open>\<open>%04x\<close> of an \<open>unsigned char\<close>.\<close>

definition show_hex4 :: "nat \<Rightarrow> string" where
  "show_hex4 n = [CHR ''0'', CHR ''0'', hex_char (n div 16 mod 16), hex_char (n mod 16)]"

lemma isdigit_digit_char [simp]: "d < 10 \<Longrightarrow> isdigit (digit_char d)"
  by (simp add: digit_char_def isdigit_def)

lemma digit_value_digit_char [simp]: "d < 10 \<Longrightarrow> digit_value (digit_char d) = d"
  by (simp add: digit_char_def digit_value_def)

lemma show_nat_digits: "list_all isdigit (show_nat n)"
proof (induction n rule: show_nat.induct)
  case (1 n)
  then show ?case by (simp add: show_nat.simps [of n])
qed

lemma show_nat_not_Nil [simp]: "show_nat n \<noteq> []"
  by (simp add: show_nat.simps [of n])

lemma decimal_value_show_nat [simp]: "decimal_value (show_nat n) = n"
proof (induction n rule: show_nat.induct)
  case (1 n)
  show ?case
  proof (cases "n < 10")
    case True
    then show ?thesis
      using decimal_value_snoc [of "[]" "digit_char n"] by (simp add: show_nat.simps [of n])
  next
    case False
    with 1 show ?thesis by (simp add: show_nat.simps [of n])
  qed
qed

lemma show_nat_inject [simp]: "show_nat m = show_nat n \<longleftrightarrow> m = n"
  by (metis decimal_value_show_nat)

lemma show_nat_isdigit: "c \<in> set (show_nat n) \<Longrightarrow> isdigit c"
  using show_nat_digits by (auto simp: list_all_iff)

lemma length_show_nat: "0 < k \<Longrightarrow> n < 10 ^ k \<Longrightarrow> length (show_nat n) \<le> k"
proof (induction k arbitrary: n)
  case 0
  then show ?case by simp
next
  case (Suc k)
  show ?case
  proof (cases "n < 10")
    case True
    then show ?thesis by (simp add: show_nat.simps [of n])
  next
    case False
    with Suc.prems(2) have "0 < k" by (cases k) auto
    moreover have "n div 10 < 10 ^ k"
      using Suc.prems(2) by (simp add: less_mult_imp_div_less mult.commute)
    ultimately have "length (show_nat (n div 10)) \<le> k" by (rule Suc.IH)
    with False show ?thesis by (simp add: show_nat.simps [of n])
  qed
qed

lemma length_show_uint64: "length (show_uint64 w) \<le> 20"
  unfolding show_uint64_def using unat_less_2p64 [of w] by (intro length_show_nat) simp_all

lemma sint64_bounds: "- (2 ^ 63) \<le> sint (w :: int64_t)" "sint (w :: int64_t) < 2 ^ 63"
  using sint_range_size [of w] by (simp_all add: word_size)

lemma length_show_int64: "length (show_int64 w) \<le> 20"
proof -
  have "nat (- sint w) < 10 ^ 19" "nat (sint w) < 10 ^ 19"
    using sint64_bounds [of w] by auto
  then have "length (show_nat (nat (- sint w))) \<le> 19" "length (show_nat (nat (sint w))) \<le> 19"
    by (auto intro: length_show_nat)
  then show ?thesis by (simp add: show_int64_def show_int_def)
qed

text \<open>Printing a size and parsing it again.\<close>

lemma parse_size_show_nat:
  "n < 2 ^ 64 \<Longrightarrow> mp_logger_parse_size_value (show_nat n) = Some (of_nat n)"
  by (simp add: parse_size_digits show_nat_digits)

text \<open>
  The decimal text of a number parses back to it: as a size when it is below
  \<open>2 ^ 64\<close>, as a port when it is below \<open>2 ^ 16\<close>, and otherwise it is rejected.
\<close>

theorem parse_show_roundtrip:
  "mp_logger_parse_size_value (show_nat n) = (if n < 2 ^ 64 then Some (of_nat n) else None) \<and>
   mp_logger_parse_port_value (show_nat n) = (if n < 2 ^ 16 then Some (of_nat n) else None)"
proof -
  have size: "mp_logger_parse_size_value (show_nat n) = (if n < 2 ^ 64 then Some (of_nat n) else None)"
    by (simp add: parse_size_digits show_nat_digits)
  have "65535 < (of_nat n :: size_t) \<longleftrightarrow> 65535 < n" if "n < 2 ^ 64"
    using that by (simp add: word_less_nat_alt unat_of_nat take_bit_nat_eq_self)
  moreover have "ucast (of_nat n :: size_t) = (of_nat n :: uint16_t)" if "n < 2 ^ 64"
    by (rule word_unat_eq_iff [THEN iffD2]) (simp add: unsigned_ucast_eq unat_of_nat take_bit_eq_mod mod_mod_cancel)
  ultimately show ?thesis
    by (auto simp: size mp_logger_parse_port_value_def)
qed

text \<open>
  A minus sign is accepted and wraps: the text of \<open>- m\<close> parses as \<open>2 ^ 64 - m\<close>, so
  \<open>-1\<close> is a capacity of \<open>2 ^ 64 - 1\<close>, and \<open>-(2 ^ 64 - p)\<close> is the port \<open>p\<close>.
\<close>

theorem parse_negative_wraps:
  assumes "0 < m" and "m < 2 ^ 64"
  shows "mp_logger_parse_size_value (CHR ''-'' # show_nat m) = Some (- of_nat m)"
proof -
  let ?s = "CHR ''-'' # show_nat m"
  have ns: "NUL \<notin> set (show_nat m)" by (rule digits_no_NUL [OF show_nat_digits])
  then have c: "cstr ?s = ?s" by (simp add: cstr_id)
  have "\<not> isspace CHR ''-''" by (simp add: isspace_def char_code_def)
  moreover have "takeWhile isdigit (show_nat m) = show_nat m"
    using show_nat_digits [of m] by (simp add: takeWhile_eq_all_conv list_all_iff)
  ultimately have "strtoull10 ?s = (- of_nat m, length ?s, False)"
    using assms(2) by (simp add: strtoull10_def c Let_def del: takeWhile_eq_all_conv)
  then show ?thesis
    by (simp add: mp_logger_parse_size_value_def strlen_def c)
qed

theorem parse_negative_wraps_witness:
  "mp_logger_parse_size_value (CHR ''-'' # show_nat 1) = Some 18446744073709551615"
  using parse_negative_wraps [of 1] by simp

section \<open>Binary64 and \<open>%.17g\<close>\<close>

definition double_exponent :: "64 word \<Rightarrow> nat" where
  "double_exponent w = unat w div 2 ^ 52 mod 2 ^ 11"

definition double_fraction :: "64 word \<Rightarrow> nat" where
  "double_fraction w = unat w mod 2 ^ 52"

definition double_negative :: "64 word \<Rightarrow> bool" where
  "double_negative w \<longleftrightarrow> unat w \<ge> 2 ^ 63"

text \<open>\<open>isfinite\<close>: the exponent field is not all ones.\<close>

definition isfinite :: "64 word \<Rightarrow> bool" where
  "isfinite w \<longleftrightarrow> double_exponent w \<noteq> 2047"

text \<open>The magnitude of a finite value, as a fraction of natural numbers.\<close>

definition double_numerator :: "64 word \<Rightarrow> nat" where
  "double_numerator w =
     (if double_exponent w = 0 then double_fraction w
      else (double_fraction w + 2 ^ 52) * 2 ^ (double_exponent w - 1))"

abbreviation double_denominator :: nat where
  "double_denominator \<equiv> 2 ^ 1074"

text \<open>The least power of ten that lifts a positive fraction below one to one or more.\<close>

function scale_up :: "nat \<Rightarrow> nat \<Rightarrow> nat" where
  "scale_up num den = (if num = 0 \<or> den \<le> num then 0 else Suc (scale_up (10 * num) den))"
  by pat_completeness auto
termination
  by (relation "measure (\<lambda>(num, den). den - num)") auto

declare scale_up.simps [simp del]

text \<open>The exponent of the leading decimal digit of a positive fraction.\<close>

definition decimal_exponent :: "nat \<Rightarrow> nat \<Rightarrow> int" where
  "decimal_exponent num den =
     (if den \<le> num then int (length (show_nat (num div den))) - 1 else - int (scale_up num den))"

definition round_half_even :: "nat \<Rightarrow> nat \<Rightarrow> nat" where
  "round_half_even num den =
     (let q = num div den; r = num mod den in
      if 2 * r < den \<or> (2 * r = den \<and> even q) then q else q + 1)"

text \<open>The 17 significant digits and their exponent, after rounding.\<close>

definition significant17 :: "nat \<Rightarrow> nat \<Rightarrow> nat \<times> int" where
  "significant17 num den =
     (let x = decimal_exponent num den;
          n = (if x \<ge> 16 then round_half_even num (den * 10 ^ nat (x - 16))
               else round_half_even (num * 10 ^ nat (16 - x)) den)
      in if n = 10 ^ 17 then (10 ^ 16, x + 1) else (n, x))"

definition strip_zeros :: "string \<Rightarrow> string" where
  "strip_zeros s = rev (dropWhile (\<lambda>c. c = CHR ''0'') (rev s))"

definition with_point :: "string \<Rightarrow> string \<Rightarrow> string" where
  "with_point ip fp = ip @ (if strip_zeros fp = [] then [] else CHR ''.'' # strip_zeros fp)"

definition show_g17_magnitude :: "nat \<Rightarrow> nat \<Rightarrow> string" where
  "show_g17_magnitude num den =
     (if num = 0 then ''0''
      else case significant17 num den of (n, x) \<Rightarrow>
        let ds = show_nat n in
        if x < -4 \<or> x \<ge> 17
        then with_point (take 1 ds) (drop 1 ds) @ CHR ''e'' # (if x < 0 then CHR ''-'' else CHR ''+'')
               # pad_zeros 2 (show_nat (nat \<bar>x\<bar>))
        else if x \<ge> 0 then with_point (take (nat x + 1) ds) (drop (nat x + 1) ds)
        else with_point ''0'' (replicate (nat (- x) - 1) CHR ''0'' @ ds))"

definition show_g17 :: "64 word \<Rightarrow> string" where
  "show_g17 w =
     (let sign = (if double_negative w then ''-'' else '''') in
      if isfinite w then sign @ show_g17_magnitude (double_numerator w) double_denominator
      else if double_fraction w = 0 then sign @ ''inf''
      else sign @ ''nan'')"

text \<open>The characters of a printed finite number are those of a JSON number.\<close>

definition number_char :: "char \<Rightarrow> bool" where
  "number_char c \<longleftrightarrow> isdigit c \<or> c \<in> {CHR ''-'', CHR ''+'', CHR ''.'', CHR ''e''}"

lemma number_char_digits: "list_all isdigit s \<Longrightarrow> list_all number_char s"
  by (auto simp: list_all_iff number_char_def)

lemma set_strip_zeros: "set (strip_zeros s) \<subseteq> set s"
  by (auto simp: strip_zeros_def dest!: set_dropWhileD)

lemma length_strip_zeros: "length (strip_zeros s) \<le> length s"
  unfolding strip_zeros_def by (metis length_dropWhile_le length_rev)

lemma list_all_strip_zeros: "list_all P s \<Longrightarrow> list_all P (strip_zeros s)"
  using set_strip_zeros by (auto simp: list_all_iff)

lemma list_all_take: "list_all P s \<Longrightarrow> list_all P (take n s)"
  and list_all_drop: "list_all P s \<Longrightarrow> list_all P (drop n s)"
  by (auto simp: list_all_iff dest: in_set_takeD in_set_dropD)

lemma list_all_replicate: "P x \<Longrightarrow> list_all P (replicate n x)"
  by (induction n) auto

lemma number_char_with_point:
  "list_all number_char ip \<Longrightarrow> list_all number_char fp \<Longrightarrow> list_all number_char (with_point ip fp)"
  by (simp add: with_point_def list_all_strip_zeros) (simp add: number_char_def)

lemma isdigit_0 [simp]: "isdigit CHR ''0''"
  by (simp add: isdigit_def char_code_def)

lemma digits_pad_zeros: "list_all isdigit s \<Longrightarrow> list_all isdigit (pad_zeros w s)"
  by (simp add: pad_zeros_def list_all_replicate)

lemma number_chars_magnitude: "list_all number_char (show_g17_magnitude num den)"
proof -
  have ds: "list_all number_char (show_nat n)" for n
    by (intro number_char_digits show_nat_digits)
  have exp: "list_all number_char (pad_zeros w (show_nat n))" for w n
    by (intro number_char_digits digits_pad_zeros show_nat_digits)
  have zero: "number_char CHR ''0''" by (simp add: number_char_def)
  have signs: "number_char CHR ''-''" "number_char CHR ''+''" "number_char CHR ''e''"
    by (simp_all add: number_char_def)
  show ?thesis
    by (auto simp: show_g17_magnitude_def Let_def ds exp zero signs list_all_replicate split: prod.split
        intro!: number_char_with_point list_all_take list_all_drop)
qed

lemma number_chars_g17: "isfinite w \<Longrightarrow> list_all number_char (show_g17 w)"
  by (auto simp: show_g17_def Let_def number_chars_magnitude) (simp add: number_char_def)

text \<open>The length of a printed number, from the range of binary64.\<close>

lemma length_with_point: "length (with_point ip fp) \<le> length ip + length fp + 1"
  using length_strip_zeros [of fp] by (simp add: with_point_def)

lemma scale_up_le: "0 < num \<Longrightarrow> den \<le> num * 10 ^ k \<Longrightarrow> scale_up num den \<le> k"
proof (induction k arbitrary: num)
  case 0
  then show ?case by (simp add: scale_up.simps [of num])
next
  case (Suc k)
  then have "scale_up (10 * num) den \<le> k" by (simp add: mult.assoc mult.left_commute)
  then show ?case by (simp add: scale_up.simps [of num])
qed

lemma scale_up_upper: "0 < num \<Longrightarrow> num < den \<Longrightarrow> num * 10 ^ scale_up num den < 10 * den"
proof (induction num den rule: scale_up.induct)
  case (1 num den)
  then show ?case
    by (cases "10 * num < den") (simp_all add: scale_up.simps [of num den] scale_up.simps [of "10 * num" den] mult.assoc mult.left_commute)
qed

lemma show_nat_upper: "n < 10 ^ length (show_nat n)"
proof (induction n rule: show_nat.induct)
  case (1 n)
  then show ?case by (cases "n < 10") (auto simp: show_nat.simps [of n])
qed

text \<open>The exponent is that of the leading digit: the fraction is below the next power of ten.\<close>

lemma decimal_exponent_upper:
  assumes "0 < num" and "0 < den"
  shows "if decimal_exponent num den \<ge> 16 then num < den * 10 ^ nat (decimal_exponent num den - 16) * 10 ^ 17
    else num * 10 ^ nat (16 - decimal_exponent num den) < den * 10 ^ 17"
proof (cases "den \<le> num")
  case True
  define k where "k = length (show_nat (num div den))"
  have x: "decimal_exponent num den = int k - 1" using True by (simp add: decimal_exponent_def k_def)
  have k: "0 < k" by (simp add: k_def)
  have "num div den < 10 ^ k" unfolding k_def by (rule show_nat_upper)
  then have up: "num < den * 10 ^ k"
    using assms(2) by (metis div_less_iff_less_mult mult.commute)
  show ?thesis
  proof (cases "17 \<le> k")
    case True
    then have "nat (decimal_exponent num den - 16) + 17 = k" by (simp add: x)
    then have "(10 :: nat) ^ nat (decimal_exponent num den - 16) * 10 ^ 17 = 10 ^ k"
      by (metis power_add)
    with up True x show ?thesis by (simp only: mult.assoc) simp
  next
    case False
    then have "k + nat (16 - decimal_exponent num den) = 17" using k by (simp add: x)
    then have e: "(10 :: nat) ^ k * 10 ^ nat (16 - decimal_exponent num den) = 10 ^ 17"
      by (metis power_add)
    have "num * 10 ^ nat (16 - decimal_exponent num den) < den * 10 ^ k * 10 ^ nat (16 - decimal_exponent num den)"
      using up by simp
    then have "num * 10 ^ nat (16 - decimal_exponent num den) < den * 10 ^ 17"
      by (simp only: mult.assoc e)
    with False x show ?thesis by simp
  qed
next
  case False
  define s where "s = scale_up num den"
  have x: "decimal_exponent num den = - int s" using False by (simp add: decimal_exponent_def s_def)
  have "num * 10 ^ s < 10 * den"
    unfolding s_def using False assms(1) by (intro scale_up_upper) simp_all
  then have "num * 10 ^ s * 10 ^ 16 < den * 10 ^ 17" by simp
  moreover have "nat (16 - decimal_exponent num den) = s + 16" by (simp add: x)
  ultimately show ?thesis using x by (simp add: power_add mult.assoc)
qed

lemma round_half_even_le: "num < den * m \<Longrightarrow> round_half_even num den \<le> m"
proof -
  assume "num < den * m"
  then have "num div den < m" by (simp add: less_mult_imp_div_less mult.commute)
  then show ?thesis by (simp add: round_half_even_def Let_def)
qed

lemma significant17_less:
  assumes "0 < num" and "0 < den"
  shows "fst (significant17 num den) < 10 ^ 17"
proof -
  define x where "x = decimal_exponent num den"
  define n where "n = (if x \<ge> 16 then round_half_even num (den * 10 ^ nat (x - 16))
    else round_half_even (num * 10 ^ nat (16 - x)) den)"
  have "n \<le> 10 ^ 17"
    using decimal_exponent_upper [OF assms] unfolding n_def x_def
    by (auto intro!: round_half_even_le split: if_splits)
  then show ?thesis
    by (simp add: significant17_def Let_def flip: x_def n_def)
qed

lemma significant17_exponent:
  "\<bar>snd (significant17 num den)\<bar> \<le> \<bar>decimal_exponent num den\<bar> + 1"
  by (auto simp: significant17_def Let_def abs_if)

lemma length_pad_zeros: "length (pad_zeros w s) = max w (length s)"
  by (simp add: pad_zeros_def)

lemma length_magnitude:
  assumes "0 < num" and "0 < den" and "\<bar>decimal_exponent num den\<bar> < 900"
  shows "length (show_g17_magnitude num den) \<le> 23"
proof -
  obtain n x where nx: "significant17 num den = (n, x)" by (cases "significant17 num den")
  have "n < 10 ^ 17" using significant17_less [OF assms(1,2)] by (simp add: nx)
  then have ds: "length (show_nat n) \<le> 17" by (intro length_show_nat) simp_all
  have "nat \<bar>x\<bar> < 10 ^ 3" using significant17_exponent [of num den] assms(3) by (simp add: nx)
  then have ex: "length (show_nat (nat \<bar>x\<bar>)) \<le> 3" by (intro length_show_nat) simp_all
  have ne: "0 < length (show_nat n)" by simp
  consider "x < -4 \<or> x \<ge> 17" | "0 \<le> x" "x < 17" | "x < 0" "-4 \<le> x" by linarith
  then show ?thesis
  proof cases
    case 1
    have "length (with_point (take 1 (show_nat n)) (drop 1 (show_nat n))) \<le> length (show_nat n) + 1"
      using length_with_point [of "take 1 (show_nat n)" "drop 1 (show_nat n)"] ne by simp
    with 1 ds ex assms(1) show ?thesis
      by (simp add: show_g17_magnitude_def nx Let_def length_pad_zeros)
  next
    case 2
    have "length (with_point (take (nat x + 1) (show_nat n)) (drop (nat x + 1) (show_nat n)))
        \<le> length (show_nat n) + 1"
      using length_with_point [of "take (nat x + 1) (show_nat n)" "drop (nat x + 1) (show_nat n)"] by simp
    with 2 ds assms(1) show ?thesis
      by (simp add: show_g17_magnitude_def nx Let_def)
  next
    case 3
    have "length (with_point ''0'' (replicate (nat (- x) - 1) CHR ''0'' @ show_nat n))
        \<le> (nat (- x) - 1) + length (show_nat n) + 2"
      using length_with_point [of "''0''" "replicate (nat (- x) - 1) CHR ''0'' @ show_nat n"] by simp
    with 3 ds assms(1) show ?thesis
      by (simp add: show_g17_magnitude_def nx Let_def)
  qed
qed

text \<open>The range of binary64.\<close>

lemma double_numerator_less: "double_numerator w < 2 ^ 2100"
proof -
  have f: "double_fraction w < 2 ^ 52" and e: "double_exponent w < 2 ^ 11"
    by (simp_all add: double_fraction_def double_exponent_def)
  have "(double_fraction w + 2 ^ 52) * 2 ^ (double_exponent w - 1) \<le> 2 ^ 53 * 2 ^ 2046"
    using f e by (intro mult_le_mono power_increasing) simp_all
  also have "\<dots> = (2 :: nat) ^ 2099" by (simp only: power_add [symmetric]) simp
  also have "\<dots> < 2 ^ 2100" by (rule power_strict_increasing) simp_all
  finally have "(double_fraction w + 2 ^ 52) * 2 ^ (double_exponent w - 1) < 2 ^ 2100" .
  moreover have "double_fraction w < 2 ^ 2100"
    using f by (rule order_less_le_trans) (rule power_increasing, simp_all)
  ultimately show ?thesis
    unfolding double_numerator_def by (rule_tac if_split [THEN iffD2]) blast
qed

lemma two_power_le_ten_power: "n = 3 * k \<Longrightarrow> (2 :: nat) ^ n \<le> 10 ^ k"
proof -
  assume "n = 3 * k"
  then have "(2 :: nat) ^ n = 8 ^ k" by (simp add: power_mult)
  also have "\<dots> \<le> 10 ^ k" by (rule power_mono) simp_all
  finally show ?thesis .
qed

lemma decimal_exponent_bound:
  assumes "0 < num" and "num < 10 ^ k" and "0 < k" and "den \<le> 10 ^ k"
  shows "\<bar>decimal_exponent num den\<bar> \<le> int k"
proof -
  have "num div den < 10 ^ k"
    using assms(2) div_le_dividend order_le_less_trans by blast
  then have "length (show_nat (num div den)) \<le> k"
    by (rule length_show_nat [OF assms(3)])
  moreover have "10 ^ k \<le> num * 10 ^ k" using assms(1) by (cases num) simp_all
  then have "scale_up num den \<le> k"
    using scale_up_le [OF assms(1) order_trans [OF assms(4)]] by blast
  ultimately show ?thesis by (simp add: decimal_exponent_def)
qed

lemma decimal_exponent_double:
  assumes "0 < double_numerator w"
  shows "\<bar>decimal_exponent (double_numerator w) double_denominator\<bar> < 900"
proof -
  have "(2 :: nat) ^ 2100 \<le> 10 ^ 700" by (rule two_power_le_ten_power) simp
  then have num: "double_numerator w < 10 ^ 700"
    by (rule order_less_le_trans [OF double_numerator_less])
  have "(2 :: nat) ^ 1074 \<le> 2 ^ 2100" by (rule power_increasing) simp_all
  then have den: "double_denominator \<le> 10 ^ 700"
    by (rule order_trans) (rule two_power_le_ten_power, simp)
  show ?thesis
    by (rule order_le_less_trans [OF decimal_exponent_bound [OF assms num _ den]]) simp_all
qed

lemma length_show_g17: "length (show_g17 w) \<le> 24"
proof (cases "double_numerator w = 0")
  case True
  then show ?thesis by (simp add: show_g17_def Let_def show_g17_magnitude_def)
next
  case False
  then have "length (show_g17_magnitude (double_numerator w) double_denominator) \<le> 23"
    using decimal_exponent_double [of w] by (intro length_magnitude) simp_all
  then show ?thesis by (simp add: show_g17_def Let_def)
qed

end
