(* ===== verification/Logger_Yaml.thy ===== *)
theory Logger_Yaml
  imports Logger_Bootstrap Logger_Numbers
begin

text \<open>
  The bootstrap file of a config, laid out like \<open>configs/logger.bootstrap.yaml\<close>, and its way back
  through the loader of \<open>src/mp_logger_bootstrap.c\<close>.
\<close>

section \<open>Writing a config\<close>

definition level_text :: "mp_log_level_t \<Rightarrow> string" where
  "level_text l = mp_log_level_name l"

definition format_text :: "mp_log_format_t \<Rightarrow> string" where
  "format_text f = (if f = MP_LOG_FORMAT_JSON then ''json'' else ''text'')"

definition bool_text :: "bool \<Rightarrow> string" where
  "bool_text b = (if b then ''true'' else ''false'')"

definition size_text :: "size_t \<Rightarrow> string" where
  "size_text n = show_nat (unat n)"

definition port_text :: "uint16_t \<Rightarrow> string" where
  "port_text n = show_nat (unat n)"

type_synonym setting = "string \<times> string"

definition root_settings :: "mp_logger_config \<Rightarrow> setting list" where
  "root_settings c = [(''service_name'', cstr (service_name c)), (''environment_name'', cstr (environment_name c)),
     (''build_version'', cstr (build_version c))]"

definition logger_settings :: "mp_logger_config \<Rightarrow> setting list" where
  "logger_settings c = [(''buffer_capacity'', size_text (buffer_capacity c)), (''message_capacity'', size_text (message_capacity c)),
     (''context_capacity'', size_text (context_capacity c)), (''field_capacity'', size_text (field_capacity c)),
     (''field_key_capacity'', size_text (field_key_capacity c)), (''field_value_capacity'', size_text (field_value_capacity c)),
     (''format'', format_text (format c)), (''pretty_output'', bool_text (pretty_output c)),
     (''log_directory'', cstr (log_directory c)), (''file_name_prefix'', cstr (file_name_prefix c)),
     (''backup_file_name_prefix'', cstr (backup_file_name_prefix c)), (''active_streams'', cstr (active_streams c))]"

definition level_settings :: "mp_log_level_t \<Rightarrow> mp_log_level_t \<Rightarrow> setting list" where
  "level_settings lo hi = [(''minimum_level'', level_text lo), (''maximum_level'', level_text hi)]"

definition udp_settings :: "mp_logger_config \<Rightarrow> setting list" where
  "udp_settings c = level_settings (udp_min_level c) (udp_max_level c) @
     [(''host'', cstr (udp_host c)), (''port'', port_text (udp_port c))]"

text \<open>A line with a value and its two blanks of indentation, and the header of a section.\<close>

definition setting_line :: "setting \<Rightarrow> string" where
  "setting_line s = (case s of (k, v) \<Rightarrow> ''  '' @ k @ '': '' @ v)"

definition section_lines :: "string \<Rightarrow> setting list \<Rightarrow> string list" where
  "section_lines sec ss = (sec @ '':'') # map setting_line ss"

definition config_lines :: "mp_logger_config \<Rightarrow> string list" where
  "config_lines c =
     map setting_line (root_settings c) @ section_lines ''logger'' (logger_settings c) @
     section_lines ''stdout'' (level_settings (stdout_min_level c) (stdout_max_level c)) @
     section_lines ''stderr'' (level_settings (stderr_min_level c) (stderr_max_level c)) @
     section_lines ''file'' (level_settings (file_min_level c) (file_max_level c)) @
     section_lines ''udp'' (udp_settings c)"

fun unlines :: "string list \<Rightarrow> string" where
  "unlines [] = []"
| "unlines (l # ls) = l @ CHR 0x0A # unlines ls"

lemma split_unlines: "list_all (\<lambda>l. CHR 0x0A \<notin> set l) ls \<Longrightarrow> split_on CHR 0x0A (unlines ls) = ls @ [[]]"
  by (induction ls) (simp_all add: split_on_append)

section \<open>Lines that are read back\<close>

text \<open>
  A value that the loader takes as it stands: not empty, no white space at its ends, no pair of
  quotes around it, and no line break or \<open>NUL\<close> inside.
\<close>

definition plain_value :: "nat \<Rightarrow> string \<Rightarrow> bool" where
  "plain_value n v \<longleftrightarrow> v \<noteq> [] \<and> length v < n \<and> trim v = v \<and> unquote v = v \<and> CHR 0x0A \<notin> set v \<and> NUL \<notin> set v"

definition plain_key :: "string \<Rightarrow> bool" where
  "plain_key k \<longleftrightarrow> k \<noteq> [] \<and> length k < 32 \<and> list_all (\<lambda>c. islower c \<or> c = CHR ''_'') k"

lemma trim_id: "s \<noteq> [] \<Longrightarrow> \<not> isspace (hd s) \<Longrightarrow> \<not> isspace (last s) \<Longrightarrow> trim s = s"
proof -
  assume s: "s \<noteq> []" "\<not> isspace (hd s)" "\<not> isspace (last s)"
  then have "dropWhile isspace s = s" by (cases s) simp_all
  moreover have "dropWhile isspace (rev s) = rev s" using s(1,3) by (cases s rule: rev_cases) simp_all
  ultimately show ?thesis by (simp add: trim_def)
qed

lemma trim_ends: "trim s = s \<Longrightarrow> s \<noteq> [] \<Longrightarrow> \<not> isspace (hd s) \<and> \<not> isspace (last s)"
proof -
  assume t: "trim s = s" and s: "s \<noteq> []"
  have r: "rev s = dropWhile isspace (rev (dropWhile isspace s))" using arg_cong [OF t, of rev] by (simp add: trim_def)
  then have e: "\<not> isspace (hd (rev s))" using s by (metis hd_dropWhile rev_is_Nil_conv)
  have "length s \<le> length (dropWhile isspace s)"
    using arg_cong [OF r, of length] length_dropWhile_le [of isspace "rev (dropWhile isspace s)"] by simp
  moreover have "length (dropWhile isspace (tl s)) \<le> length (tl s)" by (rule length_dropWhile_le)
  ultimately have "\<not> isspace (hd s)" using s by (cases s) (simp_all split: if_splits)
  then show ?thesis using s e by (simp add: hd_rev)
qed

lemma trim_blank: "isspace c \<Longrightarrow> trim (c # s) = trim s"
  by (simp add: trim_def)

lemma plain_keyD:
  assumes "plain_key k"
  shows "k \<noteq> []" "trim k = k" "CHR '':'' \<notin> set k" "hd k \<noteq> CHR ''#''" "NUL \<notin> set k" "CHR 0x0A \<notin> set k"
    "take 63 k = k" "take 31 k = k"
proof -
  have c: "islower c \<or> c = CHR ''_''" if "c \<in> set k" for c using assms that by (auto simp: plain_key_def list_all_iff)
  have ns: "\<not> isspace c" if "c \<in> set k" for c using c [OF that] by (auto simp: ctype_defs char_code_def)
  show k: "k \<noteq> []" "take 63 k = k" "take 31 k = k" using assms by (simp_all add: plain_key_def)
  then show "trim k = k" using ns by (intro trim_id) auto
  show "CHR '':'' \<notin> set k" "NUL \<notin> set k" "CHR 0x0A \<notin> set k" "hd k \<noteq> CHR ''#''"
    using c [of "CHR '':''"] c [of NUL] c [of "CHR 0x0A"] c [of "hd k"] k(1) by (auto simp: ctype_defs char_code_def)
qed

lemma blank_colon [simp]: "isspace CHR '' ''" "\<not> isspace CHR '':''"
  by (simp_all add: ctype_defs char_code_def)

lemma classify_setting:
  assumes k: "plain_key k" and v: "plain_value 256 v"
  shows "classify_line (cstr (setting_line (k, v))) = Line_Assign k v"
proof -
  note k = plain_keyD [OF k]
  have v: "v \<noteq> []" "length v < 256" "trim v = v" "unquote v = v" "NUL \<notin> set v" using v by (simp_all add: plain_value_def)
  have "trim (setting_line (k, v)) = trim (k @ '': '' @ v)" by (simp add: setting_line_def trim_blank)
  also have "\<dots> = k @ '': '' @ v"
    using k(1) v(1) trim_ends [OF k(2)] trim_ends [OF v(3)] by (intro trim_id) simp_all
  finally have t: "trim (setting_line (k, v)) = k @ '': '' @ v" .
  have "cstr (setting_line (k, v)) = setting_line (k, v)"
    using k v by (intro cstr_id) (simp add: setting_line_def)
  moreover have "takeWhile (\<lambda>c. c \<noteq> CHR '':'') (k @ '': '' @ v) = k" "dropWhile (\<lambda>c. c \<noteq> CHR '':'') (k @ '': '' @ v) = '': '' @ v"
    using k(3) by (auto simp: takeWhile_append dropWhile_append)
  ultimately show ?thesis
    using k v by (simp add: classify_line_def t Let_def trim_blank)
qed

lemma classify_section:
  assumes "plain_key k"
  shows "classify_line (cstr (k @ '':'')) = Line_Section k"
proof -
  note k = plain_keyD [OF assms]
  have t: "trim (k @ '':'') = k @ '':''" using k(1) trim_ends [OF k(2)] by (intro trim_id) simp_all
  have "cstr (k @ '':'') = k @ '':''" using k by (intro cstr_id) simp
  moreover have "takeWhile (\<lambda>c. c \<noteq> CHR '':'') (k @ '':'') = k" "dropWhile (\<lambda>c. c \<noteq> CHR '':'') (k @ '':'') = '':''"
    using k(3) by (auto simp: takeWhile_append dropWhile_append)
  ultimately show ?thesis using k by (simp add: classify_line_def t Let_def unquote_def)
qed

text \<open>
  A key whose value is empty once trimmed and unquoted, with any blanks behind it, is the header
  of a section too.
\<close>

definition empty_value :: "string \<Rightarrow> bool" where
  "empty_value v \<longleftrightarrow> unquote (take 255 (trim v)) = []"

lemma classify_empty_value:
  assumes "plain_key k" and "empty_value v" and "NUL \<notin> set v"
  shows "classify_line (cstr (k @ CHR '':'' # v)) = Line_Section k"
proof -
  note k = plain_keyD [OF assms(1)]
  define r where "r = rev (dropWhile isspace (rev v))"
  define b where "b = rev (takeWhile isspace (rev v))"
  have v: "v = r @ b" by (simp add: r_def b_def flip: rev_append)
  have b: "list_all isspace b" by (auto simp: b_def list_all_iff dest: set_takeWhileD)
  have last: "\<not> isspace (last (CHR '':'' # r))"
    using hd_dropWhile [of isspace "rev v"] by (simp add: r_def last_rev)
  have "trim (k @ CHR '':'' # v) = trim ((k @ CHR '':'' # r) @ b)" by (simp add: v)
  also have "\<dots> = k @ CHR '':'' # r"
    using k(1) trim_ends [OF k(2)] last by (subst trim_append_blanks [OF b], intro trim_id) simp_all
  finally have t: "trim (k @ CHR '':'' # v) = k @ CHR '':'' # r" .
  have empty: "unquote (take 255 (trim r)) = []"
    using assms(2) by (simp add: empty_value_def v trim_append_blanks [OF b])
  have "cstr (k @ CHR '':'' # v) = k @ CHR '':'' # v" using k assms(3) by (intro cstr_id) simp
  moreover have "takeWhile (\<lambda>c. c \<noteq> CHR '':'') (k @ CHR '':'' # r) = k"
      "dropWhile (\<lambda>c. c \<noteq> CHR '':'') (k @ CHR '':'' # r) = CHR '':'' # r"
    using k(3) by (auto simp: takeWhile_append dropWhile_append)
  ultimately show ?thesis using k empty by (simp add: classify_line_def t Let_def)
qed

section \<open>Overrides by text\<close>

text \<open>The normalized value that an override hands to its section.\<close>

definition scalar :: "string \<Rightarrow> cbuf" where
  "scalar v = mp_logger_unquote_scalar (mp_logger_copy_trimmed (zeros 256) 256 (Some v))"

lemma cstr_scalar: "plain_value 256 v \<Longrightarrow> cstr (scalar v) = v"
  by (simp add: scalar_def plain_value_def cstr_unquote_scalar cstr_copy_trimmed cstr_id)

lemma override_text:
  assumes k: "plain_key k" and sec: "sec = [] \<or> plain_key sec"
  shows "mp_logger_config_apply_override (Some c) (Some sec) (Some k) (Some v) = map_prod id Some (mp_logger_apply_value sec k (scalar v) c)"
proof -
  note k = plain_keyD [OF k]
  have c: "cstr (mp_logger_copy_trimmed (zeros 64) 64 (Some k)) = k" using k by (simp add: cstr_copy_trimmed cstr_id)
  have s: "cstr (mp_logger_copy_trimmed (zeros 32) 32 (Some sec)) = sec"
    using sec plain_keyD [of sec] by (auto simp: cstr_copy_trimmed cstr_id)
  have "strcmp_eq (mp_logger_copy_trimmed (zeros 64) 64 (Some k)) x = strcmp_eq k x"
      "strcmp_eq (mp_logger_copy_trimmed (zeros 32) 32 (Some sec)) x = strcmp_eq sec x" for x
    using c s k(5) sec plain_keyD(5) [of sec] by (auto simp: strcmp_eq_def cstr_id)
  then show ?thesis
    using k(1) by (simp add: apply_override_Some Let_def c scalar_def mp_logger_apply_value_def mp_logger_apply_root_value_def
        mp_logger_apply_logger_value_def mp_logger_apply_stdout_value_def mp_logger_apply_stderr_value_def
        mp_logger_apply_file_value_def mp_logger_apply_udp_value_def)
qed

text \<open>A section of settings, applied one after the other.\<close>

fun apply_settings :: "string \<Rightarrow> setting list \<Rightarrow> mp_logger_config \<Rightarrow> mp_log_status_t \<times> mp_logger_config" where
  "apply_settings sec [] c = (MP_LOG_STATUS_OK, c)"
| "apply_settings sec ((k, v) # ss) c =
     (case mp_logger_apply_value sec k (scalar v) c of
        (status, c') \<Rightarrow> if status = MP_LOG_STATUS_OK then apply_settings sec ss c' else (MP_LOG_STATUS_CONFIG_ERROR, c))"

definition plain_setting :: "setting \<Rightarrow> bool" where
  "plain_setting s \<longleftrightarrow> plain_key (fst s) \<and> plain_value 256 (snd s)"

lemma interpret_settings:
  assumes "list_all plain_setting ss" and "sec = [] \<or> plain_key sec" and "apply_settings sec ss c = (MP_LOG_STATUS_OK, c')"
  shows "interpret_lines (map setting_line ss @ ls) sec c = interpret_lines ls sec c'"
  using assms
proof (induction ss arbitrary: c)
  case (Cons s ss)
  obtain k v where s: "s = (k, v)" by (cases s)
  have p: "plain_key k" "plain_value 256 v" using Cons.prems(1) by (simp_all add: s plain_setting_def)
  obtain c1 where c1: "mp_logger_apply_value sec k (scalar v) c = (MP_LOG_STATUS_OK, c1)" "apply_settings sec ss c1 = (MP_LOG_STATUS_OK, c')"
    using Cons.prems(3) by (auto simp: s split: prod.splits if_splits)
  show ?case
    using Cons.IH [OF _ Cons.prems(2) c1(2)] Cons.prems(1)
    by (simp add: s classify_setting [OF p] override_text [OF p(1) Cons.prems(2)] c1(1))
qed simp

lemma interpret_section:
  assumes "list_all plain_setting ss" and "plain_key sec" and "apply_settings sec ss c = (MP_LOG_STATUS_OK, c')"
  shows "interpret_lines (section_lines sec ss @ ls) sec' c = interpret_lines ls sec c'"
  using assms plain_keyD [OF assms(2)] by (simp add: section_lines_def classify_section interpret_settings)

section \<open>Values that are read back\<close>

lemma parse_size_cstr: "mp_logger_parse_size_value (cstr v) = mp_logger_parse_size_value v"
  unfolding mp_logger_parse_size_value_def strtoull10_def strlen_def cstr_idem ..

lemma plain_number: "n < 2 ^ 64 \<Longrightarrow> plain_value 256 (show_nat n)"
proof -
  assume n: "n < 2 ^ 64"
  have d: "isdigit c" if "c \<in> set (show_nat n)" for c using that by (rule show_nat_isdigit)
  have ends: "isdigit (hd (show_nat n))" "isdigit (last (show_nat n))" by (simp_all add: d)
  have "length (show_nat n) \<le> 20" using n by (intro length_show_nat) simp_all
  moreover have "trim (show_nat n) = show_nat n" using ends by (intro trim_id) (simp_all add: isdigit_not_isspace)
  moreover have "unquote (show_nat n) = show_nat n" 
  proof -
    have "\<not> isdigit CHR 0x22" "\<not> isdigit CHR 0x27" by (simp_all add: ctype_defs char_code_def)
    then show ?thesis using ends(1) by (auto simp: unquote_def)
  qed
  moreover have "CHR 0x0A \<notin> set (show_nat n)" "NUL \<notin> set (show_nat n)"
    using d [of "CHR 0x0A"] d [of NUL] by (auto simp: ctype_defs char_code_def)
  ultimately show ?thesis by (simp add: plain_value_def)
qed

lemma plain_size [simp]: "plain_value 256 (size_text n)"
  unfolding size_text_def by (rule plain_number) (rule unat_less_2p64)

lemma plain_port [simp]: "plain_value 256 (port_text n)"
  unfolding port_text_def by (rule plain_number, rule order_less_le_trans [OF unsigned_less]) simp

lemma parse_size_text [simp]: "mp_logger_parse_size_value (scalar (size_text n)) = Some n"
proof -
  have "mp_logger_parse_size_value (scalar (size_text n)) = mp_logger_parse_size_value (size_text n)"
    using parse_size_cstr [of "scalar (size_text n)"] by (simp add: cstr_scalar)
  then show ?thesis using parse_size_show_nat [of "unat n"] unat_less_2p64 [of n] by (simp add: size_text_def)
qed

lemma parse_port_text [simp]: "mp_logger_parse_port_value (scalar (port_text n)) = Some n"
proof -
  have n: "unat n < 2 ^ 16" by (rule order_less_le_trans [OF unsigned_less]) simp
  have "mp_logger_parse_size_value (scalar (port_text n)) = mp_logger_parse_size_value (port_text n)"
    using parse_size_cstr [of "scalar (port_text n)"] by (simp add: cstr_scalar)
  then have "mp_logger_parse_port_value (scalar (port_text n)) = mp_logger_parse_port_value (port_text n)"
    by (simp only: mp_logger_parse_port_value_def)
  then show ?thesis using parse_show_roundtrip [of "unat n"] n by (simp add: port_text_def)
qed

lemma plain_words [simp]:
  "valid_level l \<Longrightarrow> plain_value 256 (level_text l)" "plain_value 256 (format_text f)" "plain_value 256 (bool_text b)"
  by (elim valid_level_cases)
    (simp_all add: plain_value_def level_text_def mp_log_level_name_def format_text_def bool_text_def trim_def unquote_def
      isspace_def char_code_def)

lemma parse_level_text [simp]:
  "valid_level l \<Longrightarrow> mp_logger_parse_level_name (Some (scalar (level_text l))) old = (MP_LOG_STATUS_OK, l)"
proof -
  assume l: "valid_level l"
  then have c: "cstr (scalar (level_text l)) = level_text l" by (simp add: cstr_scalar)
  from l show ?thesis
    by (rule valid_level_cases)
      (use c in \<open>simp_all add: mp_logger_parse_level_name_def equal_ignore_case_iff level_text_def mp_log_level_name_def
        cstr_Cons tolower_def isupper_def char_code_def char_of_def bit_0\<close>)
qed

lemma parse_format_text [simp]:
  "f \<in> {MP_LOG_FORMAT_TEXT, MP_LOG_FORMAT_JSON} \<Longrightarrow>
   mp_logger_parse_format_name (Some (scalar (format_text f))) old = (MP_LOG_STATUS_OK, f)"
  using cstr_scalar [OF plain_words(2) [of f]]
  by (auto simp: mp_logger_parse_format_name_def equal_ignore_case_iff format_text_def
        cstr_Cons tolower_def isupper_def char_code_def)

lemma parse_bool_text [simp]: "mp_logger_parse_bool (scalar (bool_text b)) = Some b"
  using cstr_scalar [OF plain_words(3) [of b]]
  by (auto simp: mp_logger_parse_bool_def equal_ignore_case_iff strcmp_eq_def bool_text_def
        cstr_Cons tolower_def isupper_def char_code_def)

text \<open>The array of a string setting.\<close>

definition stored :: "nat \<Rightarrow> cbuf \<Rightarrow> string \<Rightarrow> cbuf" where
  "stored n old v = mp_logger_copy_trimmed old n (Some (scalar v))"

lemma cstr_stored: "plain_value 256 v \<Longrightarrow> length v < n \<Longrightarrow> length old = n \<Longrightarrow> cstr (stored n old v) = v"
  by (simp add: stored_def cstr_copy_trimmed cstr_scalar) (simp add: plain_value_def)

section \<open>The sections\<close>

text \<open>
  A config that can be written as a file: well formed, a format that has a name, a build version
  the loader takes, and strings that are read back as they stand.
\<close>

definition savable :: "mp_logger_config \<Rightarrow> bool" where
  "savable c \<longleftrightarrow>
     config_inv c \<and> format c \<in> {MP_LOG_FORMAT_TEXT, MP_LOG_FORMAT_JSON} \<and> mp_logger_is_build_version_valid (build_version c) \<and>
     list_all (\<lambda>b. plain_value 256 (cstr b)) [service_name c, environment_name c, build_version c, log_directory c,
       file_name_prefix c, backup_file_name_prefix c, active_streams c, udp_host c]"

lemma savableD:
  assumes "savable c"
  shows "plain_value 256 (cstr (service_name c))" "plain_value 256 (cstr (environment_name c))"
    "plain_value 256 (cstr (build_version c))" "plain_value 256 (cstr (log_directory c))"
    "plain_value 256 (cstr (file_name_prefix c))" "plain_value 256 (cstr (backup_file_name_prefix c))"
    "plain_value 256 (cstr (active_streams c))" "plain_value 256 (cstr (udp_host c))"
    "format c \<in> {MP_LOG_FORMAT_TEXT, MP_LOG_FORMAT_JSON}" "mp_logger_is_build_version_valid (build_version c)"
    "levels_ok c" "wf_config c"
  using assms by (simp_all add: savable_def config_inv_def)

lemma plain_keys [simp]:
  "plain_key ''logger''" "plain_key ''stdout''" "plain_key ''stderr''" "plain_key ''file''" "plain_key ''udp''"
  "plain_key ''service_name''" "plain_key ''environment_name''" "plain_key ''build_version''" "plain_key ''buffer_capacity''"
  "plain_key ''message_capacity''" "plain_key ''context_capacity''" "plain_key ''field_capacity''"
  "plain_key ''field_key_capacity''" "plain_key ''field_value_capacity''" "plain_key ''format''" "plain_key ''pretty_output''"
  "plain_key ''log_directory''" "plain_key ''file_name_prefix''" "plain_key ''backup_file_name_prefix''"
  "plain_key ''active_streams''" "plain_key ''minimum_level''" "plain_key ''maximum_level''" "plain_key ''host''"
  "plain_key ''port''"
  by (simp_all add: plain_key_def islower_def char_code_def)

lemma plain_settings:
  assumes "savable c"
  shows "list_all plain_setting (root_settings c)" "list_all plain_setting (logger_settings c)"
    "list_all plain_setting (udp_settings c)"
    "list_all plain_setting (level_settings (stdout_min_level c) (stdout_max_level c))"
    "list_all plain_setting (level_settings (stderr_min_level c) (stderr_max_level c))"
    "list_all plain_setting (level_settings (file_min_level c) (file_max_level c))"
  using savableD [OF assms]
  by (simp_all add: plain_setting_def root_settings_def logger_settings_def udp_settings_def level_settings_def levels_ok_def)

lemma apply_root:
  assumes "savable c0"
  shows "apply_settings [] (root_settings c0) c = (MP_LOG_STATUS_OK,
    c\<lparr>service_name := stored 64 (service_name c) (cstr (service_name c0)),
      environment_name := stored 64 (environment_name c) (cstr (environment_name c0)),
      build_version := stored 64 (build_version c) (cstr (build_version c0))\<rparr>)"
proof -
  have "mp_logger_is_build_version_valid (scalar (cstr (build_version c0)))"
    using savableD(3,10) [OF assms] by (simp add: is_build_version_valid_iff cstr_scalar)
  then show ?thesis
    by (simp add: root_settings_def mp_logger_apply_value_def mp_logger_apply_root_value_def strcmp_eq_def cstr_Cons stored_def)
qed

lemma apply_logger:
  assumes "savable c0"
  shows "apply_settings ''logger'' (logger_settings c0) c = (MP_LOG_STATUS_OK,
    c\<lparr>buffer_capacity := buffer_capacity c0, message_capacity := message_capacity c0,
      context_capacity := context_capacity c0, field_capacity := field_capacity c0,
      field_key_capacity := field_key_capacity c0, field_value_capacity := field_value_capacity c0,
      format := format c0, pretty_output := pretty_output c0,
      log_directory := stored 256 (log_directory c) (cstr (log_directory c0)),
      file_name_prefix := stored 64 (file_name_prefix c) (cstr (file_name_prefix c0)),
      backup_file_name_prefix := stored 64 (backup_file_name_prefix c) (cstr (backup_file_name_prefix c0)),
      active_streams := stored 128 (active_streams c) (cstr (active_streams c0))\<rparr>)"
  using savableD(9) [OF assms]
  by (simp add: logger_settings_def mp_logger_apply_value_def mp_logger_apply_logger_value_def strcmp_eq_def cstr_Cons stored_def)

lemma apply_levels:
  assumes "valid_level lo" and "valid_level hi"
  shows "apply_settings ''stdout'' (level_settings lo hi) c = (MP_LOG_STATUS_OK, c\<lparr>stdout_min_level := lo, stdout_max_level := hi\<rparr>)"
    "apply_settings ''stderr'' (level_settings lo hi) c = (MP_LOG_STATUS_OK, c\<lparr>stderr_min_level := lo, stderr_max_level := hi\<rparr>)"
    "apply_settings ''file'' (level_settings lo hi) c = (MP_LOG_STATUS_OK, c\<lparr>file_min_level := lo, file_max_level := hi\<rparr>)"
  using assms
  by (simp_all add: level_settings_def mp_logger_apply_value_def mp_logger_apply_stdout_value_def mp_logger_apply_stderr_value_def
      mp_logger_apply_file_value_def strcmp_eq_def cstr_Cons)

lemma apply_udp:
  assumes "savable c0"
  shows "apply_settings ''udp'' (udp_settings c0) c = (MP_LOG_STATUS_OK,
    c\<lparr>udp_min_level := udp_min_level c0, udp_max_level := udp_max_level c0,
      udp_host := stored 128 (udp_host c) (cstr (udp_host c0)), udp_port := udp_port c0\<rparr>)"
  using savableD(11) [OF assms]
  by (simp add: udp_settings_def level_settings_def levels_ok_def mp_logger_apply_value_def mp_logger_apply_udp_value_def
      strcmp_eq_def cstr_Cons stored_def)

section \<open>The file as a whole\<close>

text \<open>The same settings: the strings agree up to their terminators, everything else exactly.\<close>

definition same_settings_as :: "mp_logger_config \<Rightarrow> mp_logger_config \<Rightarrow> bool" where
  "same_settings_as a b \<longleftrightarrow>
     cstr (service_name a) = cstr (service_name b) \<and> cstr (environment_name a) = cstr (environment_name b) \<and>
     cstr (build_version a) = cstr (build_version b) \<and> buffer_capacity a = buffer_capacity b \<and>
     message_capacity a = message_capacity b \<and> context_capacity a = context_capacity b \<and>
     field_capacity a = field_capacity b \<and> field_key_capacity a = field_key_capacity b \<and>
     field_value_capacity a = field_value_capacity b \<and> format a = format b \<and> pretty_output a = pretty_output b \<and>
     cstr (log_directory a) = cstr (log_directory b) \<and> cstr (file_name_prefix a) = cstr (file_name_prefix b) \<and>
     cstr (backup_file_name_prefix a) = cstr (backup_file_name_prefix b) \<and> cstr (active_streams a) = cstr (active_streams b) \<and>
     stdout_min_level a = stdout_min_level b \<and> stdout_max_level a = stdout_max_level b \<and>
     stderr_min_level a = stderr_min_level b \<and> stderr_max_level a = stderr_max_level b \<and>
     file_min_level a = file_min_level b \<and> file_max_level a = file_max_level b \<and>
     udp_min_level a = udp_min_level b \<and> udp_max_level a = udp_max_level b \<and>
     cstr (udp_host a) = cstr (udp_host b) \<and> udp_port a = udp_port b"

lemma interpret_config:
  assumes "savable c" and "wf_config d"
  shows "\<exists>c'. interpret_lines (config_lines c @ ls) [] d = interpret_lines ls ''udp'' c' \<and> same_settings_as c' c"
proof -
  note s = savableD [OF assms(1)] and p = plain_settings [OF assms(1)]
  have len: "length (service_name d) = 64" "length (environment_name d) = 64" "length (build_version d) = 64"
      "length (log_directory d) = 256" "length (file_name_prefix d) = 64" "length (backup_file_name_prefix d) = 64"
      "length (active_streams d) = 128" "length (udp_host d) = 128"
    using assms(2) by (simp_all add: wf_config_def wf_array_def)
  have short: "strlen (service_name c) < 64" "strlen (environment_name c) < 64" "strlen (build_version c) < 64"
      "strlen (log_directory c) < 256" "strlen (file_name_prefix c) < 64" "strlen (backup_file_name_prefix c) < 64"
      "strlen (active_streams c) < 128" "strlen (udp_host c) < 128"
    using s(12) by (simp_all add: wf_config_def strlen_less_array)
  have l: "valid_level (stdout_min_level c)" "valid_level (stdout_max_level c)" "valid_level (stderr_min_level c)"
      "valid_level (stderr_max_level c)" "valid_level (file_min_level c)" "valid_level (file_max_level c)"
    using s(11) by (simp_all add: levels_ok_def)
  show ?thesis
    unfolding config_lines_def append_assoc
    by (subst interpret_settings [OF p(1) _ apply_root [OF assms(1)]], simp)
      (subst interpret_section [OF p(2) _ apply_logger [OF assms(1)]], simp,
       subst interpret_section [OF p(4) _ apply_levels(1) [OF l(1,2)]], simp,
       subst interpret_section [OF p(5) _ apply_levels(2) [OF l(3,4)]], simp,
       subst interpret_section [OF p(6) _ apply_levels(3) [OF l(5,6)]], simp,
       subst interpret_section [OF p(3) _ apply_udp [OF assms(1)]], simp,
       intro exI conjI, rule refl,
       simp add: same_settings_as_def s(1-8) len short [unfolded strlen_def] cstr_stored)
qed

lemma config_lines_fit:
  assumes "savable c"
  shows "list_all (\<lambda>l. length l \<le> 510 \<and> CHR 0x0A \<notin> set l) (config_lines c)"
proof -
  have setting: "length (setting_line s) \<le> 510 \<and> CHR 0x0A \<notin> set (setting_line s)" if "plain_setting s" for s
  proof -
    have "plain_key (fst s)" "plain_value 256 (snd s)" using that by (simp_all add: plain_setting_def)
    then show ?thesis
      using plain_keyD(6) [of "fst s"] by (cases s) (auto simp: setting_line_def plain_key_def plain_value_def)
  qed
  have "list_all (\<lambda>l. length l \<le> 510 \<and> CHR 0x0A \<notin> set l) (map setting_line ss)" if "list_all plain_setting ss" for ss
    using that setting by (auto simp: list_all_iff)
  then show ?thesis using plain_settings [OF assms] by (simp add: config_lines_def section_lines_def)
qed

lemma interpret_append:
  assumes "interpret_lines ls sec c = (MP_LOG_STATUS_OK, c')"
  shows "\<exists>sec'. \<forall>ls'. interpret_lines (ls @ ls') sec c = interpret_lines ls' sec' c'"
  using assms
proof (induction ls sec c rule: interpret_lines.induct)
  case (2 l ls sec c)
  show ?case
  proof (cases "classify_line (cstr l)")
    case (Line_Assign k v)
    show ?thesis
      by (cases rule: apply_override_cases [of c "Some sec" k v])
        (use "2.IH"(3) [OF Line_Assign] "2.prems" Line_Assign in simp_all)
  qed (use 2 in simp_all)
qed auto

lemma interpret_blank: "interpret_lines (ls @ [[]]) sec c = interpret_lines ls sec c"
proof (induction ls sec c rule: interpret_lines.induct)
  case (2 l ls sec c)
  show ?case
  proof (cases "classify_line (cstr l)")
    case (Line_Assign k v)
    show ?thesis
      by (cases rule: apply_override_cases [of c "Some sec" k v])
        (use "2.IH"(3) [OF Line_Assign] Line_Assign in simp_all)
  qed (use 2 in simp_all)
qed (simp add: classify_line_def)

text \<open>Loading a file of short lines is interpreting them.\<close>

definition short_line :: "string \<Rightarrow> bool" where
  "short_line l \<longleftrightarrow> length l \<le> 510 \<and> CHR 0x0A \<notin> set l"

lemma load_lines:
  assumes "mp_logger_has_yaml_extension (Some path)" and "list_all short_line ls"
  shows "mp_logger_bootstrap_load (\<lambda>_. Some (unlines ls)) (Some path) (Some out) =
    (case interpret_lines ls [] mp_logger_config_init_defaults of
       (status, config) \<Rightarrow> (status, Some (if status = MP_LOG_STATUS_OK then config else out)))"
proof -
  have split: "split_on CHR 0x0A (unlines ls) = ls @ [[]]"
    using assms(2) by (intro split_unlines) (simp add: list_all_iff short_line_def)
  then have "list_all (\<lambda>l. length l \<le> 510) (split_on CHR 0x0A (unlines ls))"
    using assms(2) by (simp add: list_all_iff short_line_def)
  from bootstrap_lines_interpret [OF this, of "zeros 512" "zeros 32" mp_logger_config_init_defaults]
  show ?thesis
    using assms(1) by (simp add: mp_logger_bootstrap_load_def split interpret_blank split: prod.split)
qed

section \<open>Properties\<close>

text \<open>
  C14: what can be written can be read. For every well-formed config whose strings are plain
  scalars the file with its settings, key by key and section by section, loads with \<open>OK\<close>, and
  the loaded config has the same value for every setting, whatever the caller passed in.
\<close>

theorem config_file_roundtrip:
  assumes "savable c" and "mp_logger_has_yaml_extension (Some path)"
    and "read_file (cstr path) = Some (unlines (config_lines c))"
  shows "\<exists>c'. mp_logger_bootstrap_load read_file (Some path) (Some out) = (MP_LOG_STATUS_OK, Some c') \<and> same_settings_as c' c"
proof -
  let ?ls = "config_lines c"
  have split: "split_on CHR 0x0A (unlines ?ls) = ?ls @ [[]]"
    using config_lines_fit [OF assms(1)] by (intro split_unlines) (simp add: list_all_iff)
  have fit: "list_all (\<lambda>l. length l \<le> 510) (split_on CHR 0x0A (unlines ?ls))"
    using config_lines_fit [OF assms(1)] by (simp add: split list_all_iff)
  have "wf_config mp_logger_config_init_defaults" using config_inv_defaults by (simp add: config_inv_def)
  from interpret_config [OF assms(1) this, of "[[]]"] obtain c' where
    c': "interpret_lines (?ls @ [[]]) [] mp_logger_config_init_defaults = (MP_LOG_STATUS_OK, c')" "same_settings_as c' c"
    by (auto simp: classify_line_def)
  then show ?thesis
    using assms(2,3) bootstrap_lines_interpret [OF fit, of "zeros 512" "zeros 32" mp_logger_config_init_defaults]
    by (simp add: mp_logger_bootstrap_load_def split)
qed

lemma savable_defaults: "savable mp_logger_config_init_defaults"
proof -
  have d: "cstr (service_name mp_logger_config_init_defaults) = ''mp-service''"
      "cstr (environment_name mp_logger_config_init_defaults) = ''development''"
      "cstr (build_version mp_logger_config_init_defaults) = ''0.0.0''"
      "cstr (log_directory mp_logger_config_init_defaults) = ''.''"
      "cstr (file_name_prefix mp_logger_config_init_defaults) = ''mp-service''"
      "cstr (backup_file_name_prefix mp_logger_config_init_defaults) = ''mp-logger-internal''"
      "cstr (active_streams mp_logger_config_init_defaults) = ''stdout,stderr,file''"
      "cstr (udp_host mp_logger_config_init_defaults) = ''127.0.0.1''"
      "format mp_logger_config_init_defaults = MP_LOG_FORMAT_JSON"
    by (simp_all add: mp_logger_config_init_defaults_def zeroed_config_def cstr_copy_trimmed cstr_Cons trim_def isspace_def
        char_code_def)
  have "mp_logger_is_build_version_valid (build_version mp_logger_config_init_defaults)"
    unfolding is_build_version_valid_iff d
    by (intro exI [of _ "''0''"]) (simp add: digit_string_def)
  then show ?thesis
    by (simp add: savable_def config_inv_defaults d plain_value_def trim_def unquote_def isspace_def char_code_def)
qed

theorem config_file_roundtrip_witness:
  "\<exists>c'. mp_logger_bootstrap_load (\<lambda>_. Some (unlines (config_lines mp_logger_config_init_defaults))) (Some ''a.yaml'')
     (Some zeroed_config) = (MP_LOG_STATUS_OK, Some c') \<and> same_settings_as c' mp_logger_config_init_defaults"
proof -
  have "mp_logger_has_yaml_extension (Some ''a.yaml'')"
    by (simp add: mp_logger_has_yaml_extension_def strrchr_def cstr_Cons ctype_defs char_code_def)
  from config_file_roundtrip [OF savable_defaults this] show ?thesis by simp
qed

text \<open>
  C40: a key whose value is empty (blanks, or a pair of quotes) is never an assignment. Wherever
  the line stands, it is accepted whether or not the key is known (a key is up to 31 lower-case
  letters and underscores here), changes no setting, and makes the key the section in which the
  rest of the file is read. So a file that ends there loads as if the line were not
  there, and if the key is not one of the five sections, a setting behind it is a
  \<open>CONFIG_ERROR\<close>. In particular \<open>active_streams: ""\<close> does not disable the built-in streams.
\<close>

theorem empty_value_opens_section:
  assumes "mp_logger_has_yaml_extension (Some path)"
    and "list_all short_line (before @ (k @ CHR '':'' # v) # behind)"
    and "plain_key k" and "empty_value v" and "NUL \<notin> set v"
    and "mp_logger_bootstrap_load (\<lambda>_. Some (unlines before)) (Some path) (Some out) = (MP_LOG_STATUS_OK, Some c)"
  shows "let load = (\<lambda>ls. mp_logger_bootstrap_load (\<lambda>_. Some (unlines ls)) (Some path) (Some out)) in
    load (before @ [k @ CHR '':'' # v]) = (MP_LOG_STATUS_OK, Some c) \<and>
    load (before @ (k @ CHR '':'' # v) # behind) =
      (case interpret_lines behind k c of
         (status, c') \<Rightarrow> (status, Some (if status = MP_LOG_STATUS_OK then c' else out))) \<and>
    (k \<notin> {''logger'', ''stdout'', ''stderr'', ''file'', ''udp''} \<longrightarrow>
     (\<forall>s ls. plain_setting s \<longrightarrow> behind = setting_line s # ls \<longrightarrow>
        load (before @ (k @ CHR '':'' # v) # behind) = (MP_LOG_STATUS_CONFIG_ERROR, Some out)))"
proof -
  note load = load_lines [OF assms(1), of _ out]
  have fits: "list_all short_line before" "list_all short_line (before @ [k @ CHR '':'' # v])"
    using assms(2) by simp_all
  have "interpret_lines before [] mp_logger_config_init_defaults = (MP_LOG_STATUS_OK, c)"
    using assms(6) by (auto simp: load [OF fits(1)] split: prod.splits if_splits)
  from interpret_append [OF this] obtain sec where
    "interpret_lines (before @ ls) [] mp_logger_config_init_defaults = interpret_lines ls sec c" for ls
    by blast
  then have rest: "interpret_lines (before @ (k @ CHR '':'' # v) # ls) [] mp_logger_config_init_defaults = interpret_lines ls k c" for ls
    using plain_keyD [OF assms(3)] by (simp add: classify_empty_value [OF assms(3-5)])
  have "interpret_lines (setting_line s # ls) k c = (MP_LOG_STATUS_CONFIG_ERROR, c)"
    if unknown: "k \<notin> {''logger'', ''stdout'', ''stderr'', ''file'', ''udp''}" and plain: "plain_setting s" for s ls
  proof -
    obtain k' v' where s: "s = (k', v')" "plain_key k'" "plain_value 256 v'"
      using plain by (cases s) (simp add: plain_setting_def)
    have "mp_logger_apply_value k k' (scalar v') c = (MP_LOG_STATUS_CONFIG_ERROR, c)"
      using unknown plain_keyD(1,5) [OF assms(3)]
      by (simp add: mp_logger_apply_value_def strcmp_eq_def cstr_id cstr_Cons)
    then show ?thesis
      using assms(3) by (simp add: s classify_setting [OF s(2,3)] override_text [OF s(2)])
  qed
  with rest [of "[]"] rest [of behind] show ?thesis
    unfolding Let_def load [OF fits(2)] load [OF assms(2)]
    by (auto simp del: interpret_lines.simps(2) split: prod.split)
qed

theorem empty_value_opens_section_witness:
  "mp_logger_bootstrap_load (\<lambda>_. Some (unlines [''logger:'', ''active_streams: '' @ [CHR 0x22, CHR 0x22]]))
      (Some ''a.yaml'') (Some zeroed_config) = (MP_LOG_STATUS_OK, Some mp_logger_config_init_defaults) \<and>
   mp_logger_bootstrap_load (\<lambda>_. Some (unlines [''logger:'', ''active_streams: '' @ [CHR 0x22, CHR 0x22],
      ''  format: text''])) (Some ''a.yaml'') (Some zeroed_config) = (MP_LOG_STATUS_CONFIG_ERROR, Some zeroed_config)"
proof -
  let ?k = "''active_streams''" and ?v = "CHR '' '' # [CHR 0x22, CHR 0x22]"
  let ?s = "(''format'', ''text'')"
  have yaml: "mp_logger_has_yaml_extension (Some ''a.yaml'')"
    by (simp add: mp_logger_has_yaml_extension_def strrchr_def cstr_Cons ctype_defs char_code_def)
  have fits: "list_all short_line ([''logger:''] @ (?k @ CHR '':'' # ?v) # [setting_line ?s])"
    by (simp add: short_line_def setting_line_def)
  have v: "empty_value ?v" "NUL \<notin> set ?v"
    by (simp_all add: empty_value_def trim_def unquote_def isspace_def char_code_def)
  have s: "plain_setting ?s"
    by (simp add: plain_setting_def plain_value_def trim_def unquote_def isspace_def char_code_def)
  have "mp_logger_bootstrap_load (\<lambda>_. Some (unlines [''logger:''])) (Some ''a.yaml'') (Some zeroed_config) =
      (MP_LOG_STATUS_OK, Some mp_logger_config_init_defaults)"
    using load_lines [OF yaml, of "[''logger:'']" zeroed_config] classify_section [of "''logger''"]
    by (simp add: short_line_def)
  note result = empty_value_opens_section [OF yaml fits plain_keys(20) v this, unfolded Let_def]
  have lines: "setting_line ?s = ''  format: text''" "?k @ CHR '':'' # ?v = ''active_streams: '' @ [CHR 0x22, CHR 0x22]"
    by (simp_all add: setting_line_def)
  show ?thesis
    using result [THEN conjunct1] result [THEN conjunct2, THEN conjunct2, rule_format, OF _ s refl]
    by (simp only: lines append.simps) simp
qed

end
