(* ===== verification/Logger_Settings.thy ===== *)
theory Logger_Settings
  imports Logger_Yaml
begin

text \<open>
  A config as a map from its settings to their texts, and the overrides of
  \<open>mp_logger_config_apply_override\<close> (\<open>src/mp_logger_bootstrap.c\<close>) as assignments to it.
\<close>

section \<open>The map of a config\<close>

definition in_section :: "string \<Rightarrow> setting list \<Rightarrow> ((string \<times> string) \<times> string) list" where
  "in_section sec ss = map (\<lambda>(k, v). ((sec, k), v)) ss"

definition all_settings :: "mp_logger_config \<Rightarrow> ((string \<times> string) \<times> string) list" where
  "all_settings c =
     in_section [] (root_settings c) @ in_section ''logger'' (logger_settings c) @
     in_section ''stdout'' (level_settings (stdout_min_level c) (stdout_max_level c)) @
     in_section ''stderr'' (level_settings (stderr_min_level c) (stderr_max_level c)) @
     in_section ''file'' (level_settings (file_min_level c) (file_max_level c)) @
     in_section ''udp'' (udp_settings c)"

definition setting_map :: "mp_logger_config \<Rightarrow> string \<times> string \<rightharpoonup> string" where
  "setting_map c = map_of (all_settings c)"

definition setting_keys :: "(string \<times> string) list" where
  "setting_keys = map (Pair []) [''service_name'', ''environment_name'', ''build_version''] @
     map (Pair ''logger'') [''buffer_capacity'', ''message_capacity'', ''context_capacity'', ''field_capacity'',
       ''field_key_capacity'', ''field_value_capacity'', ''format'', ''pretty_output'', ''log_directory'', ''file_name_prefix'',
       ''backup_file_name_prefix'', ''active_streams''] @
     map (Pair ''stdout'') [''minimum_level'', ''maximum_level''] @ map (Pair ''stderr'') [''minimum_level'', ''maximum_level''] @
     map (Pair ''file'') [''minimum_level'', ''maximum_level''] @
     map (Pair ''udp'') [''minimum_level'', ''maximum_level'', ''host'', ''port'']"

definition setting_values :: "mp_logger_config \<Rightarrow> string list" where
  "setting_values c = map snd (all_settings c)"

lemmas setting_defs = all_settings_def in_section_def root_settings_def logger_settings_def level_settings_def udp_settings_def

lemma setting_map_zip: "setting_map c = map_of (zip setting_keys (setting_values c))"
  and length_values: "length (setting_values c) = length setting_keys"
proof -
  have "map fst (all_settings c) = setting_keys" by (simp add: setting_defs setting_keys_def)
  then show "setting_map c = map_of (zip setting_keys (setting_values c))" "length (setting_values c) = length setting_keys"
    using zip_map_fst_snd [of "all_settings c"] by (auto simp: setting_map_def setting_values_def dest: arg_cong [of _ _ length])
qed

lemma distinct_keys: "distinct setting_keys"
  by (simp add: setting_keys_def)

lemma setting_map_dom: "dom (setting_map c) = set setting_keys"
  by (simp add: setting_map_zip length_values)

definition key_index :: "string \<times> string \<Rightarrow> nat" where
  "key_index p = length (takeWhile (\<lambda>k. k \<noteq> p) setting_keys)"

lemma key_index: "p \<in> set setting_keys \<Longrightarrow> key_index p < length setting_keys \<and> setting_keys ! key_index p = p"
proof -
  assume "p \<in> set setting_keys"
  then have "length (takeWhile (\<lambda>k. k \<noteq> p) setting_keys) < length setting_keys" by (simp add: length_takeWhile_neq)
  then show ?thesis using nth_length_takeWhile [of "\<lambda>k. k \<noteq> p" setting_keys] by (simp add: key_index_def)
qed

text \<open>To change one of the values is to update the map at its key.\<close>

lemma map_of_zip_update:
  "length ks = length vs \<Longrightarrow> distinct ks \<Longrightarrow> i < length ks \<Longrightarrow> map_of (zip ks (vs[i := t])) = (map_of (zip ks vs))(ks ! i \<mapsto> t)"
proof (induction ks vs arbitrary: i rule: list_induct2)
  case (Cons k ks v vs)
  then have "ks ! n \<noteq> k" if "n < length ks" for n using that nth_mem by fastforce
  with Cons show ?case by (cases i) (auto simp: fun_eq_iff)
qed simp

lemma setting_map_update:
  assumes "p \<in> set setting_keys" and "setting_values c' = (setting_values c)[key_index p := t]"
  shows "setting_map c' = (setting_map c)(p \<mapsto> t)"
  using key_index [OF assms(1)] map_of_zip_update [OF length_values [symmetric] distinct_keys, of "key_index p" c t] assms(2)
  by (simp add: setting_map_zip)

section \<open>The values of a setting\<close>

text \<open>
  What a setting takes: a text of bounded length, a build version, a size, a format, a boolean,
  a level or a port. \<open>accepted_text\<close> is the text under which a value is stored, if the setting
  takes it.
\<close>

datatype value_kind = Kind_Text nat | Kind_Version | Kind_Size | Kind_Format | Kind_Bool | Kind_Level | Kind_Port

definition setting_kinds :: "value_kind list" where
  "setting_kinds = [Kind_Text 63, Kind_Text 63, Kind_Version,
     Kind_Size, Kind_Size, Kind_Size, Kind_Size, Kind_Size, Kind_Size, Kind_Format, Kind_Bool,
     Kind_Text 255, Kind_Text 63, Kind_Text 63, Kind_Text 127,
     Kind_Level, Kind_Level, Kind_Level, Kind_Level, Kind_Level, Kind_Level, Kind_Level, Kind_Level, Kind_Text 127, Kind_Port]"

definition level_of :: "cbuf \<Rightarrow> mp_log_level_t option" where
  "level_of v = (case mp_logger_parse_level_name (Some v) MP_LOG_LEVEL_TRACE of
     (status, l) \<Rightarrow> if status = MP_LOG_STATUS_OK then Some l else None)"

definition format_of :: "cbuf \<Rightarrow> mp_log_format_t option" where
  "format_of v = (case mp_logger_parse_format_name (Some v) MP_LOG_FORMAT_TEXT of
     (status, f) \<Rightarrow> if status = MP_LOG_STATUS_OK then Some f else None)"

fun kind_text :: "value_kind \<Rightarrow> cbuf \<Rightarrow> string option" where
  "kind_text (Kind_Text n) v = Some (take n (trim (cstr v)))"
| "kind_text Kind_Version v = (if mp_logger_is_build_version_valid v then Some (take 63 (trim (cstr v))) else None)"
| "kind_text Kind_Size v = map_option size_text (mp_logger_parse_size_value v)"
| "kind_text Kind_Format v = map_option format_text (format_of v)"
| "kind_text Kind_Bool v = map_option bool_text (mp_logger_parse_bool v)"
| "kind_text Kind_Level v = map_option level_text (level_of v)"
| "kind_text Kind_Port v = map_option port_text (mp_logger_parse_port_value v)"

definition accepted_text :: "string \<times> string \<Rightarrow> cbuf \<Rightarrow> string option" where
  "accepted_text p v = (case map_of (zip setting_keys setting_kinds) p of None \<Rightarrow> None | Some kind \<Rightarrow> kind_text kind v)"

lemma kind_text_cstr: "kind_text kind (cstr v) = kind_text kind v"
proof -
  have eqs: "mp_logger_equal_ignore_case (cstr v) x = mp_logger_equal_ignore_case v x" "strcmp_eq (cstr v) x = strcmp_eq v x"
      "mp_logger_is_build_version_valid (cstr v) = mp_logger_is_build_version_valid v" for x
    by (simp_all add: equal_ignore_case_iff strcmp_eq_def is_build_version_valid_iff)
  show ?thesis
    by (cases kind)
      (simp_all only: kind_text.simps eqs cstr_idem parse_size_cstr mp_logger_parse_port_value_def level_of_def format_of_def
        mp_logger_parse_level_name_def mp_logger_parse_format_name_def mp_logger_parse_bool_def option.case)
qed

lemmas setting_evals = setting_values_def setting_defs key_index_def setting_keys_def setting_kinds_def accepted_text_def

lemma accepted_text_cstr: "accepted_text p (cstr v) = accepted_text p v"
  by (simp add: accepted_text_def kind_text_cstr split: option.split)

section \<open>Assignments\<close>

text \<open>
  An operation on configs that, whatever the config, fails and leaves it alone (\<open>None\<close>), or
  assigns a text to one of the settings.
\<close>

definition assigns ::
    "string \<times> string \<Rightarrow> string option \<Rightarrow> (mp_logger_config \<Rightarrow> mp_log_status_t \<times> mp_logger_config) \<Rightarrow> bool" where
  "assigns p r F \<longleftrightarrow> (\<forall>c. config_inv c \<longrightarrow>
     (case r of
        None \<Rightarrow> F c = (MP_LOG_STATUS_CONFIG_ERROR, c)
      | Some t \<Rightarrow> p \<in> set setting_keys \<and> (\<exists>c'. F c = (MP_LOG_STATUS_OK, c') \<and> setting_map c' = (setting_map c)(p \<mapsto> t))))"

named_theorems assigns_intros \<open>branches of a section dispatcher as assignments\<close>

lemma assigns_if [assigns_intros]:
  "(b \<Longrightarrow> assigns p r F) \<Longrightarrow> (\<not> b \<Longrightarrow> assigns p r G) \<Longrightarrow> assigns p r (\<lambda>c. if b then F c else G c)"
  by (cases b) simp_all

lemma assigns_error [assigns_intros]: "r = None \<Longrightarrow> assigns p r (\<lambda>c. (MP_LOG_STATUS_CONFIG_ERROR, c))"
  by (simp add: assigns_def)

lemma assigns_value [assigns_intros]:
  assumes "r = Some t" and "p \<in> set setting_keys"
    and "\<And>c. config_inv c \<Longrightarrow> setting_values (f c) = (setting_values c)[key_index p := t]"
  shows "assigns p r (\<lambda>c. (MP_LOG_STATUS_OK, f c))"
proof -
  have "setting_map (f c) = (setting_map c)(p \<mapsto> t)" if "config_inv c" for c
    by (rule setting_map_update [OF assms(2)]) (simp add: assms(3) that)
  then show ?thesis using assms(1,2) by (simp add: assigns_def)
qed

lemma assigns_option [assigns_intros]:
  assumes "r = map_option t q" and "p \<in> set setting_keys"
    and "\<And>c v. config_inv c \<Longrightarrow> setting_values (f v c) = (setting_values c)[key_index p := t v]"
  shows "assigns p r (\<lambda>c. case q of None \<Rightarrow> (MP_LOG_STATUS_CONFIG_ERROR, c) | Some v \<Rightarrow> (MP_LOG_STATUS_OK, f v c))"
  using assigns_value [OF _ assms(2,3), of r] assigns_error [of r p] assms(1) by (cases q) simp_all

text \<open>Whether a name is known does not depend on the old value, nor does its meaning.\<close>

lemma parse_level_old: "mp_logger_parse_level_name (Some v) old =
    (if fst (mp_logger_parse_level_name (Some v) x) = MP_LOG_STATUS_OK then mp_logger_parse_level_name (Some v) x
     else (MP_LOG_STATUS_CONFIG_ERROR, old))"
  by (simp add: mp_logger_parse_level_name_def)

lemma parse_format_old: "mp_logger_parse_format_name (Some v) old =
    (if fst (mp_logger_parse_format_name (Some v) x) = MP_LOG_STATUS_OK then mp_logger_parse_format_name (Some v) x
     else (MP_LOG_STATUS_CONFIG_ERROR, old))"
  by (simp add: mp_logger_parse_format_name_def)

lemma parse_level_cases:
  obtains l where "\<And>old. mp_logger_parse_level_name (Some v) old = (MP_LOG_STATUS_OK, l)"
  | "\<And>old. mp_logger_parse_level_name (Some v) old = (MP_LOG_STATUS_CONFIG_ERROR, old)"
  using parse_level_old [of v _ MP_LOG_LEVEL_TRACE] by (metis prod.collapse)

lemma parse_format_cases:
  obtains l where "\<And>old. mp_logger_parse_format_name (Some v) old = (MP_LOG_STATUS_OK, l)"
  | "\<And>old. mp_logger_parse_format_name (Some v) old = (MP_LOG_STATUS_CONFIG_ERROR, old)"
  using parse_format_old [of v _ MP_LOG_FORMAT_TEXT] by (metis prod.collapse)

lemma assigns_level [assigns_intros]:
  assumes "r = map_option t (level_of v)" and "p \<in> set setting_keys"
    and "\<And>c l. config_inv c \<Longrightarrow> setting_values (f l c) = (setting_values c)[key_index p := t l]" and "\<And>c. f (old c) c = c"
  shows "assigns p r (\<lambda>c. case mp_logger_parse_level_name (Some v) (old c) of (status, l) \<Rightarrow> (status, f l c))"
  using assigns_value [OF _ assms(2,3), of r] assigns_error [of r p] assms(1)
  by (cases rule: parse_level_cases [of v]) (simp_all add: assms(4) level_of_def)

lemma assigns_format [assigns_intros]:
  assumes "r = map_option t (format_of v)" and "p \<in> set setting_keys"
    and "\<And>c l. config_inv c \<Longrightarrow> setting_values (f l c) = (setting_values c)[key_index p := t l]" and "\<And>c. f (old c) c = c"
  shows "assigns p r (\<lambda>c. case mp_logger_parse_format_name (Some v) (old c) of (status, l) \<Rightarrow> (status, f l c))"
  using assigns_value [OF _ assms(2,3), of r] assigns_error [of r p] assms(1)
  by (cases rule: parse_format_cases [of v]) (simp_all add: assms(4) format_of_def)

lemma array_copy:
  assumes "config_inv c"
  shows "cstr (mp_logger_copy_trimmed (service_name c) 64 (Some v)) = take 63 (trim (cstr v))"
    "cstr (mp_logger_copy_trimmed (environment_name c) 64 (Some v)) = take 63 (trim (cstr v))"
    "cstr (mp_logger_copy_trimmed (build_version c) 64 (Some v)) = take 63 (trim (cstr v))"
    "cstr (mp_logger_copy_trimmed (log_directory c) 256 (Some v)) = take 255 (trim (cstr v))"
    "cstr (mp_logger_copy_trimmed (file_name_prefix c) 64 (Some v)) = take 63 (trim (cstr v))"
    "cstr (mp_logger_copy_trimmed (backup_file_name_prefix c) 64 (Some v)) = take 63 (trim (cstr v))"
    "cstr (mp_logger_copy_trimmed (active_streams c) 128 (Some v)) = take 127 (trim (cstr v))"
    "cstr (mp_logger_copy_trimmed (udp_host c) 128 (Some v)) = take 127 (trim (cstr v))"
  using assms by (simp_all add: config_inv_defs wf_array_def cstr_copy_trimmed)

section \<open>The sections\<close>

lemma assigns_root: "assigns ([], cstr k) (accepted_text ([], cstr k) v) (mp_logger_apply_root_value k v)"
  unfolding mp_logger_apply_root_value_def [abs_def]
  by (intro assigns_intros) (simp_all add: strcmp_eq_def cstr_Cons array_copy, (simp add: setting_evals array_copy)+)

lemma assigns_logger: "assigns (''logger'', cstr k) (accepted_text (''logger'', cstr k) v) (mp_logger_apply_logger_value k v)"
  unfolding mp_logger_apply_logger_value_def [abs_def]
  by (intro assigns_intros) (simp_all add: strcmp_eq_def cstr_Cons array_copy, (simp add: setting_evals array_copy)+)

lemma assigns_levels:
  "assigns (''stdout'', cstr k) (accepted_text (''stdout'', cstr k) v) (mp_logger_apply_stdout_value k v)"
  "assigns (''stderr'', cstr k) (accepted_text (''stderr'', cstr k) v) (mp_logger_apply_stderr_value k v)"
  "assigns (''file'', cstr k) (accepted_text (''file'', cstr k) v) (mp_logger_apply_file_value k v)"
  unfolding mp_logger_apply_stdout_value_def [abs_def] mp_logger_apply_stderr_value_def [abs_def]
    mp_logger_apply_file_value_def [abs_def]
  by (intro assigns_intros; simp add: strcmp_eq_def cstr_Cons; simp add: setting_evals)+

lemma assigns_udp: "assigns (''udp'', cstr k) (accepted_text (''udp'', cstr k) v) (mp_logger_apply_udp_value k v)"
  unfolding mp_logger_apply_udp_value_def [abs_def]
  by (intro assigns_intros) (simp_all add: strcmp_eq_def cstr_Cons array_copy, (simp add: setting_evals array_copy)+)

lemma assigns_value_of: "assigns (cstr sec, cstr k) (accepted_text (cstr sec, cstr k) v) (mp_logger_apply_value sec k v)"
  unfolding mp_logger_apply_value_def [abs_def]
  by (intro assigns_if assigns_error)
    (simp_all add: strcmp_eq_def cstr_Cons assigns_root assigns_logger assigns_levels assigns_udp, simp add: setting_evals)

section \<open>Properties\<close>

text \<open>
  C21: an override assigns one setting. The section and the key, trimmed, must name one of the
  25 documented settings, and the value, trimmed and unquoted, must be of its kind; then the
  override is \<open>OK\<close>, and the settings of the config are the old ones with the text of the value
  at that key. Otherwise it is \<open>CONFIG_ERROR\<close> and the config is as it was.
\<close>

theorem override_assigns:
  assumes "config_inv c"
  shows "let p = (take 31 (trim (cstr sec)), take 63 (trim (cstr key))); s = unquote (take 255 (trim (cstr v))) in
    case accepted_text p s of
      None \<Rightarrow> mp_logger_config_apply_override (Some c) (Some sec) (Some key) (Some v) = (MP_LOG_STATUS_CONFIG_ERROR, Some c)
    | Some t \<Rightarrow> p \<in> set setting_keys \<and>
        (\<exists>c'. mp_logger_config_apply_override (Some c) (Some sec) (Some key) (Some v) = (MP_LOG_STATUS_OK, Some c') \<and>
           config_inv c' \<and> setting_map c' = (setting_map c)(p \<mapsto> t))"
proof -
  define S where "S = mp_logger_copy_trimmed (zeros 32) 32 (Some sec)"
  define K where "K = mp_logger_copy_trimmed (zeros 64) 64 (Some key)"
  define V where "V = mp_logger_unquote_scalar (mp_logger_copy_trimmed (zeros 256) 256 (Some v))"
  have strings: "cstr S = take 31 (trim (cstr sec))" "cstr K = take 63 (trim (cstr key))"
      "cstr V = unquote (take 255 (trim (cstr v)))"
    by (simp_all add: S_def K_def V_def cstr_copy_trimmed cstr_unquote_scalar)
  have over: "mp_logger_config_apply_override (Some c) (Some sec) (Some key) (Some v) =
      (if cstr K = [] then (MP_LOG_STATUS_CONFIG_ERROR, Some c) else map_prod id Some (mp_logger_apply_value S K V c))"
    by (simp add: apply_override_Some Let_def S_def K_def V_def)
  note a = assigns_value_of [of S K V, unfolded assigns_def, rule_format, OF assms]
  have nokey: "accepted_text (cstr S, []) V = None" by (simp add: setting_evals)
  have "config_inv c'" if "mp_logger_apply_value S K V c = (MP_LOG_STATUS_OK, c')" for c'
    using dispatch.apply_inv [of c S K V] that assms by simp
  then show ?thesis
    unfolding Let_def strings [symmetric] accepted_text_cstr over using a nokey by (auto split: option.splits)
qed

theorem override_assigns_witness:
  "\<exists>c'. mp_logger_config_apply_override (Some mp_logger_config_init_defaults) (Some ''udp'') (Some '' port'') (Some ''80'') =
      (MP_LOG_STATUS_OK, Some c') \<and>
    setting_map c' = (setting_map mp_logger_config_init_defaults)((''udp'', ''port'') \<mapsto> ''80'')"
proof -
  have strings: "cstr ''udp'' = ''udp''" "cstr '' port'' = '' port''" "cstr ''80'' = ''80''" "trim ''udp'' = ''udp''"
      "trim '' port'' = ''port''" "unquote (take 255 (trim ''80'')) = ''80''"
    by (simp_all add: cstr_Cons trim_def unquote_def isspace_def char_code_def)
  have n: "show_nat 80 = ''80''"
    by (simp add: show_nat.simps digit_char_def char_of_def bit_0)
  have "mp_logger_parse_port_value ''80'' = Some 80"
    using parse_port_text [of 80] cstr_scalar [OF plain_port, of 80] parse_size_cstr [of "scalar ''80''"]
    by (simp add: port_text_def n mp_logger_parse_port_value_def)
  then have "accepted_text (''udp'', ''port'') ''80'' = Some ''80''"
    by (simp add: setting_evals port_text_def n)
  then show ?thesis
    using override_assigns [OF config_inv_defaults, of "''udp''" "'' port''" "''80''"] by (auto simp: strings Let_def)
qed

end
