(* ===== verification/Logger_Time.thy ===== *)
theory Logger_Time
  imports Logger_Numbers "HOL-Library.Signed_Division"
begin

text \<open>
  Clocks and timestamps: \<open>mp_logger_now_millis\<close> and \<open>mp_logger_format_timestamp\<close> of
  \<open>src/mp_logger_streams.c\<close>, the monotonic clock and the run suffix of
  \<open>src/mp_logger.c\<close>. \<open>gmtime_r\<close> is modelled by the proleptic Gregorian calendar
  and proved against an independent count of days.
\<close>

section \<open>Clocks\<close>

text \<open>The result of \<open>clock_gettime\<close>: seconds and nanoseconds, or a failure.\<close>

definition mp_logger_now_millis :: "(int \<times> int) option \<Rightarrow> int64_t" where
  "mp_logger_now_millis now =
     (case now of
        None \<Rightarrow> 0
      | Some (tv_sec, tv_nsec) \<Rightarrow> word_of_int tv_sec * 1000 + word_of_int (tv_nsec sdiv 1000000))"

definition mp_logger_now_monotonic_millis :: "(int \<times> int) option \<Rightarrow> int64_t" where
  "mp_logger_now_monotonic_millis now =
     (case now of
        None \<Rightarrow> 0
      | Some (tv_sec, tv_nsec) \<Rightarrow> word_of_int tv_sec * 1000 + word_of_int (tv_nsec sdiv 1000000))"

section \<open>The calendar\<close>

text \<open>
  The date of a day counted from 1970-01-01. The year starts in March here, so that a leap day
  is the last day of a year, of four years and of four centuries.
\<close>

definition civil_from_days :: "int \<Rightarrow> int \<times> int \<times> int" where
  "civil_from_days days =
     (let z = days + 719468;
          era = z div 146097; doe = z mod 146097;
          c = min 3 (doe div 36524); doc = doe - 36524 * c;
          q = doc div 1461; doq = doc - 1461 * q;
          a = min 3 (doq div 365); doy = doq - 365 * a;
          mp = (5 * doy + 2) div 153;
          d = doy - (153 * mp + 2) div 5 + 1;
          m = (if mp < 10 then mp + 3 else mp - 9);
          y = 400 * era + 100 * c + 4 * q + a + (if m \<le> 2 then 1 else 0)
      in (y, m, d))"

definition leap_year :: "int \<Rightarrow> bool" where
  "leap_year y \<longleftrightarrow> y mod 4 = 0 \<and> (y mod 100 \<noteq> 0 \<or> y mod 400 = 0)"

definition days_in_month :: "int \<Rightarrow> int \<Rightarrow> int" where
  "days_in_month y m =
     (if m = 2 then if leap_year y then 29 else 28
      else if m \<in> {4, 6, 9, 11} then 30 else 31)"

definition days_before_year :: "int \<Rightarrow> int" where
  "days_before_year y = 365 * (y - 1970) + (y - 1) div 4 - (y - 1) div 100 + (y - 1) div 400 - 477"

definition days_before_month :: "int \<Rightarrow> int \<Rightarrow> int" where
  "days_before_month y m = sum_list (map (days_in_month y) [1 .. m - 1])"

text \<open>The number of a day, counted by years, months and days.\<close>

definition days_from_civil :: "int \<Rightarrow> int \<Rightarrow> int \<Rightarrow> int" where
  "days_from_civil y m d = days_before_year y + days_before_month y m + d - 1"

definition valid_date :: "int \<Rightarrow> int \<Rightarrow> int \<Rightarrow> bool" where
  "valid_date y m d \<longleftrightarrow> 1 \<le> m \<and> m \<le> 12 \<and> 1 \<le> d \<and> d \<le> days_in_month y m"

lemma div_pred:
  fixes y n :: int
  assumes "1 < n"
  shows "y div n = (y - 1) div n + (if y mod n = 0 then 1 else 0)"
proof -
  define q r where "q = y div n" and "r = y mod n"
  have y: "y = n * q + r" by (simp add: q_def r_def)
  have r: "0 \<le> r" "r < n" using assms by (simp_all add: r_def)
  have "(y - 1) div n = (if r = 0 then q - 1 else q)"
  proof (cases "r = 0")
    case True
    then have "y - 1 = n * (q - 1) + (n - 1)" by (simp add: y algebra_simps)
    then have "(y - 1) div n = q - 1" by (rule int_div_pos_eq) (use assms in simp_all)
    then show ?thesis using True by simp
  next
    case False
    have "y - 1 = n * q + (r - 1)" by (simp add: y)
    then have "(y - 1) div n = q" by (rule int_div_pos_eq) (use False r in simp_all)
    then show ?thesis using False by simp
  qed
  then show ?thesis by (simp flip: q_def r_def)
qed

lemma days_before_year_Suc:
  "days_before_year (y + 1) = days_before_year y + (if leap_year y then 366 else 365)"
proof -
  have count: "365 * (y + 1 - 1970) + a - b + c - 477 =
      365 * (y - 1970) + a' - b' + c' - 477 + (if P \<and> (\<not> Q \<or> R) then 366 else 365 :: int)"
    if "a = a' + (if P then 1 else 0)" "b = b' + (if Q then 1 else 0)" "c = c' + (if R then 1 else 0)"
      "Q \<Longrightarrow> P" "R \<Longrightarrow> Q"
    for a b c a' b' c' :: int and P Q R
    using that by (cases P; cases Q; cases R) simp_all
  have "y mod 400 = 0 \<Longrightarrow> y mod 100 = 0" "y mod 100 = 0 \<Longrightarrow> y mod 4 = 0"
    using dvd_trans [of 100 400 y] dvd_trans [of 4 100 y] by (simp_all only: dvd_eq_mod_eq_0) simp_all
  then show ?thesis
    unfolding days_before_year_def leap_year_def add_diff_cancel_right'
    by (intro count div_pred) simp_all
qed

text \<open>The pieces of a March-based year number.\<close>

lemma march_year_divs:
  fixes e c q a :: int
  assumes "0 \<le> c" "c \<le> 3" "0 \<le> q" "q \<le> 24" "0 \<le> a" "a \<le> 3"
  defines "y \<equiv> 400 * e + 100 * c + 4 * q + a"
  shows "y div 4 = 100 * e + 25 * c + q" and "y div 100 = 4 * e + c" and "y div 400 = e"
proof -
  show "y div 4 = 100 * e + 25 * c + q"
    by (rule int_div_pos_eq [where r = a]) (use assms in simp_all)
  show "y div 100 = 4 * e + c"
    by (rule int_div_pos_eq [where r = "4 * q + a"]) (use assms in simp_all)
  show "y div 400 = e"
    by (rule int_div_pos_eq [where r = "100 * c + 4 * q + a"]) (use assms in simp_all)
qed

lemma days_before_march_year:
  fixes e c q a :: int
  assumes "0 \<le> c" "c \<le> 3" "0 \<le> q" "q \<le> 24" "0 \<le> a" "a \<le> 3"
  shows "days_before_year (400 * e + 100 * c + 4 * q + a + 1) =
    146097 * e + 36524 * c + 1461 * q + 365 * a - 719162"
  using march_year_divs [OF assms, of e] by (simp add: days_before_year_def)

text \<open>Day numbers inside a March-based year, month by month.\<close>

lemma div_bounds:
  fixes n x :: int
  assumes "0 < n"
  shows "n * (x div n) \<le> x" and "x < n * (x div n) + n"
proof -
  have "n * (x div n) + x mod n = x" by simp
  moreover have "0 \<le> x mod n" "x mod n < n" using assms by simp_all
  ultimately show "n * (x div n) \<le> x" "x < n * (x div n) + n"
    by linarith+
qed

lemma march_month:
  fixes doy :: int
  assumes "0 \<le> doy" "doy \<le> 365"
  defines "mp \<equiv> (5 * doy + 2) div 153"
  shows "0 \<le> mp" "mp \<le> 11" "(153 * mp + 2) div 5 \<le> doy" "doy < (153 * mp + 155) div 5"
proof -
  have mp: "153 * mp \<le> 5 * doy + 2" "5 * doy + 2 < 153 * mp + 153"
    unfolding mp_def by (rule div_bounds, simp)+
  then show "(153 * mp + 2) div 5 \<le> doy" "doy < (153 * mp + 155) div 5"
    by linarith+
  have "0 div 153 \<le> mp" "mp \<le> 1827 div 153"
    unfolding mp_def using assms(1,2) by (intro zdiv_mono1; simp)+
  then show "0 \<le> mp" "mp \<le> 11" by simp_all
qed

lemma leap_march_year:
  fixes e c q :: int
  assumes "0 \<le> c" "c \<le> 3" "0 \<le> q" "q \<le> 24" "q = 24 \<longrightarrow> c = 3"
  shows "leap_year (400 * e + 100 * c + 4 * q + 3 + 1)"
proof -
  have y: "400 * e + 100 * c + 4 * q + 3 + 1 = (if q = 24 then 400 * (e + 1) else 100 * (4 * e + c) + 4 * (q + 1))"
    using assms by simp
  show ?thesis
  proof (cases "q = 24")
    case True
    then show ?thesis unfolding y leap_year_def by (simp add: algebra_simps)
  next
    case False
    then have "(100 * (4 * e + c) + 4 * (q + 1)) mod 100 = 4 * (q + 1)"
      using assms by (subst mod_mult_self4) simp
    moreover have "(100 * (4 * e + c) + 4 * (q + 1)) mod 4 = 0"
      by (simp add: mod_0_imp_dvd dvd_imp_mod_0)
    ultimately show ?thesis using False assms unfolding y leap_year_def by simp
  qed
qed

text \<open>
  Every day has a valid date, and counting the days up to that date gives the day back.
\<close>

lemma march_pieces:
  fixes z :: int
  defines "doe \<equiv> z mod 146097"
  defines "c \<equiv> min 3 (doe div 36524)"
  defines "doc \<equiv> doe - 36524 * c"
  defines "q \<equiv> doc div 1461"
  defines "doq \<equiv> doc - 1461 * q"
  defines "a \<equiv> min 3 (doq div 365)"
  defines "doy \<equiv> doq - 365 * a"
  shows "0 \<le> c" "c \<le> 3" "0 \<le> q" "q \<le> 24" "0 \<le> a" "a \<le> 3" "0 \<le> doy" "doy \<le> 365"
    "doy = 365 \<Longrightarrow> a = 3 \<and> (q = 24 \<longrightarrow> c = 3)"
    "z = 146097 * (z div 146097) + 36524 * c + 1461 * q + 365 * a + doy"
proof -
  have doe: "0 \<le> doe" "doe \<le> 146096" by (simp_all add: doe_def)
  then have c: "0 \<le> c \<and> c \<le> 3" "0 \<le> doc \<and> doc \<le> 36524" "doc = 36524 \<longrightarrow> c = 3"
    unfolding c_def doc_def by linarith+
  then have q: "0 \<le> q \<and> q \<le> 24" "0 \<le> doq \<and> doq \<le> 1460" "q = 24 \<and> doq = 1460 \<longrightarrow> doc = 36524"
    unfolding q_def doq_def by linarith+
  then have a: "0 \<le> a \<and> a \<le> 3" "0 \<le> doy \<and> doy \<le> 365" "doy = 365 \<longrightarrow> a = 3 \<and> doq = 1460"
    unfolding a_def doy_def by linarith+
  show "0 \<le> c" "c \<le> 3" "0 \<le> q" "q \<le> 24" "0 \<le> a" "a \<le> 3" "0 \<le> doy" "doy \<le> 365"
    "doy = 365 \<Longrightarrow> a = 3 \<and> (q = 24 \<longrightarrow> c = 3)"
    using c q a by blast+
  have "z = 146097 * (z div 146097) + doe" by (simp add: doe_def)
  then show "z = 146097 * (z div 146097) + 36524 * c + 1461 * q + 365 * a + doy"
    by (simp add: doy_def doq_def doc_def)
qed

lemma civil_from_days_correct:
  "case civil_from_days days of (y, m, d) \<Rightarrow> valid_date y m d \<and> days_from_civil y m d = days"
proof -
  define z where "z = days + 719468"
  define e where "e = z div 146097"
  define doe where "doe = z mod 146097"
  define c where "c = min 3 (doe div 36524)"
  define doc where "doc = doe - 36524 * c"
  define q where "q = doc div 1461"
  define doq where "doq = doc - 1461 * q"
  define a where "a = min 3 (doq div 365)"
  define doy where "doy = doq - 365 * a"
  define mp where "mp = (5 * doy + 2) div 153"
  define d where "d = doy - (153 * mp + 2) div 5 + 1"
  define y where "y = 400 * e + 100 * c + 4 * q + a"
  note pieces = march_pieces [of z, folded doe_def e_def, folded c_def, folded doc_def, folded q_def,
      folded doq_def, folded a_def, folded doy_def]
  note month = march_month [OF pieces(7,8), folded mp_def]
  define m where "m = (if mp < 10 then mp + 3 else mp - 9)"
  have "civil_from_days days = (400 * e + 100 * c + 4 * q + a + (if m \<le> 2 then 1 else 0), m, d)"
    unfolding civil_from_days_def Let_def m_def d_def mp_def doy_def a_def doq_def q_def doc_def c_def
      doe_def e_def z_def by (rule refl)
  then have civil: "civil_from_days days = (if mp < 10 then (y, mp + 3, d) else (y + 1, mp - 9, d))"
    using month(1,2) by (simp add: m_def flip: y_def)
  have next_year: "days_before_year (y + 1) = z - doy - 719162"
    unfolding y_def using days_before_march_year [OF pieces(1-6), of e] pieces(10) by linarith
  have this_year: "days_before_year y = days_before_year (y + 1) - (if leap_year y then 366 else 365)"
    using days_before_year_Suc [of y] by simp
  have d: "1 \<le> d" "d \<le> (153 * mp + 155) div 5 - (153 * mp + 2) div 5"
    "days_before_year (y + 1) + (153 * mp + 2) div 5 + d - 1 = days + 306"
    using month(3,4) next_year by (simp_all add: d_def z_def)
  have feb: "mp = 11 \<Longrightarrow> d \<le> days_in_month (y + 1) 2"
  proof -
    assume mp: "mp = 11"
    have "leap_year (y + 1)" if "doy = 365"
      using that pieces(9) leap_march_year [OF pieces(1-4), of e] by (simp add: y_def)
    moreover have "d = doy - 336" by (simp add: d_def mp)
    ultimately show ?thesis using pieces(8) by (cases "doy = 365") (auto simp: days_in_month_def)
  qed
  have "mp \<in> {0, 1, 2, 3, 4, 5, 6, 7, 8, 9, 10, 11}"
    unfolding insert_iff empty_iff using month(1,2) by presburger
  then show ?thesis
    using d(1,2,3) feb
    by (elim insertE emptyE)
      (simp_all add: civil valid_date_def days_from_civil_def days_before_month_def days_in_month_def
        this_year upto.simps del: d_def)
qed

lemma days_before_month_bounds:
  assumes "1 \<le> m" "m \<le> 12"
  shows "0 \<le> days_before_month y m \<and> days_before_month y m \<le> 335"
proof -
  have "m \<in> {1, 2, 3, 4, 5, 6, 7, 8, 9, 10, 11, 12}"
    unfolding insert_iff empty_iff using assms by presburger
  then show ?thesis
    by (elim insertE emptyE) (simp_all add: days_before_month_def days_in_month_def upto.simps)
qed

text \<open>The years that 64-bit milliseconds reach fit the \<open>int\<close> of \<open>tm_year\<close>.\<close>

lemma civil_year_bounds:
  assumes "\<bar>days\<bar> \<le> 106751991169" and "civil_from_days days = (y, m, d)"
  shows "- 300000000 \<le> y \<and> y \<le> 300000000"
proof -
  have v: "valid_date y m d" and dfc: "days_from_civil y m d = days"
    using civil_from_days_correct [of days] assms(2) by simp_all
  have md: "0 \<le> days_before_month y m" "days_before_month y m \<le> 335" "1 \<le> d" "d \<le> 31"
    using v days_before_month_bounds [of m y]
    by (auto simp: valid_date_def days_in_month_def split: if_splits)
  have "days_before_year y + days_before_month y m + d - 1 = days"
    using dfc by (simp add: days_from_civil_def)
  moreover define a b c where "a = (y - 1) div 4" and "b = (y - 1) div 100" and "c = (y - 1) div 400"
  moreover have "4 * a \<le> y - 1" "y - 1 < 4 * a + 4" "100 * b \<le> y - 1" "y - 1 < 100 * b + 100"
    "400 * c \<le> y - 1" "y - 1 < 400 * c + 400"
    unfolding a_def b_def c_def by (rule div_bounds, simp)+
  ultimately show ?thesis
    using md abs_le_D1 [OF assms(1)] abs_le_D2 [OF assms(1)]
    unfolding days_before_year_def a_def [symmetric] b_def [symmetric] c_def [symmetric] right_diff_distrib
    by (intro conjI; linarith)
qed

section \<open>Timestamps\<close>

record tm =
  tm_year :: int
  tm_mon :: int
  tm_mday :: int
  tm_hour :: int
  tm_min :: int
  tm_sec :: int

text \<open>\<open>gmtime_r\<close> fails when the year does not fit the \<open>int\<close> of \<open>tm_year\<close>.\<close>

definition gmtime_r :: "int \<Rightarrow> tm option" where
  "gmtime_r seconds =
     (case civil_from_days (seconds div 86400) of (y, m, d) \<Rightarrow>
        let s = seconds mod 86400 in
        if - (2 ^ 31) \<le> y - 1900 \<and> y - 1900 < 2 ^ 31
        then Some \<lparr>tm_year = y - 1900, tm_mon = m - 1, tm_mday = d,
          tm_hour = s div 3600, tm_min = s mod 3600 div 60, tm_sec = s mod 60\<rparr>
        else None)"

text \<open>The text of \<open>MP_LOGGER_TIMESTAMP_FORMAT\<close>.\<close>

definition timestamp_text :: "int \<Rightarrow> int \<Rightarrow> int \<Rightarrow> int \<Rightarrow> int \<Rightarrow> int \<Rightarrow> int \<Rightarrow> string" where
  "timestamp_text y mo d h mi s ms =
     show_padded 4 y @ ''-'' @ show_padded 2 mo @ ''-'' @ show_padded 2 d @ ''T'' @
     show_padded 2 h @ '':'' @ show_padded 2 mi @ '':'' @ show_padded 2 s @ ''.'' @
     show_padded 3 ms @ ''Z''"

definition mp_logger_format_timestamp :: "int64_t \<Rightarrow> cbuf \<Rightarrow> nat \<Rightarrow> cbuf" where
  "mp_logger_format_timestamp unix_millis buffer capacity =
     (let seconds0 = sint unix_millis sdiv 1000;
          millis0 = sint unix_millis smod 1000
      in if capacity = 0 then buffer
         else
           let (millis, seconds) =
                 (if millis0 < 0 then (millis0 + 1000, seconds0 - 1) else (millis0, seconds0))
           in case gmtime_r seconds of
                None \<Rightarrow> snprintf buffer capacity ''1970-01-01T00:00:00.000Z''
              | Some utc_time \<Rightarrow>
                  snprintf buffer capacity
                    (timestamp_text (tm_year utc_time + 1900) (tm_mon utc_time + 1) (tm_mday utc_time)
                       (tm_hour utc_time) (tm_min utc_time) (tm_sec utc_time) millis))"

text \<open>\<open>strftime\<close> writes nothing and returns 0 when the text does not fit.\<close>

definition run_suffix_text :: "tm \<Rightarrow> string" where
  "run_suffix_text t =
     show_int (tm_year t + 1900) @ show_padded 2 (tm_mon t + 1) @ show_padded 2 (tm_mday t) @ ''T'' @
     show_padded 2 (tm_hour t) @ show_padded 2 (tm_min t) @ show_padded 2 (tm_sec t) @ ''Z''"

definition mp_logger_make_run_suffix :: "(int \<times> int) option \<Rightarrow> cbuf \<Rightarrow> nat \<Rightarrow> cbuf" where
  "mp_logger_make_run_suffix now buffer capacity =
     (let now_seconds = sint (mp_logger_now_millis now) sdiv 1000 in
      if capacity = 0 then buffer
      else case gmtime_r now_seconds of
             None \<Rightarrow> snprintf buffer capacity ''19700101T000000Z''
           | Some utc_time \<Rightarrow>
               let text = run_suffix_text utc_time in
               if length text < capacity then snprintf buffer capacity text
               else snprintf buffer capacity ''19700101T000000Z'')"

text \<open>The correction after the truncating division is the division that rounds down.\<close>

lemma floor_fixup:
  "(if x smod 1000 < 0 then (x smod 1000 + 1000, x sdiv 1000 - 1) else (x smod 1000, x sdiv 1000)) =
   (x mod 1000, x div 1000)" for x :: int
proof (cases "0 \<le> x")
  case True
  then have "x sdiv 1000 = x div 1000" "x smod 1000 = x mod 1000"
    by (cases "x = 0"; simp add: signed_divide_int_def signed_modulo_int_def)+
  then show ?thesis by simp
next
  case False
  define y where "y = - x"
  define q r where "q = y div 1000" and "r = y mod 1000"
  have y: "y = 1000 * q + r" "0 \<le> r" "r < 1000" "0 < y" using False by (simp_all add: q_def r_def y_def)
  then have s: "x sdiv 1000 = - q" "x smod 1000 = - r"
    using False by (simp_all add: signed_divide_int_def signed_modulo_int_def y_def q_def r_def)
  have x: "x = - (1000 * q + r)" using y by (simp add: y_def)
  show ?thesis
  proof (cases "r = 0")
    case True
    then show ?thesis unfolding s by (simp add: x)
  next
    case False
    have d: "x div 1000 = - q - 1"
      by (rule int_div_pos_eq [where r = "1000 - r"]) (use x y False in simp_all)
    then have "x mod 1000 = 1000 - r" using x by (simp add: minus_div_mult_eq_mod [symmetric])
    with d s y False show ?thesis by simp
  qed
qed

text \<open>The parts of an instant, and the instant they stand for.\<close>

definition instant_millis :: "int \<Rightarrow> int \<Rightarrow> int \<Rightarrow> int \<Rightarrow> int \<Rightarrow> int \<Rightarrow> int \<Rightarrow> int" where
  "instant_millis y mo d h mi s ms =
     (((days_from_civil y mo d * 24 + h) * 60 + mi) * 60 + s) * 1000 + ms"

definition valid_instant :: "int \<Rightarrow> int \<Rightarrow> int \<Rightarrow> int \<Rightarrow> int \<Rightarrow> int \<Rightarrow> int \<Rightarrow> bool" where
  "valid_instant y mo d h mi s ms \<longleftrightarrow>
     valid_date y mo d \<and> 0 \<le> h \<and> h < 24 \<and> 0 \<le> mi \<and> mi < 60 \<and> 0 \<le> s \<and> s < 60 \<and> 0 \<le> ms \<and> ms < 1000"

lemma gmtime_r_Some:
  assumes "\<bar>seconds\<bar> \<le> 9223372036854776"
  shows "\<exists>t. gmtime_r seconds = Some t \<and> - 300000000 \<le> tm_year t + 1900 \<and> tm_year t + 1900 \<le> 300000000 \<and>
    valid_date (tm_year t + 1900) (tm_mon t + 1) (tm_mday t) \<and>
    0 \<le> tm_hour t \<and> tm_hour t < 24 \<and> 0 \<le> tm_min t \<and> tm_min t < 60 \<and> 0 \<le> tm_sec t \<and> tm_sec t < 60 \<and>
    ((days_from_civil (tm_year t + 1900) (tm_mon t + 1) (tm_mday t) * 24 + tm_hour t) * 60 + tm_min t) * 60 +
      tm_sec t = seconds"
proof -
  define dy s where "dy = seconds div 86400" and "s = seconds mod 86400"
  obtain y m d where civil: "civil_from_days dy = (y, m, d)" by (cases "civil_from_days dy")
  have "86400 * dy \<le> seconds" "seconds < 86400 * dy + 86400"
    unfolding dy_def by (rule div_bounds, simp)+
  then have "\<bar>dy\<bar> \<le> 106751991169"
    using abs_le_D1 [OF assms] abs_le_D2 [OF assms] by (intro abs_leI; linarith)
  from civil_year_bounds [OF this civil] have y: "- 300000000 \<le> y" "y \<le> 300000000" by simp_all
  have v: "valid_date y m d" "days_from_civil y m d = dy"
    using civil_from_days_correct [of dy] civil by simp_all
  have s: "0 \<le> s" "s < 86400" "seconds = 86400 * dy + s" by (simp_all add: s_def dy_def)
  have hms: "0 \<le> s div 3600" "s div 3600 < 24" "0 \<le> s mod 3600 div 60" "s mod 3600 div 60 < 60"
    "0 \<le> s mod 60" "s mod 60 < 60" "(s div 3600 * 60 + s mod 3600 div 60) * 60 + s mod 60 = s"
  proof -
    show "0 \<le> s div 3600" "s div 3600 < 24" using s(1,2) by linarith+
    have "s mod 3600 mod 60 = s mod 60" by (rule mod_mod_cancel) simp
    moreover have "60 * (s mod 3600 div 60) + s mod 3600 mod 60 = s mod 3600" by simp
    moreover have "3600 * (s div 3600) + s mod 3600 = s" by simp
    ultimately show "(s div 3600 * 60 + s mod 3600 div 60) * 60 + s mod 60 = s"
      unfolding distrib_right by linarith
  qed simp_all
  define t where "t = \<lparr>tm_year = y - 1900, tm_mon = m - 1, tm_mday = d,
      tm_hour = s div 3600, tm_min = s mod 3600 div 60, tm_sec = s mod 60\<rparr>"
  have sel: "tm_year t + 1900 = y" "tm_mon t + 1 = m" "tm_mday t = d"
    "tm_hour t = s div 3600" "tm_min t = s mod 3600 div 60" "tm_sec t = s mod 60"
    by (simp_all add: t_def)
  have "gmtime_r seconds = Some t"
    using y by (simp add: gmtime_r_def civil Let_def t_def flip: dy_def s_def)
  moreover have "((dy * 24 + s div 3600) * 60 + s mod 3600 div 60) * 60 + s mod 60 = seconds"
    using hms(7) s(3) unfolding distrib_right by linarith
  ultimately show ?thesis
    using y hms(1-6) v by (intro exI [of _ t] conjI) (simp_all only: sel)
qed

lemma length_show_padded: "\<bar>i\<bar> < 10 ^ k \<Longrightarrow> 0 < k \<Longrightarrow> length (show_padded w i) \<le> max w k + 1"
proof -
  assume "\<bar>i\<bar> < 10 ^ k" "0 < k"
  then have "nat \<bar>i\<bar> < 10 ^ k" by (simp add: nat_less_iff)
  then have "length (show_nat (nat \<bar>i\<bar>)) \<le> k"
    using \<open>0 < k\<close> by (intro length_show_nat)
  then show ?thesis
    by (cases "i < 0") (auto simp: show_padded_def length_pad_zeros)
qed

lemma length_show_padded_exact: "0 \<le> i \<Longrightarrow> i < 10 ^ w \<Longrightarrow> 0 < w \<Longrightarrow> length (show_padded w i) = w"
proof -
  assume "0 \<le> i" "i < 10 ^ w" "0 < w"
  then have "nat i < 10 ^ w" by (simp add: nat_less_iff)
  then show ?thesis
    using length_show_nat [of w "nat i"] \<open>0 < w\<close> \<open>0 \<le> i\<close> by (simp add: show_padded_def length_pad_zeros)
qed

lemma show_padded_chars: "c \<in> set (show_padded w i) \<Longrightarrow> isdigit c \<or> c = CHR ''-''"
  by (auto simp: show_padded_def pad_zeros_def dest: show_nat_isdigit split: if_splits)

lemma timestamp_text_chars:
  "c \<in> set (timestamp_text y mo d h mi s ms) \<Longrightarrow>
   isdigit c \<or> c \<in> {CHR ''-'', CHR ''T'', CHR '':'', CHR ''.'', CHR ''Z''}"
  by (auto simp: timestamp_text_def dest!: show_padded_chars)

lemma NUL_notin_timestamp [simp]: "NUL \<notin> set (timestamp_text y mo d h mi s ms)"
  using timestamp_text_chars [of NUL] by auto

lemma length_timestamp_text:
  assumes "valid_instant y mo d h mi s ms" and "\<bar>y\<bar> < 10 ^ 9"
  shows "length (timestamp_text y mo d h mi s ms) \<le> 30"
proof -
  have "length (show_padded 2 i) = 2" if "0 \<le> i" "i < 60" for i
    using that length_show_padded_exact [of i 2] by simp
  moreover have "length (show_padded 3 ms) = 3"
    using assms(1) length_show_padded_exact [of ms 3] by (simp add: valid_instant_def)
  moreover have "1 \<le> mo" "mo \<le> 12" "1 \<le> d" "d \<le> 31"
    using assms(1) by (auto simp: valid_instant_def valid_date_def days_in_month_def split: if_splits)
  moreover have "length (show_padded 4 y) \<le> 10"
    using length_show_padded [OF assms(2), of 4] by simp
  ultimately show ?thesis
    using assms(1) by (simp add: timestamp_text_def valid_instant_def)
qed

lemma format_timestamp_text:
  obtains y mo d h mi s ms where
    "\<And>buffer capacity. mp_logger_format_timestamp unix_millis buffer capacity =
       snprintf buffer capacity (timestamp_text y mo d h mi s ms)"
    "valid_instant y mo d h mi s ms" "instant_millis y mo d h mi s ms = sint unix_millis"
    "length (timestamp_text y mo d h mi s ms) \<le> 30"
proof -
  define x where "x = sint unix_millis"
  have "- (2 ^ 63) \<le> x" "x < 2 ^ 63" unfolding x_def by (rule sint64_bounds)+
  moreover have "1000 * (x div 1000) \<le> x" "x < 1000 * (x div 1000) + 1000"
    by (rule div_bounds, simp)+
  ultimately have "\<bar>x div 1000\<bar> \<le> 9223372036854776"
    by (intro abs_leI; simp)
  then obtain t where t: "gmtime_r (x div 1000) = Some t"
    "- 300000000 \<le> tm_year t + 1900" "tm_year t + 1900 \<le> 300000000"
    "valid_date (tm_year t + 1900) (tm_mon t + 1) (tm_mday t)"
    "0 \<le> tm_hour t" "tm_hour t < 24" "0 \<le> tm_min t" "tm_min t < 60" "0 \<le> tm_sec t" "tm_sec t < 60"
    "((days_from_civil (tm_year t + 1900) (tm_mon t + 1) (tm_mday t) * 24 + tm_hour t) * 60 + tm_min t) * 60 +
      tm_sec t = x div 1000"
    by (elim gmtime_r_Some [THEN exE]) blast
  let ?text = "timestamp_text (tm_year t + 1900) (tm_mon t + 1) (tm_mday t) (tm_hour t) (tm_min t) (tm_sec t) (x mod 1000)"
  have eq: "mp_logger_format_timestamp unix_millis buffer capacity = snprintf buffer capacity ?text"
    for buffer capacity
    using t(1) unfolding mp_logger_format_timestamp_def Let_def x_def [symmetric] floor_fixup
    by (simp add: snprintf_def)
  have valid: "valid_instant (tm_year t + 1900) (tm_mon t + 1) (tm_mday t) (tm_hour t) (tm_min t) (tm_sec t) (x mod 1000)"
    using t(4-10) by (simp add: valid_instant_def)
  have "instant_millis (tm_year t + 1900) (tm_mon t + 1) (tm_mday t) (tm_hour t) (tm_min t) (tm_sec t) (x mod 1000) = x"
    unfolding instant_millis_def t(11) by simp
  moreover have "length ?text \<le> 30"
    using t(2,3) by (intro length_timestamp_text valid) (simp add: abs_if)
  ultimately show ?thesis
    using that [OF eq valid] by (simp add: x_def)
qed

section \<open>Properties\<close>

text \<open>
  C31: a timestamp names its instant. For every 64-bit number of milliseconds, negative ones
  included, the text in the 32-byte buffer is the untruncated RFC3339 text of a valid calendar
  date and time of day, and counting days, hours, minutes, seconds and milliseconds back from
  it gives the number of milliseconds.
\<close>

theorem format_timestamp_instant:
  assumes "length buffer = MP_LOGGER_TIMESTAMP_CAPACITY"
  shows "\<exists>y mo d h mi s ms.
    cstr (mp_logger_format_timestamp unix_millis buffer MP_LOGGER_TIMESTAMP_CAPACITY) =
      timestamp_text y mo d h mi s ms \<and>
    valid_instant y mo d h mi s ms \<and> instant_millis y mo d h mi s ms = sint unix_millis"
proof -
  obtain y mo d h mi s ms where t:
    "\<And>buffer capacity. mp_logger_format_timestamp unix_millis buffer capacity =
       snprintf buffer capacity (timestamp_text y mo d h mi s ms)"
    "valid_instant y mo d h mi s ms" "instant_millis y mo d h mi s ms = sint unix_millis"
    "length (timestamp_text y mo d h mi s ms) \<le> 30"
    by (rule format_timestamp_text [of unix_millis]) blast
  then have "cstr (mp_logger_format_timestamp unix_millis buffer MP_LOGGER_TIMESTAMP_CAPACITY) =
      timestamp_text y mo d h mi s ms"
    by (simp add: cstr_snprintf)
  with t(2,3) show ?thesis by blast
qed

theorem format_timestamp_instant_witness:
  "\<exists>y mo d h mi s ms.
    cstr (mp_logger_format_timestamp (- 1) (zeros 32) 32) = timestamp_text y mo d h mi s ms \<and>
    valid_instant y mo d h mi s ms \<and> instant_millis y mo d h mi s ms = - 1"
  using format_timestamp_instant [of "zeros 32" "- 1"] by simp

lemma run_suffix_chars: "c \<in> set (run_suffix_text t) \<Longrightarrow> file_safe c"
  by (auto simp: run_suffix_text_def show_int_def file_safe_def isalnum_def isupper_def char_code_def
      dest!: show_padded_chars show_nat_isdigit split: if_splits)

lemma NUL_not_file_safe [simp]: "\<not> file_safe NUL"
  by (simp add: file_safe_def)

text \<open>
  C32: whatever the clock reads, the run suffix is a text that can stand in a file name as it
  is: letters, digits, hyphen and underscore only, so that sanitizing does not change it.
\<close>

theorem run_suffix_file_safe:
  assumes "length buffer = MP_LOGGER_RUN_SUFFIX_CAPACITY"
  shows "list_all file_safe (cstr (mp_logger_make_run_suffix now buffer MP_LOGGER_RUN_SUFFIX_CAPACITY)) \<and>
    wf_array MP_LOGGER_RUN_SUFFIX_CAPACITY (mp_logger_make_run_suffix now buffer MP_LOGGER_RUN_SUFFIX_CAPACITY)"
proof -
  have safe: "list_all file_safe ''19700101T000000Z''"
    by (simp add: file_safe_def isalnum_def isupper_def isdigit_def char_code_def)
  have "\<exists>s. mp_logger_make_run_suffix now buffer 32 = snprintf buffer 32 s \<and> list_all file_safe s"
    using safe by (auto simp: mp_logger_make_run_suffix_def Let_def list_all_iff
        dest: run_suffix_chars split: option.split)
  then obtain s where s: "mp_logger_make_run_suffix now buffer 32 = snprintf buffer 32 s" "list_all file_safe s"
    by blast
  then have "NUL \<notin> set s" by (auto simp: list_all_iff)
  then have "cstr (snprintf buffer 32 s) = take 31 s"
    by (simp add: cstr_snprintf)
  moreover have "wf_array 32 (snprintf buffer 32 s)"
    using assms by (simp add: wf_array_def) (simp add: snprintf_def overwrite_0)
  ultimately show ?thesis
    using s by (simp add: list_all_take)
qed

theorem run_suffix_file_safe_witness:
  "list_all file_safe (cstr (mp_logger_make_run_suffix (Some (1700000000, 0)) (zeros 32) 32))"
  using run_suffix_file_safe [of "zeros 32" "Some (1700000000, 0)"] by simp

end
