(* ===== verification/Logger_Render.thy ===== *)
theory Logger_Render
  imports Logger_Time "HOL-Library.State_Monad"
begin

text \<open>
  Rendering (\<open>src/mp_logger_streams.c\<close>, \<open>mp_logger_render_record\<close> and its helpers).
  The code threads a buffer and the logical length \<open>used\<close> through its append functions: the
  state monad over that pair. Each function is proved to append a text (\<open>appends\<close>), so
  the rendered buffer is the line of the abstract specification cut to the capacity.
\<close>

section \<open>Appending to the render buffer\<close>

type_synonym render = "(cbuf \<times> size_t, unit) state"

definition mp_logger_append_char :: "size_t \<Rightarrow> char \<Rightarrow> render" where
  "mp_logger_append_char capacity v =
     State (\<lambda>(buffer, used).
       ((), if capacity > 0 \<and> used + 1 < capacity then buffer[unat used := v] else buffer, used + 1))"

fun append_string_loop :: "size_t \<Rightarrow> cbuf \<Rightarrow> render" where
  "append_string_loop capacity [] = State_Monad.return ()"
| "append_string_loop capacity (c # cs) =
     (if c = NUL then State_Monad.return ()
      else do {
        mp_logger_append_char capacity c;
        append_string_loop capacity cs
      })"

definition mp_logger_append_string :: "size_t \<Rightarrow> cbuf option \<Rightarrow> render" where
  "mp_logger_append_string capacity v =
     (case v of None \<Rightarrow> State_Monad.return () | Some s \<Rightarrow> append_string_loop capacity s)"

definition append_json_char :: "size_t \<Rightarrow> char \<Rightarrow> render" where
  "append_json_char capacity c =
     (if c = CHR 0x5C then mp_logger_append_string capacity (Some [CHR 0x5C, CHR 0x5C])
      else if c = CHR 0x22 then mp_logger_append_string capacity (Some [CHR 0x5C, CHR 0x22])
      else if c = CHR 0x0A then mp_logger_append_string capacity (Some [CHR 0x5C, CHR ''n''])
      else if c = CHR 0x0D then mp_logger_append_string capacity (Some [CHR 0x5C, CHR ''r''])
      else if c = CHR 0x09 then mp_logger_append_string capacity (Some [CHR 0x5C, CHR ''t''])
      else if char_code c < 0x20
      then mp_logger_append_string capacity
        (Some (snprintf (zeros MP_LOGGER_JSON_UNICODE_ESCAPE_CAPACITY) MP_LOGGER_JSON_UNICODE_ESCAPE_CAPACITY
          (CHR 0x5C # CHR ''u'' # show_hex4 (char_code c))))
      else mp_logger_append_char capacity c)"

fun append_json_loop :: "size_t \<Rightarrow> cbuf \<Rightarrow> render" where
  "append_json_loop capacity [] = State_Monad.return ()"
| "append_json_loop capacity (c # cs) =
     (if c = NUL then State_Monad.return ()
      else do {
        append_json_char capacity c;
        append_json_loop capacity cs
      })"

definition mp_logger_append_json_escaped :: "size_t \<Rightarrow> cbuf option \<Rightarrow> render" where
  "mp_logger_append_json_escaped capacity v =
     (case v of None \<Rightarrow> State_Monad.return () | Some s \<Rightarrow> append_json_loop capacity s)"

definition append_text_char :: "size_t \<Rightarrow> char \<Rightarrow> render" where
  "append_text_char capacity c =
     (if c = CHR 0x5C then mp_logger_append_string capacity (Some [CHR 0x5C, CHR 0x5C])
      else if c = CHR 0x22 then mp_logger_append_string capacity (Some [CHR 0x5C, CHR 0x22])
      else if c = CHR 0x0A then mp_logger_append_string capacity (Some [CHR 0x5C, CHR ''n''])
      else if c = CHR 0x0D then mp_logger_append_string capacity (Some [CHR 0x5C, CHR ''r''])
      else if c = CHR 0x09 then mp_logger_append_string capacity (Some [CHR 0x5C, CHR ''t''])
      else if iscntrl c then mp_logger_append_char capacity CHR ''?''
      else mp_logger_append_char capacity c)"

fun append_text_loop :: "size_t \<Rightarrow> cbuf \<Rightarrow> render" where
  "append_text_loop capacity [] = State_Monad.return ()"
| "append_text_loop capacity (c # cs) =
     (if c = NUL then State_Monad.return ()
      else do {
        append_text_char capacity c;
        append_text_loop capacity cs
      })"

definition mp_logger_append_text_escaped :: "size_t \<Rightarrow> cbuf option \<Rightarrow> render" where
  "mp_logger_append_text_escaped capacity v =
     (case v of None \<Rightarrow> State_Monad.return () | Some s \<Rightarrow> append_text_loop capacity s)"

definition mp_logger_append_json_key :: "size_t \<Rightarrow> string \<Rightarrow> render" where
  "mp_logger_append_json_key capacity key =
     do {
       mp_logger_append_char capacity CHR 0x22;
       mp_logger_append_string capacity (Some key);
       mp_logger_append_char capacity CHR 0x22
     }"

abbreviation (input) number_text :: "string \<Rightarrow> cbuf" where
  "number_text s \<equiv> snprintf (zeros MP_LOGGER_NUMBER_TEXT_CAPACITY) MP_LOGGER_NUMBER_TEXT_CAPACITY s"

definition mp_logger_append_json_field_value :: "size_t \<Rightarrow> mp_log_field option \<Rightarrow> render" where
  "mp_logger_append_json_field_value capacity field_ptr =
     (case field_ptr of
        None \<Rightarrow> State_Monad.return ()
      | Some field \<Rightarrow>
          (case field_value field of
             MP_LOG_FIELD_STRING v \<Rightarrow>
               do {
                 mp_logger_append_char capacity CHR 0x22;
                 mp_logger_append_json_escaped capacity (Some (case v of None \<Rightarrow> [] | Some s \<Rightarrow> s));
                 mp_logger_append_char capacity CHR 0x22
               }
           | MP_LOG_FIELD_BOOL b \<Rightarrow> mp_logger_append_string capacity (Some (if b then ''true'' else ''false''))
           | MP_LOG_FIELD_INT64 w \<Rightarrow> mp_logger_append_string capacity (Some (number_text (show_int64 w)))
           | MP_LOG_FIELD_UINT64 w \<Rightarrow> mp_logger_append_string capacity (Some (number_text (show_uint64 w)))
           | MP_LOG_FIELD_FLOAT64 w \<Rightarrow> mp_logger_append_string capacity (Some (number_text (show_g17 w)))
           | Field_Other _ \<Rightarrow> State_Monad.return ()))"

definition mp_logger_append_text_field_value :: "size_t \<Rightarrow> mp_log_field option \<Rightarrow> render" where
  "mp_logger_append_text_field_value capacity field_ptr =
     (case field_ptr of
        None \<Rightarrow> State_Monad.return ()
      | Some field \<Rightarrow>
          (case field_value field of
             MP_LOG_FIELD_STRING v \<Rightarrow>
               do {
                 mp_logger_append_char capacity CHR 0x22;
                 mp_logger_append_text_escaped capacity (Some (case v of None \<Rightarrow> [] | Some s \<Rightarrow> s));
                 mp_logger_append_char capacity CHR 0x22
               }
           | MP_LOG_FIELD_BOOL b \<Rightarrow> mp_logger_append_string capacity (Some (if b then ''true'' else ''false''))
           | MP_LOG_FIELD_INT64 w \<Rightarrow> mp_logger_append_string capacity (Some (number_text (show_int64 w)))
           | MP_LOG_FIELD_UINT64 w \<Rightarrow> mp_logger_append_string capacity (Some (number_text (show_uint64 w)))
           | MP_LOG_FIELD_FLOAT64 w \<Rightarrow> mp_logger_append_string capacity (Some (number_text (show_g17 w)))
           | Field_Other _ \<Rightarrow> State_Monad.return ()))"

definition mp_logger_finalize_buffer :: "cbuf \<Rightarrow> size_t \<Rightarrow> size_t \<Rightarrow> cbuf" where
  "mp_logger_finalize_buffer buffer capacity used =
     (if capacity = 0 then buffer
      else let used' = (if used \<ge> capacity then capacity - 1 else used) in buffer[unat used' := NUL])"

section \<open>Rendering a record\<close>

fun append_json_fields :: "size_t \<Rightarrow> string \<Rightarrow> string \<Rightarrow> mp_log_field list \<Rightarrow> render" where
  "append_json_fields capacity separator colon [] = State_Monad.return ()"
| "append_json_fields capacity separator colon (field # fs) =
     do {
       mp_logger_append_string capacity (Some separator);
       mp_logger_append_char capacity CHR 0x22;
       mp_logger_append_json_escaped capacity (field_key field);
       mp_logger_append_char capacity CHR 0x22;
       mp_logger_append_string capacity (Some colon);
       mp_logger_append_json_field_value capacity (Some field);
       append_json_fields capacity separator colon fs
     }"

fun append_text_fields :: "size_t \<Rightarrow> mp_log_field list \<Rightarrow> render" where
  "append_text_fields capacity [] = State_Monad.return ()"
| "append_text_fields capacity (field # fs) =
     do {
       mp_logger_append_char capacity CHR '' '';
       mp_logger_append_string capacity (field_key field);
       mp_logger_append_char capacity CHR ''='';
       mp_logger_append_text_field_value capacity (Some field);
       append_text_fields capacity fs
     }"

text \<open>\<open>record->context_text != NULL && record->context_text[0] != '\0'\<close>.\<close>

definition has_context :: "mp_log_record \<Rightarrow> bool" where
  "has_context r = (case context_text r of None \<Rightarrow> False | Some s \<Rightarrow> cstr s \<noteq> [])"

definition render_json :: "size_t \<Rightarrow> mp_logger_config \<Rightarrow> mp_log_record \<Rightarrow> cbuf \<Rightarrow> render" where
  "render_json capacity config record timestamp =
     (let separator = (if pretty_output config then '', '' else '','');
          colon = (if pretty_output config then '': '' else '':'') in
      do {
        mp_logger_append_char capacity CHR ''{'';
        mp_logger_append_json_key capacity ''ts'';
        mp_logger_append_string capacity (Some colon);
        mp_logger_append_char capacity CHR 0x22;
        mp_logger_append_json_escaped capacity (Some timestamp);
        mp_logger_append_char capacity CHR 0x22;
        mp_logger_append_string capacity (Some separator);
        mp_logger_append_json_key capacity ''level'';
        mp_logger_append_string capacity (Some colon);
        mp_logger_append_char capacity CHR 0x22;
        mp_logger_append_json_escaped capacity (Some (mp_log_level_name (level record)));
        mp_logger_append_char capacity CHR 0x22;
        mp_logger_append_string capacity (Some separator);
        mp_logger_append_json_key capacity ''service'';
        mp_logger_append_string capacity (Some colon);
        mp_logger_append_char capacity CHR 0x22;
        mp_logger_append_json_escaped capacity (Some (service_name config));
        mp_logger_append_char capacity CHR 0x22;
        mp_logger_append_string capacity (Some separator);
        mp_logger_append_json_key capacity ''environment'';
        mp_logger_append_string capacity (Some colon);
        mp_logger_append_char capacity CHR 0x22;
        mp_logger_append_json_escaped capacity (Some (environment_name config));
        mp_logger_append_char capacity CHR 0x22;
        mp_logger_append_string capacity (Some separator);
        mp_logger_append_json_key capacity ''sequence_id'';
        mp_logger_append_string capacity (Some colon);
        mp_logger_append_string capacity (Some [CHR 0x22]);
        mp_logger_append_string capacity
          (Some (snprintf (zeros MP_LOGGER_SEQUENCE_TEXT_CAPACITY) MP_LOGGER_SEQUENCE_TEXT_CAPACITY
            (show_uint64 (sequence_id record))));
        mp_logger_append_string capacity (Some [CHR 0x22]);
        mp_logger_append_string capacity (Some separator);
        mp_logger_append_json_key capacity ''message'';
        mp_logger_append_string capacity (Some colon);
        mp_logger_append_char capacity CHR 0x22;
        mp_logger_append_json_escaped capacity (message record);
        mp_logger_append_char capacity CHR 0x22;
        (if has_context record
         then do {
           mp_logger_append_string capacity (Some separator);
           mp_logger_append_json_key capacity ''context'';
           mp_logger_append_string capacity (Some colon);
           mp_logger_append_char capacity CHR 0x22;
           mp_logger_append_json_escaped capacity (context_text record);
           mp_logger_append_char capacity CHR 0x22
         }
         else State_Monad.return ());
        (case record_fields record of
           None \<Rightarrow> State_Monad.return ()
         | Some fs \<Rightarrow> append_json_fields capacity separator colon fs);
        mp_logger_append_char capacity CHR ''}''
      })"

definition render_text :: "size_t \<Rightarrow> mp_logger_config \<Rightarrow> mp_log_record \<Rightarrow> cbuf \<Rightarrow> render" where
  "render_text capacity config record timestamp =
     do {
       mp_logger_append_string capacity (Some timestamp);
       mp_logger_append_string capacity (Some '' '');
       mp_logger_append_string capacity (Some ''level'');
       mp_logger_append_string capacity (Some ''='');
       mp_logger_append_string capacity (Some (mp_log_level_name (level record)));
       mp_logger_append_string capacity (Some '' '');
       mp_logger_append_string capacity (Some ''service'');
       mp_logger_append_string capacity (Some [CHR ''='', CHR 0x22]);
       mp_logger_append_text_escaped capacity (Some (service_name config));
       mp_logger_append_string capacity (Some [CHR 0x22, CHR '' '']);
       mp_logger_append_string capacity (Some ''environment'');
       mp_logger_append_string capacity (Some [CHR ''='', CHR 0x22]);
       mp_logger_append_text_escaped capacity (Some (environment_name config));
       mp_logger_append_string capacity (Some [CHR 0x22, CHR '' '']);
       mp_logger_append_string capacity (Some ''sequence_id'');
       mp_logger_append_string capacity (Some [CHR ''='', CHR 0x22]);
       mp_logger_append_string capacity
         (Some (snprintf (zeros MP_LOGGER_SEQUENCE_TEXT_CAPACITY) MP_LOGGER_SEQUENCE_TEXT_CAPACITY
           (show_uint64 (sequence_id record))));
       mp_logger_append_string capacity (Some [CHR 0x22, CHR '' '']);
       mp_logger_append_string capacity (Some ''message'');
       mp_logger_append_string capacity (Some [CHR ''='', CHR 0x22]);
       mp_logger_append_text_escaped capacity (message record);
       mp_logger_append_char capacity CHR 0x22;
       (if has_context record
        then do {
          mp_logger_append_string capacity (Some '' '');
          mp_logger_append_string capacity (Some ''context'');
          mp_logger_append_string capacity (Some [CHR ''='', CHR 0x22]);
          mp_logger_append_text_escaped capacity (context_text record);
          mp_logger_append_char capacity CHR 0x22
        }
        else State_Monad.return ());
       (case record_fields record of
          None \<Rightarrow> State_Monad.return ()
        | Some fs \<Rightarrow> append_text_fields capacity fs)
     }"

text \<open>
  \<open>mp_logger_render_record\<close>: the buffer it leaves and the number it returns. Of the logger it
  reads the configuration; the array \<open>timestamp\<close> is uninitialised in the code.
\<close>

definition mp_logger_render_record ::
    "mp_logger_config option \<Rightarrow> mp_log_record option \<Rightarrow> cbuf \<Rightarrow> size_t \<Rightarrow> cbuf \<times> nat" where
  "mp_logger_render_record logger record_ptr buffer capacity =
     (case (logger, record_ptr) of
        (Some config, Some record) \<Rightarrow>
          if capacity = 0 then (buffer, 0)
          else
            let timestamp = mp_logger_format_timestamp (unix_epoch_millis record)
                  (zeros MP_LOGGER_TIMESTAMP_CAPACITY) MP_LOGGER_TIMESTAMP_CAPACITY;
                (buffer', used) = snd (run_state
                  (if format config = MP_LOG_FORMAT_JSON
                   then render_json capacity config record timestamp
                   else render_text capacity config record timestamp) (buffer, 0));
                final_buffer = mp_logger_finalize_buffer buffer' capacity used
            in (final_buffer, strlen final_buffer)
      | _ \<Rightarrow> (buffer, 0))"

section \<open>What is rendered\<close>

text \<open>The texts that the escapes stand for, and the lines built from them.\<close>

definition json_char :: "char \<Rightarrow> string" where
  "json_char c =
     (if c = CHR 0x5C then [CHR 0x5C, CHR 0x5C]
      else if c = CHR 0x22 then [CHR 0x5C, CHR 0x22]
      else if c = CHR 0x0A then [CHR 0x5C, CHR ''n'']
      else if c = CHR 0x0D then [CHR 0x5C, CHR ''r'']
      else if c = CHR 0x09 then [CHR 0x5C, CHR ''t'']
      else if char_code c < 0x20 then CHR 0x5C # CHR ''u'' # show_hex4 (char_code c)
      else [c])"

definition text_char :: "char \<Rightarrow> string" where
  "text_char c =
     (if c = CHR 0x5C then [CHR 0x5C, CHR 0x5C]
      else if c = CHR 0x22 then [CHR 0x5C, CHR 0x22]
      else if c = CHR 0x0A then [CHR 0x5C, CHR ''n'']
      else if c = CHR 0x0D then [CHR 0x5C, CHR ''r'']
      else if c = CHR 0x09 then [CHR 0x5C, CHR ''t'']
      else if iscntrl c then ''?''
      else [c])"

abbreviation json_escape :: "string \<Rightarrow> string" where
  "json_escape s \<equiv> concat (map json_char s)"

abbreviation text_escape :: "string \<Rightarrow> string" where
  "text_escape s \<equiv> concat (map text_char s)"

text \<open>The string of a pointer that may be \<open>NULL\<close>.\<close>

definition ostr :: "cbuf option \<Rightarrow> string" where
  "ostr v = (case v of None \<Rightarrow> [] | Some s \<Rightarrow> cstr s)"

definition quoted :: "string \<Rightarrow> string" where
  "quoted s = CHR 0x22 # s @ [CHR 0x22]"

fun value_text :: "(string \<Rightarrow> string) \<Rightarrow> mp_log_field_value \<Rightarrow> string" where
  "value_text escape (MP_LOG_FIELD_STRING v) = quoted (escape (ostr v))"
| "value_text escape (MP_LOG_FIELD_BOOL b) = (if b then ''true'' else ''false'')"
| "value_text escape (MP_LOG_FIELD_INT64 w) = show_int64 w"
| "value_text escape (MP_LOG_FIELD_UINT64 w) = show_uint64 w"
| "value_text escape (MP_LOG_FIELD_FLOAT64 w) = show_g17 w"
| "value_text escape (Field_Other _) = []"

definition timestamp_of :: "mp_log_record \<Rightarrow> string" where
  "timestamp_of r =
     cstr (mp_logger_format_timestamp (unix_epoch_millis r) (zeros MP_LOGGER_TIMESTAMP_CAPACITY)
       MP_LOGGER_TIMESTAMP_CAPACITY)"

definition fields_of :: "mp_log_record \<Rightarrow> mp_log_field list" where
  "fields_of r = (case record_fields r of None \<Rightarrow> [] | Some fs \<Rightarrow> fs)"

text \<open>The members of the JSON object: keys and rendered values, in order.\<close>

definition json_members :: "mp_logger_config \<Rightarrow> mp_log_record \<Rightarrow> (string \<times> string) list" where
  "json_members config r =
     [(''ts'', quoted (json_escape (timestamp_of r))),
      (''level'', quoted (json_escape (mp_log_level_name (level r)))),
      (''service'', quoted (json_escape (cstr (service_name config)))),
      (''environment'', quoted (json_escape (cstr (environment_name config)))),
      (''sequence_id'', quoted (show_uint64 (sequence_id r))),
      (''message'', quoted (json_escape (ostr (message r))))] @
     (if has_context r then [(''context'', quoted (json_escape (ostr (context_text r))))] else []) @
     map (\<lambda>f. (json_escape (ostr (field_key f)), value_text json_escape (field_value f))) (fields_of r)"

definition member_text :: "string \<Rightarrow> string \<times> string \<Rightarrow> string" where
  "member_text colon m = quoted (fst m) @ colon @ snd m"

fun join_with :: "string \<Rightarrow> string list \<Rightarrow> string" where
  "join_with sep [] = []"
| "join_with sep (p # ps) = p @ concat (map (\<lambda>q. sep @ q) ps)"

definition json_line :: "mp_logger_config \<Rightarrow> mp_log_record \<Rightarrow> string" where
  "json_line config r =
     (let separator = (if pretty_output config then '', '' else '','');
          colon = (if pretty_output config then '': '' else '':'') in
      ''{'' @ join_with separator (map (member_text colon) (json_members config r)) @ ''}'')"

definition text_line :: "mp_logger_config \<Rightarrow> mp_log_record \<Rightarrow> string" where
  "text_line config r =
     timestamp_of r @ '' level='' @ mp_log_level_name (level r) @
     '' service='' @ quoted (text_escape (cstr (service_name config))) @
     '' environment='' @ quoted (text_escape (cstr (environment_name config))) @
     '' sequence_id='' @ quoted (show_uint64 (sequence_id r)) @
     '' message='' @ quoted (text_escape (ostr (message r))) @
     (if has_context r then '' context='' @ quoted (text_escape (ostr (context_text r))) else []) @
     concat (map (\<lambda>f. '' '' @ ostr (field_key f) @ ''='' @ value_text text_escape (field_value f)) (fields_of r))"

definition record_line :: "mp_logger_config \<Rightarrow> mp_log_record \<Rightarrow> string" where
  "record_line config r = (if format config = MP_LOG_FORMAT_JSON then json_line config r else text_line config r)"

section \<open>The append functions append\<close>

text \<open>
  The operation \<open>m\<close> appends the text \<open>s\<close>: it writes the part of it that leaves room for the
  terminator and advances the logical length by all of it.
\<close>

definition appends :: "size_t \<Rightarrow> render \<Rightarrow> string \<Rightarrow> bool" where
  "appends capacity m s \<longleftrightarrow>
     (\<forall>buffer used. unat capacity \<le> length buffer \<longrightarrow> unat used + length s < 2 ^ 64 - 1 \<longrightarrow>
        run_state m (buffer, used) =
          ((), overwrite buffer (unat used) (take (unat capacity - 1 - unat used) s),
           used + of_nat (length s)))"

named_theorems appends_intros \<open>what the append functions append\<close>

lemma overwrite_overwrite:
  assumes "p + length s \<le> length b"
  shows "overwrite (overwrite b p s) (p + length s) t = overwrite b p (s @ t)"
proof -
  have "p \<le> length b" using assms by simp
  then show ?thesis
    using assms by (cases s) (auto simp: overwrite_def min_def add.commute add.left_commute)
qed

lemma appends_return [appends_intros]: "appends capacity (State_Monad.return ()) []"
  by (simp add: appends_def)

lemma unat_add_of_nat: "unat (w :: size_t) + n < 2 ^ 64 \<Longrightarrow> unat (w + of_nat n) = unat w + n"
  by (simp add: unat_word_ariths unat_of_nat)

lemma appends_bind [appends_intros]:
  assumes "appends capacity m s" and "appends capacity m' t"
  shows "appends capacity (do { m; m' }) (s @ t)"
  unfolding appends_def
proof (intro allI impI)
  fix buffer :: cbuf and used :: size_t
  assume cap: "unat capacity \<le> length buffer" and fits: "unat used + length (s @ t) < 2 ^ 64 - 1"
  let ?u = "unat used" and ?c = "unat capacity - 1"
  have m: "run_state m (buffer, used) = ((), overwrite buffer ?u (take (?c - ?u) s), used + of_nat (length s))"
    using assms(1) cap fits by (simp add: appends_def)
  have len: "length (overwrite buffer ?u (take (?c - ?u) s)) = length buffer"
  proof (cases "?u \<le> ?c")
    case True
    then show ?thesis using cap by (intro length_overwrite) simp
  qed simp
  have u: "unat (used + of_nat (length s)) = ?u + length s"
    using fits by (intro unat_add_of_nat) simp
  have m': "run_state m' (overwrite buffer ?u (take (?c - ?u) s), used + of_nat (length s)) =
      ((), overwrite (overwrite buffer ?u (take (?c - ?u) s)) (?u + length s) (take (?c - (?u + length s)) t),
       used + of_nat (length s) + of_nat (length t))"
    using assms(2) cap fits len unfolding appends_def by (simp add: u)
  have "overwrite (overwrite buffer ?u (take (?c - ?u) s)) (?u + length s) (take (?c - (?u + length s)) t) =
      overwrite buffer ?u (take (?c - ?u) (s @ t))"
  proof (cases "?u + length s \<le> ?c")
    case True
    then have "overwrite (overwrite buffer ?u s) (?u + length s) (take (?c - (?u + length s)) t) =
        overwrite buffer ?u (s @ take (?c - (?u + length s)) t)"
      using cap by (intro overwrite_overwrite) simp
    with True show ?thesis by simp
  next
    case False
    then show ?thesis by simp
  qed
  with m m' show "run_state (do { m; m' }) (buffer, used) =
      ((), overwrite buffer ?u (take (?c - ?u) (s @ t)), used + of_nat (length (s @ t)))"
    by simp
qed

lemma appends_char [appends_intros]: "appends capacity (mp_logger_append_char capacity c) [c]"
  unfolding appends_def
proof (intro allI impI)
  fix buffer :: cbuf and used :: size_t
  assume cap: "unat capacity \<le> length buffer" and fits: "unat used + length [c] < 2 ^ 64 - 1"
  have u: "unat (used + 1) = unat used + 1"
    using fits by (intro unat_plus_one) simp
  have guard: "capacity > 0 \<and> used + 1 < capacity \<longleftrightarrow> unat used < unat capacity - 1"
    using u by (auto simp: word_less_nat_alt)
  show "run_state (mp_logger_append_char capacity c) (buffer, used) =
      ((), overwrite buffer (unat used) (take (unat capacity - 1 - unat used) [c]), used + of_nat (length [c]))"
  proof (cases "unat used < unat capacity - 1")
    case True
    then have "buffer[unat used := c] = overwrite buffer (unat used) [c]"
      using cap by (intro list_update_as_overwrite) simp
    moreover have "take (unat capacity - 1 - unat used) [c] = [c]"
      using True by (cases "unat capacity - 1 - unat used") simp_all
    ultimately show ?thesis
      using True guard by (simp add: mp_logger_append_char_def)
  next
    case False
    then show ?thesis
      using guard by (auto simp: mp_logger_append_char_def)
  qed
qed

lemma appends_string_loop: "appends capacity (append_string_loop capacity s) (cstr s)"
proof (induction s)
  case Nil
  then show ?case by (simp add: appends_return)
next
  case (Cons c s)
  then show ?case
    using appends_bind [OF appends_char [of capacity c] Cons] by (simp add: cstr_Cons appends_return)
qed

lemma appends_string [appends_intros]: "appends capacity (mp_logger_append_string capacity v) (ostr v)"
  by (cases v) (simp_all add: mp_logger_append_string_def ostr_def appends_return appends_string_loop)

lemma appends_string_id:
  "NUL \<notin> set s \<Longrightarrow> appends capacity (mp_logger_append_string capacity (Some s)) s"
  using appends_string [of capacity "Some s"] by (simp add: ostr_def cstr_id)

lemma digit_char_not_NUL: "isdigit c \<Longrightarrow> c \<noteq> NUL"
  by auto

lemma hex_char_not_NUL [simp]: "d < 16 \<Longrightarrow> NUL \<noteq> hex_char d"
proof -
  assume "d < 16"
  then have "0 < char_code (hex_char d)"
    by (simp add: hex_char_def)
  moreover have "char_code NUL = 0" by (simp add: char_code_def)
  ultimately show ?thesis by (metis less_irrefl)
qed

lemma appends_json_char: "c \<noteq> NUL \<Longrightarrow> appends capacity (append_json_char capacity c) (json_char c)"
proof -
  assume c: "c \<noteq> NUL"
  have hex: "NUL \<notin> set (CHR 0x5C # CHR ''u'' # show_hex4 n)" for n
    by (simp add: show_hex4_def)
  have "appends capacity (mp_logger_append_string capacity (Some (snprintf (zeros 7) 7 (CHR 0x5C # CHR ''u'' # show_hex4 n))))
      (CHR 0x5C # CHR ''u'' # show_hex4 n)" for n
  proof -
    have "cstr (snprintf (zeros 7) 7 (CHR 0x5C # CHR ''u'' # show_hex4 n)) = CHR 0x5C # CHR ''u'' # show_hex4 n"
      using hex [of n] by (subst cstr_snprintf) (simp_all add: show_hex4_def)
    then show ?thesis
      using appends_string [of capacity "Some (snprintf (zeros 7) 7 (CHR 0x5C # CHR ''u'' # show_hex4 n))"]
      by (simp add: ostr_def)
  qed
  then show ?thesis
    by (simp add: append_json_char_def json_char_def appends_string_id appends_char)
qed

lemma appends_text_char: "c \<noteq> NUL \<Longrightarrow> appends capacity (append_text_char capacity c) (text_char c)"
  by (simp add: append_text_char_def text_char_def appends_string_id appends_char)

lemma appends_json_loop: "appends capacity (append_json_loop capacity s) (json_escape (cstr s))"
proof (induction s)
  case Nil
  then show ?case by (simp add: appends_return)
next
  case (Cons c s)
  then show ?case
    using appends_bind [OF appends_json_char Cons] by (simp add: cstr_Cons appends_return)
qed

lemma appends_text_loop: "appends capacity (append_text_loop capacity s) (text_escape (cstr s))"
proof (induction s)
  case Nil
  then show ?case by (simp add: appends_return)
next
  case (Cons c s)
  then show ?case
    using appends_bind [OF appends_text_char Cons] by (simp add: cstr_Cons appends_return)
qed

lemma appends_json_escaped [appends_intros]:
  "appends capacity (mp_logger_append_json_escaped capacity v) (json_escape (ostr v))"
  by (cases v) (simp_all add: mp_logger_append_json_escaped_def ostr_def appends_return appends_json_loop)

lemma appends_text_escaped [appends_intros]:
  "appends capacity (mp_logger_append_text_escaped capacity v) (text_escape (ostr v))"
  by (cases v) (simp_all add: mp_logger_append_text_escaped_def ostr_def appends_return appends_text_loop)

lemma number_text_fits:
  "length s < n \<Longrightarrow> NUL \<notin> set s \<Longrightarrow> cstr (snprintf dest n s) = s"
  by (simp add: cstr_snprintf)

lemma NUL_notin_show_nat [simp]: "NUL \<notin> set (show_nat n)"
  by (rule digits_no_NUL [OF show_nat_digits])

lemma NUL_notin_show_uint64 [simp]: "NUL \<notin> set (show_uint64 w)"
  and NUL_notin_show_int64 [simp]: "NUL \<notin> set (show_int64 w)"
  by (simp_all add: show_uint64_def show_int64_def show_int_def)

lemma NUL_notin_show_g17 [simp]: "NUL \<notin> set (show_g17 w)"
proof -
  have "NUL \<notin> set s" if "list_all number_char s" for s
    using that by (auto simp: list_all_iff number_char_def)
  then show ?thesis
    by (auto simp: show_g17_def Let_def number_chars_magnitude)
qed

lemma cstr_number_text [simp]:
  "cstr (number_text (show_int64 w)) = show_int64 w"
  "cstr (number_text (show_uint64 w)) = show_uint64 w"
  "cstr (number_text (show_g17 w)) = show_g17 w"
  "cstr (snprintf (zeros 32) 32 (show_uint64 w)) = show_uint64 w"
  using length_show_int64 [of w] length_show_uint64 [of w] length_show_g17 [of w]
  by (simp_all add: number_text_fits)

lemma appends_number:
  "cstr s = t \<Longrightarrow> appends capacity (mp_logger_append_string capacity (Some s)) t"
  using appends_string [of capacity "Some s"] by (simp add: ostr_def)

text \<open>A quoted text, character by character.\<close>

lemma appends_quoted:
  assumes "appends capacity m s"
  shows "appends capacity (do { mp_logger_append_char capacity CHR 0x22; m; mp_logger_append_char capacity CHR 0x22 })
    (quoted s)"
proof -
  have "quoted s = [CHR 0x22] @ s @ [CHR 0x22]" by (simp add: quoted_def)
  then show ?thesis
    by (simp only:) (intro appends_bind appends_char assms)
qed

lemma ostr_Some_case: "ostr (Some (case v of None \<Rightarrow> [] | Some s \<Rightarrow> s)) = ostr v"
  by (cases v) (simp_all add: ostr_def)

lemma appends_json_value [appends_intros]:
  "appends capacity (mp_logger_append_json_field_value capacity (Some f)) (value_text json_escape (field_value f))"
proof (cases "field_value f")
  case (MP_LOG_FIELD_STRING v)
  then show ?thesis
    using appends_quoted [OF appends_json_escaped [of capacity "Some (case v of None \<Rightarrow> [] | Some s \<Rightarrow> s)"]]
    by (simp add: mp_logger_append_json_field_value_def ostr_Some_case)
qed (simp_all add: mp_logger_append_json_field_value_def appends_number appends_string_id appends_return)

lemma appends_text_value [appends_intros]:
  "appends capacity (mp_logger_append_text_field_value capacity (Some f)) (value_text text_escape (field_value f))"
proof (cases "field_value f")
  case (MP_LOG_FIELD_STRING v)
  then show ?thesis
    using appends_quoted [OF appends_text_escaped [of capacity "Some (case v of None \<Rightarrow> [] | Some s \<Rightarrow> s)"]]
    by (simp add: mp_logger_append_text_field_value_def ostr_Some_case)
qed (simp_all add: mp_logger_append_text_field_value_def appends_number appends_string_id appends_return)

lemma appends_eq: "appends capacity m s \<Longrightarrow> s = t \<Longrightarrow> appends capacity m t"
  by simp

lemma appends_if [appends_intros]:
  "appends capacity m s \<Longrightarrow> appends capacity m' t \<Longrightarrow> appends capacity (if b then m else m') (if b then s else t)"
  by simp

lemma appends_json_key [appends_intros]:
  "appends capacity (mp_logger_append_json_key capacity key) (quoted (cstr key))"
  unfolding mp_logger_append_json_key_def
  using appends_quoted [OF appends_string [of capacity "Some key"]] by (simp add: ostr_def)

lemma appends_json_fields:
  "appends capacity (append_json_fields capacity separator colon fs)
    (concat (map (\<lambda>f. cstr separator @ member_text (cstr colon)
       (json_escape (ostr (field_key f)), value_text json_escape (field_value f))) fs))"
proof (induction fs)
  case Nil
  then show ?case by (simp add: appends_return)
next
  case (Cons f fs)
  show ?case
    unfolding append_json_fields.simps
    by (rule appends_eq, (rule appends_intros Cons)+)
      (simp add: member_text_def quoted_def ostr_def)
qed

lemma appends_text_fields:
  "appends capacity (append_text_fields capacity fs)
    (concat (map (\<lambda>f. '' '' @ ostr (field_key f) @ ''='' @ value_text text_escape (field_value f)) fs))"
proof (induction fs)
  case Nil
  then show ?case by (simp add: appends_return)
next
  case (Cons f fs)
  show ?case
    unfolding append_text_fields.simps
    by (rule appends_eq, (rule appends_intros Cons)+) simp
qed

lemma appends_json_fields_opt [appends_intros]:
  "appends capacity (case record_fields r of None \<Rightarrow> State_Monad.return ()
      | Some fs \<Rightarrow> append_json_fields capacity separator colon fs)
    (concat (map (\<lambda>f. cstr separator @ member_text (cstr colon)
       (json_escape (ostr (field_key f)), value_text json_escape (field_value f))) (fields_of r)))"
  by (cases "record_fields r") (simp_all add: fields_of_def appends_return appends_json_fields)

lemma appends_text_fields_opt [appends_intros]:
  "appends capacity (case record_fields r of None \<Rightarrow> State_Monad.return ()
      | Some fs \<Rightarrow> append_text_fields capacity fs)
    (concat (map (\<lambda>f. '' '' @ ostr (field_key f) @ ''='' @ value_text text_escape (field_value f)) (fields_of r)))"
  using appends_text_fields [of capacity]
  by (cases "record_fields r") (simp_all add: fields_of_def appends_return)

lemma cstr_level_name [simp]: "cstr (mp_log_level_name l) = mp_log_level_name l"
  by (simp add: mp_log_level_name_def cstr_Cons)

lemma cstr_show_uint64_text [simp]: "ostr (Some (snprintf (zeros 32) 32 (show_uint64 w))) = show_uint64 w"
  by (simp add: ostr_def)

lemma appends_render_json:
  "appends capacity (render_json capacity config r ts)
    (let separator = (if pretty_output config then '', '' else '','');
         colon = (if pretty_output config then '': '' else '':'') in
     ''{'' @ join_with separator (map (member_text colon)
       ((''ts'', quoted (json_escape (cstr ts))) # tl (json_members config r))) @ ''}'')"
  unfolding render_json_def Let_def
  by (rule appends_eq, (rule appends_intros)+)
    (simp add: json_members_def member_text_def quoted_def ostr_def cstr_Cons comp_def)

lemma appends_render_text:
  "appends capacity (render_text capacity config r ts) (cstr ts @ drop (length (timestamp_of r)) (text_line config r))"
  unfolding render_text_def
  by (rule appends_eq, (rule appends_intros)+)
    (simp add: text_line_def quoted_def ostr_def cstr_Cons)

section \<open>The characters of a line\<close>

definition visible :: "char \<Rightarrow> bool" where
  "visible c \<longleftrightarrow> 0x20 \<le> char_code c"

lemma list_all_concat_map: "(\<And>x. x \<in> set xs \<Longrightarrow> list_all P (f x)) \<Longrightarrow> list_all P (concat (map f xs))"
  by (induction xs) auto

lemma list_all_join: "list_all P sep \<Longrightarrow> list_all (list_all P) ps \<Longrightarrow> list_all P (join_with sep ps)"
  by (cases ps) (auto simp: list_all_iff)

lemma not_iscntrl_visible: "\<not> iscntrl c \<Longrightarrow> visible c"
  by (simp add: iscntrl_def visible_def)

lemma isdigit_not_iscntrl: "isdigit c \<Longrightarrow> \<not> iscntrl c"
  by (auto simp: isdigit_def iscntrl_def)

lemma not_iscntrl_digits: "list_all isdigit s \<Longrightarrow> list_all (\<lambda>c. \<not> iscntrl c) s"
  by (auto simp: list_all_iff isdigit_not_iscntrl)

lemma show_hex4_not_iscntrl: "n < 256 \<Longrightarrow> list_all (\<lambda>c. \<not> iscntrl c) (show_hex4 n)"
proof -
  have "\<not> iscntrl (hex_char d)" if "d < 16" for d
    using that by (simp add: hex_char_def iscntrl_def)
  moreover have "\<not> iscntrl CHR ''0''" by (simp add: iscntrl_def char_code_def)
  ultimately show ?thesis by (simp add: show_hex4_def)
qed

lemma text_char_not_iscntrl: "list_all (\<lambda>c. \<not> iscntrl c) (text_char c)"
  by (simp add: text_char_def) (simp add: iscntrl_def char_code_def)

lemma json_char_visible: "list_all visible (json_char c)"
proof -
  have "list_all visible (show_hex4 (char_code c))"
    using show_hex4_not_iscntrl [of "char_code c"] by (auto simp: list_all_iff not_iscntrl_visible)
  then show ?thesis
    by (simp add: json_char_def) (simp add: visible_def char_code_def)
qed

lemma show_int64_not_iscntrl: "list_all (\<lambda>c. \<not> iscntrl c) (show_int64 w)"
proof -
  have "\<not> iscntrl CHR ''-''" by (simp add: iscntrl_def char_code_def)
  then show ?thesis
    by (simp add: show_int64_def show_int_def not_iscntrl_digits show_nat_digits)
qed

lemma show_uint64_not_iscntrl: "list_all (\<lambda>c. \<not> iscntrl c) (show_uint64 w)"
  by (simp add: show_uint64_def not_iscntrl_digits show_nat_digits)

lemma show_g17_not_iscntrl: "list_all (\<lambda>c. \<not> iscntrl c) (show_g17 w)"
proof -
  have "\<not> iscntrl c" if "number_char c" for c
    using that isdigit_not_iscntrl unfolding number_char_def
    by (elim disjE insertE emptyE) (simp_all add: iscntrl_def char_code_def)
  then have num: "list_all (\<lambda>c. \<not> iscntrl c) s" if "list_all number_char s" for s
    using that by (auto simp: list_all_iff)
  have lits: "list_all (\<lambda>c. \<not> iscntrl c) ''-''" "list_all (\<lambda>c. \<not> iscntrl c) ''inf''"
    "list_all (\<lambda>c. \<not> iscntrl c) ''nan''"
    by (simp_all add: iscntrl_def char_code_def)
  show ?thesis
    unfolding show_g17_def Let_def
    by (simp only: list_all_append num [OF number_chars_magnitude] lits list.pred_inject(1) simp_thms
        split: if_split)
qed

lemma timestamp_not_iscntrl: "list_all (\<lambda>c. \<not> iscntrl c) (timestamp_of r)"
proof -
  obtain y mo d h mi s ms where t:
    "\<And>buffer capacity. mp_logger_format_timestamp (unix_epoch_millis r) buffer capacity =
       snprintf buffer capacity (timestamp_text y mo d h mi s ms)"
    "length (timestamp_text y mo d h mi s ms) \<le> 30"
    by (rule format_timestamp_text [of "unix_epoch_millis r"]) blast
  then have "timestamp_of r = timestamp_text y mo d h mi s ms"
    by (simp add: timestamp_of_def cstr_snprintf)
  moreover have "\<not> iscntrl c" if "c \<in> {CHR ''-'', CHR ''T'', CHR '':'', CHR ''.'', CHR ''Z''}" for c
    using that by (auto simp: iscntrl_def char_code_def)
  ultimately show ?thesis
    using isdigit_not_iscntrl by (auto simp: list_all_iff dest!: timestamp_text_chars)
qed

lemma level_name_not_iscntrl: "list_all (\<lambda>c. \<not> iscntrl c) (mp_log_level_name l)"
  by (simp add: mp_log_level_name_def iscntrl_def char_code_def)

text \<open>Everything but the field keys of a text line is free of control characters.\<close>

lemma text_line_chars:
  assumes P: "\<And>c. \<not> iscntrl c \<Longrightarrow> P c"
    and keys: "\<And>f. f \<in> set (fields_of r) \<Longrightarrow> list_all P (ostr (field_key f))"
  shows "list_all P (text_line config r)"
proof -
  have mono: "list_all (\<lambda>c. \<not> iscntrl c) s \<Longrightarrow> list_all P s" for s
    using P by (auto simp: list_all_iff)
  have q: "list_all P (quoted s) \<longleftrightarrow> list_all P s" for s
    using P by (simp add: quoted_def) (simp add: iscntrl_def char_code_def)
  have esc: "list_all P (text_escape s)" for s
    by (intro list_all_concat_map mono text_char_not_iscntrl)
  have val: "list_all P (value_text text_escape v)" for v
    by (cases v) (simp_all add: q esc mono [OF show_int64_not_iscntrl] mono [OF show_uint64_not_iscntrl]
        mono [OF show_g17_not_iscntrl] P iscntrl_def char_code_def)
  have field: "list_all P ('' '' @ ostr (field_key f) @ ''='' @ value_text text_escape (field_value f))"
    if "f \<in> set (fields_of r)" for f
    using keys [OF that] val P by (simp add: iscntrl_def char_code_def)
  have fields: "list_all P (concat (map (\<lambda>f. '' '' @ ostr (field_key f) @ ''='' @
      value_text text_escape (field_value f)) (fields_of r)))"
    by (intro list_all_concat_map field)
  have lits: "list_all P '' level=''" "list_all P '' service=''" "list_all P '' environment=''"
    "list_all P '' sequence_id=''" "list_all P '' message=''" "list_all P '' context=''"
    by (simp_all add: P iscntrl_def char_code_def)
  note parts = lits fields q esc mono [OF show_uint64_not_iscntrl] mono [OF timestamp_not_iscntrl]
    mono [OF level_name_not_iscntrl]
  show ?thesis
    unfolding text_line_def list_all_append by (intro conjI) (simp_all only: parts list_all_append list.pred_inject(1) simp_thms split: if_split)
qed

lemma json_line_visible: "list_all visible (json_line config r)"
proof -
  have mono: "list_all (\<lambda>c. \<not> iscntrl c) s \<Longrightarrow> list_all visible s" for s
    by (auto simp: list_all_iff not_iscntrl_visible)
  have q: "list_all visible (quoted s) \<longleftrightarrow> list_all visible s" for s
    by (simp add: quoted_def) (simp add: visible_def char_code_def)
  have esc: "list_all visible (json_escape s)" for s
    by (intro list_all_concat_map json_char_visible)
  have val: "list_all visible (value_text json_escape v)" for v
    by (cases v) (simp_all add: q esc mono [OF show_int64_not_iscntrl] mono [OF show_uint64_not_iscntrl]
        mono [OF show_g17_not_iscntrl] visible_def char_code_def)
  have "list_all visible k \<and> list_all visible v" if "(k, v) \<in> set (json_members config r)" for k v
    using that unfolding json_members_def
    by (auto simp: q esc val mono [OF show_uint64_not_iscntrl] split: if_splits)
      (simp_all add: visible_def char_code_def)
  then have "list_all (list_all visible) (map (member_text colon) (json_members config r))"
    if "list_all visible colon" for colon
    using that by (auto simp: list_all_iff member_text_def quoted_def) (auto simp: visible_def char_code_def)
  then show ?thesis
    unfolding json_line_def Let_def
    by (intro list_all_append [THEN iffD2] conjI list_all_join) (simp_all add: visible_def char_code_def)
qed

lemma NUL_notin_ostr [simp]: "NUL \<notin> set (ostr v)"
  by (cases v) (simp_all add: ostr_def)

lemma NUL_notin_record_line [simp]: "NUL \<notin> set (record_line config r)"
proof -
  have "NUL \<notin> set (json_line config r)"
    using json_line_visible [of config r] by (auto simp: list_all_iff visible_def char_code_def)
  moreover have "list_all (\<lambda>c. c \<noteq> NUL) (text_line config r)"
  proof (rule text_line_chars)
    show "c \<noteq> NUL" if "\<not> iscntrl c" for c
      using that by (auto simp: iscntrl_def char_code_def)
    show "list_all (\<lambda>c. c \<noteq> NUL) (ostr (field_key f))" for f
      using NUL_notin_ostr [of "field_key f"] by (auto simp: list_all_iff)
  qed
  ultimately show ?thesis by (auto simp: record_line_def list_all_iff)
qed

section \<open>The rendered record\<close>

lemma finalize_overwrite:
  assumes "0 < capacity" and "unat capacity \<le> length buffer" and "length s < 2 ^ 64"
  shows "mp_logger_finalize_buffer (overwrite buffer 0 (take (unat capacity - 1) s)) capacity (of_nat (length s)) =
    overwrite buffer 0 (take (unat capacity - 1) s @ [NUL])"
proof -
  define n where "n = length (take (unat capacity - 1) s)"
  have pos: "0 < unat capacity" using assms(1) by (simp add: word_pos_unat)
  have len: "unat (of_nat (length s) :: size_t) = length s"
    using assms(3) by (simp add: unat_of_nat)
  have minus: "unat (capacity - 1) = unat capacity - 1"
    using pos by (metis One_nat_def Suc_pred' unat_eq_0 unat_minus_one word_neq_0_conv zero_less_iff_neq_zero)
  have idx: "unat (if of_nat (length s) \<ge> capacity then capacity - 1 else of_nat (length s)) = n"
    using len minus pos by (auto simp: n_def word_le_nat_alt min_def)
  have "n < length buffer" using pos assms(2) by (simp add: n_def)
  then have "(overwrite buffer 0 (take (unat capacity - 1) s))[n := NUL] =
      overwrite buffer 0 (take (unat capacity - 1) s @ [NUL])"
    by (intro overwrite_terminate) (simp_all add: n_def)
  then show ?thesis
    using pos by (auto simp: mp_logger_finalize_buffer_def Let_def idx)
qed

lemma appends_record_line:
  "appends capacity
    (let timestamp = mp_logger_format_timestamp (unix_epoch_millis r) (zeros MP_LOGGER_TIMESTAMP_CAPACITY)
           MP_LOGGER_TIMESTAMP_CAPACITY in
     if format config = MP_LOG_FORMAT_JSON then render_json capacity config r timestamp
     else render_text capacity config r timestamp) (record_line config r)"
proof -
  let ?ts = "mp_logger_format_timestamp (unix_epoch_millis r) (zeros 32) 32"
  have "(''ts'', quoted (json_escape (cstr ?ts))) # tl (json_members config r) = json_members config r"
    by (simp add: json_members_def timestamp_of_def)
  then have "appends capacity (render_json capacity config r ?ts) (json_line config r)"
    using appends_render_json [of capacity config r ?ts] by (simp add: json_line_def)
  moreover have "cstr ?ts @ drop (length (timestamp_of r)) (text_line config r) = text_line config r"
    by (simp add: text_line_def timestamp_of_def)
  then have "appends capacity (render_text capacity config r ?ts) (text_line config r)"
    using appends_render_text [of capacity config r ?ts] by simp
  ultimately show ?thesis
    by (simp add: record_line_def Let_def)
qed

lemma render_record_eq:
  assumes "0 < capacity" and "unat capacity \<le> length buffer" and "length (record_line config r) < 2 ^ 64 - 1"
  shows "mp_logger_render_record (Some config) (Some r) buffer capacity =
    (overwrite buffer 0 (take (unat capacity - 1) (record_line config r) @ [NUL]),
     min (unat capacity - 1) (length (record_line config r)))"
proof -
  let ?l = "record_line config r" and ?c = "unat capacity - 1"
  have "run_state
      (let timestamp = mp_logger_format_timestamp (unix_epoch_millis r) (zeros MP_LOGGER_TIMESTAMP_CAPACITY)
             MP_LOGGER_TIMESTAMP_CAPACITY in
       if format config = MP_LOG_FORMAT_JSON then render_json capacity config r timestamp
       else render_text capacity config r timestamp) (buffer, 0) =
      ((), overwrite buffer 0 (take ?c ?l), of_nat (length ?l))"
    using appends_record_line [of capacity r config] assms(2,3)
    unfolding appends_def by (elim allE [of _ buffer] allE [of _ 0]) simp
  then have "mp_logger_render_record (Some config) (Some r) buffer capacity =
      (let b = mp_logger_finalize_buffer (overwrite buffer 0 (take ?c ?l)) capacity (of_nat (length ?l)) in
       (b, strlen b))"
    using assms(1) less_irrefl [of "0 :: size_t"] by (auto simp: mp_logger_render_record_def Let_def)
  also have "\<dots> = (let b = overwrite buffer 0 (take ?c ?l @ [NUL]) in (b, strlen b))"
    using assms by (subst finalize_overwrite) simp_all
  also have "\<dots> = (overwrite buffer 0 (take ?c ?l @ [NUL]), min ?c (length ?l))"
  proof -
    have "NUL \<notin> set (take ?c ?l)" by (meson NUL_notin_record_line in_set_takeD)
    then show ?thesis by (simp add: strlen_def cstr_overwrite_0 min.commute Let_def)
  qed
  finally show ?thesis .
qed

end
