(* ===== verification/Logger_Json.thy ===== *)
theory Logger_Json
  imports Logger_Render Logger_Config
begin

text \<open>
  A reader for flat JSON objects (RFC 8259: strings with escapes, numbers, the literals
  \<open>true\<close> and \<open>false\<close>), used to state what a rendered JSON line means: reading it gives back
  the members of the record. Nothing here models code of the library.
\<close>

section \<open>Reading JSON\<close>

datatype json_value = JStr string | JBool bool | JNum string

definition hex_value :: "char \<Rightarrow> nat option" where
  "hex_value c =
     (let n = char_code c in
      if isdigit c then Some (n - 48)
      else if 97 \<le> n \<and> n \<le> 102 then Some (n - 87)
      else if 65 \<le> n \<and> n \<le> 70 then Some (n - 55)
      else None)"

definition escape_value :: "char \<Rightarrow> char option" where
  "escape_value c =
     (if c = CHR 0x22 \<or> c = CHR 0x5C \<or> c = CHR ''/'' then Some c
      else if c = CHR ''b'' then Some CHR 0x08
      else if c = CHR ''f'' then Some CHR 0x0C
      else if c = CHR ''n'' then Some CHR 0x0A
      else if c = CHR ''r'' then Some CHR 0x0D
      else if c = CHR ''t'' then Some CHR 0x09
      else None)"

text \<open>The code point of a four-digit escape, when it is a single byte.\<close>

definition unicode_value :: "char \<Rightarrow> char \<Rightarrow> char \<Rightarrow> char \<Rightarrow> char option" where
  "unicode_value a b c d =
     (case (hex_value a, hex_value b, hex_value c, hex_value d) of
        (Some p, Some q, Some r, Some s) \<Rightarrow>
          let n = ((p * 16 + q) * 16 + r) * 16 + s in
          if n < 0x80 then Some (char_of n) else None
      | _ \<Rightarrow> None)"

definition add_char :: "char option \<Rightarrow> (string \<times> string) option \<Rightarrow> (string \<times> string) option" where
  "add_char c r = (case (c, r) of (Some x, Some (s, rest)) \<Rightarrow> Some (x # s, rest) | _ \<Rightarrow> None)"

text \<open>The characters of a string up to its closing quote, and what follows.\<close>

fun read_body :: "string \<Rightarrow> (string \<times> string) option" where
  "read_body [] = None"
| "read_body (c # cs) =
     (if c = CHR 0x22 then Some ([], cs)
      else if c = CHR 0x5C then
        (case cs of
           [] \<Rightarrow> None
         | e # es \<Rightarrow>
             if e = CHR ''u'' then
               (case es of
                  a # b # x # d # rest \<Rightarrow> add_char (unicode_value a b x d) (read_body rest)
                | _ \<Rightarrow> None)
             else add_char (escape_value e) (read_body es))
      else if visible c then add_char (Some c) (read_body cs)
      else None)"

definition read_string :: "string \<Rightarrow> (string \<times> string) option" where
  "read_string s = (case s of [] \<Rightarrow> None | c # cs \<Rightarrow> if c = CHR 0x22 then read_body cs else None)"

text \<open>The number grammar: sign, integer part without leading zeros, fraction, exponent.\<close>

definition exponent_part :: "string \<Rightarrow> bool" where
  "exponent_part s \<longleftrightarrow>
     s = [] \<or>
     (hd s \<in> {CHR ''e'', CHR ''E''} \<and> tl s \<noteq> [] \<and>
      (let u = (if hd (tl s) \<in> {CHR ''+'', CHR ''-''} then tl (tl s) else tl s) in digit_string u))"

definition unsigned_number :: "string \<Rightarrow> bool" where
  "unsigned_number t \<longleftrightarrow>
     (let ip = takeWhile isdigit t; r = dropWhile isdigit t in
      ip \<noteq> [] \<and> (hd ip \<noteq> CHR ''0'' \<or> length ip = 1) \<and>
      (if r \<noteq> [] \<and> hd r = CHR ''.''
       then takeWhile isdigit (tl r) \<noteq> [] \<and> exponent_part (dropWhile isdigit (tl r))
       else exponent_part r))"

definition json_number :: "string \<Rightarrow> bool" where
  "json_number s \<longleftrightarrow> unsigned_number (if s \<noteq> [] \<and> hd s = CHR ''-'' then tl s else s)"

definition token_char :: "char \<Rightarrow> bool" where
  "token_char c \<longleftrightarrow> number_char c \<or> islower c"

definition read_token :: "string \<Rightarrow> (json_value \<times> string) option" where
  "read_token s =
     (let t = takeWhile token_char s; rest = dropWhile token_char s in
      if t = ''true'' then Some (JBool True, rest)
      else if t = ''false'' then Some (JBool False, rest)
      else if json_number t then Some (JNum t, rest)
      else None)"

definition read_value :: "string \<Rightarrow> (json_value \<times> string) option" where
  "read_value s =
     (if s \<noteq> [] \<and> hd s = CHR 0x22
      then (case read_string s of None \<Rightarrow> None | Some (x, rest) \<Rightarrow> Some (JStr x, rest))
      else read_token s)"

abbreviation skip_blanks :: "string \<Rightarrow> string" where
  "skip_blanks \<equiv> dropWhile (\<lambda>c. c = CHR '' '')"

definition read_member :: "string \<Rightarrow> ((string \<times> json_value) \<times> string) option" where
  "read_member s =
     (case read_string s of
        None \<Rightarrow> None
      | Some (k, rest) \<Rightarrow>
          (case rest of
             [] \<Rightarrow> None
           | c # cs \<Rightarrow>
               if c = CHR '':'' then
                 (case read_value (skip_blanks cs) of
                    None \<Rightarrow> None
                  | Some (v, rest') \<Rightarrow> Some ((k, v), rest'))
               else None))"

text \<open>At most \<open>n\<close> members up to the closing brace.\<close>

fun read_members :: "nat \<Rightarrow> string \<Rightarrow> (string \<times> json_value) list option" where
  "read_members 0 s = None"
| "read_members (Suc n) s =
     (case read_member s of
        None \<Rightarrow> None
      | Some (m, rest) \<Rightarrow>
          (case rest of
             [] \<Rightarrow> None
           | c # cs \<Rightarrow>
               if c = CHR ''}'' then if cs = [] then Some [m] else None
               else if c = CHR '','' then map_option (\<lambda>ms. m # ms) (read_members n (skip_blanks cs))
               else None))"

text \<open>A member takes at least one character, so the length of the text bounds their number.\<close>

definition read_object :: "string \<Rightarrow> (string \<times> json_value) list option" where
  "read_object s =
     (case s of
        [] \<Rightarrow> None
      | c # cs \<Rightarrow> if c = CHR ''{'' then read_members (length cs) cs else None)"

section \<open>Escaped strings read back\<close>

lemma hex_value_hex_char: "d < 16 \<Longrightarrow> hex_value (hex_char d) = Some d"
  by (simp add: hex_value_def hex_char_def isdigit_def)

lemma unicode_value_show_hex4:
  "n < 0x80 \<Longrightarrow> show_hex4 n = [a, b, c, d] \<Longrightarrow> unicode_value a b c d = Some (char_of n)"
proof -
  assume n: "n < 0x80" and eq: "show_hex4 n = [a, b, c, d]"
  have zero: "hex_value CHR ''0'' = Some 0" by (simp add: hex_value_def char_code_def)
  have "n div 16 mod 16 * 16 + n mod 16 = n"
    using n by simp
  then show ?thesis
    using eq n by (auto simp: show_hex4_def unicode_value_def zero hex_value_hex_char)
qed

lemma read_body_json_char:
  "read_body (json_char c @ rest) = add_char (Some c) (read_body rest)"
proof -
  consider "c = CHR 0x5C" | "c = CHR 0x22" | "c = CHR 0x0A" | "c = CHR 0x0D" | "c = CHR 0x09"
    | "c \<notin> {CHR 0x5C, CHR 0x22, CHR 0x0A, CHR 0x0D, CHR 0x09}" "char_code c < 0x20"
    | "c \<notin> {CHR 0x5C, CHR 0x22, CHR 0x0A, CHR 0x0D, CHR 0x09}" "\<not> char_code c < 0x20"
    by blast
  then show ?thesis
  proof cases
    case 6
    obtain a b x d where h: "show_hex4 (char_code c) = [a, b, x, d]"
      by (simp add: show_hex4_def)
    have "unicode_value a b x d = Some c"
      using unicode_value_show_hex4 [OF _ h] 6(2) by (simp add: char_code_def)
    with 6 show ?thesis by (simp add: json_char_def h)
  qed (simp_all add: json_char_def escape_value_def visible_def)
qed

lemma read_body_escaped: "read_body (json_escape s @ CHR 0x22 # rest) = Some (s, rest)"
  by (induction s) (simp_all add: read_body_json_char add_char_def del: read_body.simps(2), simp)

lemma read_string_quoted: "read_string (quoted (json_escape s) @ rest) = Some (s, rest)"
  by (simp add: read_string_def quoted_def read_body_escaped)

section \<open>Printed numbers are JSON numbers\<close>

lemma takeWhile_digits_append:
  "list_all isdigit ds \<Longrightarrow> r = [] \<or> \<not> isdigit (hd r) \<Longrightarrow> takeWhile isdigit (ds @ r) = ds"
  by (induction ds) (auto simp: neq_Nil_conv takeWhile_eq_Nil_iff)

lemma dropWhile_digits_append:
  "list_all isdigit ds \<Longrightarrow> r = [] \<or> \<not> isdigit (hd r) \<Longrightarrow> dropWhile isdigit (ds @ r) = r"
  by (induction ds) (auto simp: neq_Nil_conv dropWhile_eq_self_iff)

lemma not_isdigit_letters [simp]:
  "\<not> isdigit CHR ''e''" "\<not> isdigit CHR ''E''" "\<not> isdigit CHR ''-''" "\<not> isdigit CHR ''+''"
  by (simp_all add: isdigit_def char_code_def)

definition leading_digit_ok :: "string \<Rightarrow> bool" where
  "leading_digit_ok ip \<longleftrightarrow> digit_string ip \<and> (hd ip \<noteq> CHR ''0'' \<or> length ip = 1)"

lemma exponent_part_hd: "exponent_part ex \<Longrightarrow> ex = [] \<or> \<not> isdigit (hd ex) \<and> hd ex \<noteq> CHR ''.''"
  by (auto simp: exponent_part_def)

lemma unsigned_number_parts:
  assumes "leading_digit_ok ip" and "exponent_part ex" and "fp = [] \<or> (\<exists>ds. fp = CHR ''.'' # ds \<and> digit_string ds)"
  shows "unsigned_number (ip @ fp @ ex)"
proof (cases "fp = []")
  case True
  have t: "takeWhile isdigit (ip @ ex) = ip" "dropWhile isdigit (ip @ ex) = ex"
    using assms(1) exponent_part_hd [OF assms(2)]
    by (auto intro!: takeWhile_digits_append dropWhile_digits_append simp: leading_digit_ok_def digit_string_def)
  show ?thesis
    using True assms(1,2) exponent_part_hd [OF assms(2)]
    by (auto simp: unsigned_number_def Let_def t leading_digit_ok_def digit_string_def)
next
  case False
  then obtain ds where ds: "fp = CHR ''.'' # ds" "digit_string ds" using assms(3) by blast
  have t: "takeWhile isdigit (ip @ CHR ''.'' # ds @ ex) = ip"
    "dropWhile isdigit (ip @ CHR ''.'' # ds @ ex) = CHR ''.'' # ds @ ex"
    "takeWhile isdigit (ds @ ex) = ds" "dropWhile isdigit (ds @ ex) = ex"
    using assms(1) ds exponent_part_hd [OF assms(2)]
    by (auto intro!: takeWhile_digits_append dropWhile_digits_append simp: leading_digit_ok_def digit_string_def)
  show ?thesis
    using ds assms(1,2) by (simp add: unsigned_number_def Let_def t leading_digit_ok_def digit_string_def)
qed

lemma hd_show_nat: "n \<noteq> 0 \<Longrightarrow> hd (show_nat n) \<noteq> CHR ''0''"
proof (induction n rule: show_nat.induct)
  case (1 n)
  show ?case
  proof (cases "n < 10")
    case True
    have "digit_value CHR ''0'' = 0" by (simp add: digit_value_def char_code_def)
    then have "digit_char n \<noteq> CHR ''0''"
      using True 1 by (metis digit_value_digit_char)
    with True show ?thesis by (simp add: show_nat.simps [of n])
  next
    case False
    with 1 show ?thesis by (simp add: show_nat.simps [of n])
  qed
qed

lemma leading_show_nat: "leading_digit_ok (show_nat n)"
proof (cases "n = 0")
  case True
  then show ?thesis by (simp add: leading_digit_ok_def digit_string_def show_nat.simps [of 0])
next
  case False
  then show ?thesis by (simp add: leading_digit_ok_def digit_string_def show_nat_digits hd_show_nat)
qed

lemma leading_take: "leading_digit_ok ds \<Longrightarrow> 0 < k \<Longrightarrow> leading_digit_ok (take k ds)"
  by (auto simp: leading_digit_ok_def digit_string_def list_all_take hd_take)

lemma exponent_part_Nil [simp]: "exponent_part []"
  by (simp add: exponent_part_def)

lemma unsigned_with_point:
  assumes "leading_digit_ok ip" and "list_all isdigit fp" and "exponent_part ex"
  shows "unsigned_number (with_point ip fp @ ex)"
  using unsigned_number_parts [OF assms(1,3), of "if strip_zeros fp = [] then [] else CHR ''.'' # strip_zeros fp"]
    assms(2)
  by (auto simp: with_point_def digit_string_def list_all_strip_zeros)

lemma unsigned_magnitude: "unsigned_number (show_g17_magnitude num den)"
proof -
  obtain n x where nx: "significant17 num den = (n, x)" by (cases "significant17 num den")
  have ds: "list_all isdigit (show_nat n)" by (rule show_nat_digits)
  have ex: "exponent_part (CHR ''e'' # s # pad_zeros 2 (show_nat m))" if "s \<in> {CHR ''-'', CHR ''+''}" for s m
    using that digits_pad_zeros [OF show_nat_digits, of 2 m]
    by (auto simp: exponent_part_def digit_string_def pad_zeros_def)
  have zero: "leading_digit_ok ''0''" by (simp add: leading_digit_ok_def digit_string_def)
  consider "num = 0" | "num \<noteq> 0" "x < -4 \<or> x \<ge> 17" | "num \<noteq> 0" "0 \<le> x" "x < 17"
    | "num \<noteq> 0" "x < 0" "-4 \<le> x" by linarith
  then show ?thesis
  proof cases
    case 1
    then show ?thesis
      using unsigned_number_parts [OF zero exponent_part_Nil, of "[]"] by (simp add: show_g17_magnitude_def)
  next
    case 2
    have "unsigned_number (with_point (take 1 (show_nat n)) (drop 1 (show_nat n)) @
        CHR ''e'' # (if x < 0 then CHR ''-'' else CHR ''+'') # pad_zeros 2 (show_nat (nat \<bar>x\<bar>)))"
      by (intro unsigned_with_point leading_take leading_show_nat list_all_drop ds ex) simp_all
    with 2 show ?thesis by (simp add: show_g17_magnitude_def nx Let_def)
  next
    case 3
    have "unsigned_number (with_point (take (nat x + 1) (show_nat n)) (drop (nat x + 1) (show_nat n)) @ [])"
      by (intro unsigned_with_point leading_take leading_show_nat list_all_drop ds exponent_part_Nil) simp_all
    with 3 show ?thesis by (simp add: show_g17_magnitude_def nx Let_def)
  next
    case 4
    have "unsigned_number (with_point ''0'' (replicate (nat (- x) - 1) CHR ''0'' @ show_nat n) @ [])"
      by (intro unsigned_with_point zero exponent_part_Nil) (simp add: list_all_replicate ds)
    with 4 show ?thesis by (simp add: show_g17_magnitude_def nx Let_def)
  qed
qed

lemma unsigned_number_hd: "unsigned_number s \<Longrightarrow> s \<noteq> [] \<and> hd s \<noteq> CHR ''-''"
  by (cases s) (auto simp: unsigned_number_def Let_def)

lemma json_number_unsigned: "unsigned_number s \<Longrightarrow> json_number s \<and> json_number (CHR ''-'' # s)"
  using unsigned_number_hd [of s] by (simp add: json_number_def)

lemma json_number_g17: "isfinite w \<Longrightarrow> json_number (show_g17 w)"
  using json_number_unsigned [OF unsigned_magnitude] by (simp add: show_g17_def Let_def)

lemma unsigned_show_nat: "unsigned_number (show_nat n)"
  using unsigned_number_parts [OF leading_show_nat exponent_part_Nil, of "[]"] by simp

lemma json_number_ints: "json_number (show_int64 w)" "json_number (show_uint64 w)"
  using json_number_unsigned [OF unsigned_show_nat]
  by (simp_all add: show_int64_def show_int_def show_uint64_def)

section \<open>Rendered objects read back\<close>

fun json_repr :: "json_value \<Rightarrow> string" where
  "json_repr (JStr s) = quoted (json_escape s)"
| "json_repr (JBool b) = (if b then ''true'' else ''false'')"
| "json_repr (JNum t) = t"

fun json_ok :: "json_value \<Rightarrow> bool" where
  "json_ok (JNum t) = (json_number t \<and> list_all number_char t)"
| "json_ok _ = True"

definition json_object_text :: "string \<Rightarrow> string \<Rightarrow> (string \<times> json_value) list \<Rightarrow> string" where
  "json_object_text separator colon obj =
     ''{'' @ join_with separator (map (\<lambda>(k, v). member_text colon (json_escape k, json_repr v)) obj) @ ''}''"

lemma number_token: "number_char c \<Longrightarrow> token_char c"
  by (simp add: token_char_def)

lemma delimiters: "\<not> token_char CHR '',''" "\<not> token_char CHR ''}''" "\<not> token_char CHR 0x22"
  by (simp_all add: token_char_def number_char_def isdigit_def islower_def char_code_def)

lemma letters_token: "list_all token_char ''true''" "list_all token_char ''false''"
  by (simp_all add: token_char_def islower_def char_code_def)

lemma token_split:
  assumes "list_all token_char t" and "rest = [] \<or> \<not> token_char (hd rest)"
  shows "takeWhile token_char (t @ rest) = t" and "dropWhile token_char (t @ rest) = rest"
  using assms(1)
proof (induction t)
  case Nil
  {
    case 1
    then show ?case using assms(2) by (cases rest) auto
  next
    case 2
    then show ?case using assms(2) by (cases rest) auto
  }
qed simp_all

lemma join_with_eq: "ps \<noteq> [] \<Longrightarrow> join_with sep (p # ps) = p @ sep @ join_with sep ps"
  by (cases ps) simp_all

lemma json_number_not_word: "\<not> json_number ''true''" "\<not> json_number ''false''"
  by (simp_all add: json_number_def unsigned_number_def isdigit_def char_code_def)

lemma read_token_repr:
  assumes "list_all token_char t" and "rest = [] \<or> \<not> token_char (hd rest)"
  shows "read_token (t @ rest) =
    (if t = ''true'' then Some (JBool True, rest) else if t = ''false'' then Some (JBool False, rest)
     else if json_number t then Some (JNum t, rest) else None)"
  by (simp only: read_token_def Let_def token_split [OF assms])

lemma json_number_not_Nil: "json_number t \<Longrightarrow> t \<noteq> []"
  by (auto simp: json_number_def unsigned_number_def)

lemma hd_repr:
  assumes "json_ok v"
  shows "json_repr v \<noteq> []" and "hd (json_repr v) \<noteq> CHR '' ''"
    and "hd (json_repr v) = CHR 0x22 \<longleftrightarrow> (\<exists>s. v = JStr s)"
proof -
  have "t \<noteq> [] \<and> hd t \<noteq> CHR '' '' \<and> hd t \<noteq> CHR 0x22"
    if num: "json_number t" and chars: "list_all number_char t" for t
  proof -
    obtain c cs where t: "t = c # cs" using json_number_not_Nil [OF num] by (cases t) auto
    then have "number_char c" using chars by simp
    moreover have "\<not> number_char CHR '' ''" "\<not> number_char CHR 0x22"
      by (simp_all add: number_char_def isdigit_def char_code_def)
    ultimately show ?thesis using t by auto
  qed
  then show "json_repr v \<noteq> []" "hd (json_repr v) \<noteq> CHR '' ''"
    "hd (json_repr v) = CHR 0x22 \<longleftrightarrow> (\<exists>s. v = JStr s)"
    using assms by (cases v; auto simp: quoted_def)+
qed

lemma read_value_repr:
  assumes ok: "json_ok v" and rest: "rest = [] \<or> \<not> token_char (hd rest)"
  shows "read_value (json_repr v @ rest) = Some (v, rest)"
proof (cases v)
  case (JStr s)
  then show ?thesis
    using read_string_quoted [of s rest] by (simp add: read_value_def quoted_def)
next
  case (JBool b)
  then show ?thesis
    using read_token_repr [OF letters_token(1) rest] read_token_repr [OF letters_token(2) rest]
    by (simp add: read_value_def)
next
  case (JNum t)
  with ok have t: "json_number t" "list_all token_char t"
    by (auto simp: list_all_iff number_token)
  then have "read_token (t @ rest) = Some (JNum t, rest)"
    using read_token_repr [OF t(2) rest] json_number_not_word by auto
  moreover have "hd (t @ rest) \<noteq> CHR 0x22" "t @ rest \<noteq> []"
    using hd_repr [OF ok] JNum by auto
  ultimately show ?thesis using JNum by (simp add: read_value_def)
qed

lemma read_member_repr:
  assumes "json_ok v" and "rest = [] \<or> \<not> token_char (hd rest)" and "colon \<in> {'':'', '': ''}"
  shows "read_member (member_text colon (json_escape k, json_repr v) @ rest) = Some ((k, v), rest)"
proof -
  have "skip_blanks (tl colon @ json_repr v @ rest) = json_repr v @ rest"
    using assms(3) hd_repr(1,2) [OF assms(1)] by (cases "json_repr v") auto
  then have "read_value (skip_blanks (tl colon @ json_repr v @ rest)) = Some (v, rest)"
    using read_value_repr [OF assms(1,2)] by simp
  moreover have "colon = CHR '':'' # tl colon" using assms(3) by auto
  then have "read_string (quoted (json_escape k) @ colon @ json_repr v @ rest) =
      Some (k, CHR '':'' # tl colon @ json_repr v @ rest)"
    unfolding read_string_quoted by (metis append_Cons)
  ultimately show ?thesis
    by (simp add: read_member_def member_text_def)
qed

lemma read_members_repr:
  assumes "list_all (\<lambda>(k, v). json_ok v) obj" and "obj \<noteq> []" and "length obj \<le> n"
    and "colon \<in> {'':'', '': ''}" and "separator \<in> {'','', '', ''}"
  shows "read_members n (join_with separator
      (map (\<lambda>(k, v). member_text colon (json_escape k, json_repr v)) obj) @ ''}'') = Some obj"
  using assms(1-3)
proof (induction obj arbitrary: n)
  case Nil
  then show ?case by simp
next
  case (Cons m obj)
  obtain k v where m: "m = (k, v)" by (cases m)
  obtain n' where n: "n = Suc n'" using Cons.prems by (cases n) auto
  have v: "json_ok v" using Cons.prems m by simp
  show ?case
  proof (cases "obj = []")
    case True
    then show ?thesis
      using read_member_repr [OF v _ assms(4), of "''}''" k] by (simp add: n m delimiters)
  next
    case False
    let ?ps = "map (\<lambda>(k, v). member_text colon (json_escape k, json_repr v)) obj"
    obtain q qs where ps: "?ps = q # qs" and q: "q \<noteq> []" "hd q = CHR 0x22"
      using False by (cases obj) (auto simp: member_text_def quoted_def)
    have skip: "skip_blanks (tl separator @ join_with separator ?ps @ ''}'') = join_with separator ?ps @ ''}''"
      using assms(5) q unfolding ps by (cases q) auto
    have sep: "separator = CHR '','' # tl separator" using assms(5) by auto
    have "read_member (member_text colon (json_escape k, json_repr v) @ separator @ join_with separator ?ps @ ''}'') =
        Some ((k, v), separator @ join_with separator ?ps @ ''}'')"
      using read_member_repr [OF v _ assms(4)] sep delimiters(1) by (metis append_Cons list.sel(1))
    moreover have "join_with separator (member_text colon (json_escape k, json_repr v) # ?ps) @ ''}'' =
        member_text colon (json_escape k, json_repr v) @ separator @ join_with separator ?ps @ ''}''"
      by (subst join_with_eq) (use False in simp_all)
    moreover have "read_members n' (join_with separator ?ps @ ''}'') = Some obj"
      using Cons False n by simp
    ultimately show ?thesis
      using skip by (subst (asm) (1 2) sep) (simp add: n m)
  qed
qed

lemma read_object_text:
  assumes "list_all (\<lambda>(k, v). json_ok v) obj" and "obj \<noteq> []"
    and "colon \<in> {'':'', '': ''}" and "separator \<in> {'','', '', ''}"
  shows "read_object (json_object_text separator colon obj) = Some obj"
proof -
  let ?ps = "map (\<lambda>(k, v). member_text colon (json_escape k, json_repr v)) obj"
  have "length ps \<le> length (join_with separator ps)" if "\<And>p. p \<in> set ps \<Longrightarrow> p \<noteq> []" for ps
    using that
  proof (induction ps rule: induct_list012)
    case (3 p q ps)
    then have "p \<noteq> []" "length (q # ps) \<le> length (join_with separator (q # ps))" by simp_all
    then show ?case
      unfolding join_with_eq [OF list.distinct(2)] by (cases p) simp_all
  qed (auto simp: Suc_le_eq)
  from this [of ?ps] have "length obj \<le> length (join_with separator ?ps @ ''}'')"
    by (force simp: member_text_def quoted_def)
  then show ?thesis
    using read_members_repr [OF assms(1,2) _ assms(3,4)]
    by (simp add: read_object_def json_object_text_def del: read_members.simps)
qed

section \<open>The members of a record\<close>

fun value_json :: "mp_log_field_value \<Rightarrow> json_value" where
  "value_json (MP_LOG_FIELD_STRING v) = JStr (ostr v)"
| "value_json (MP_LOG_FIELD_BOOL b) = JBool b"
| "value_json (MP_LOG_FIELD_INT64 w) = JNum (show_int64 w)"
| "value_json (MP_LOG_FIELD_UINT64 w) = JNum (show_uint64 w)"
| "value_json (MP_LOG_FIELD_FLOAT64 w) = JNum (show_g17 w)"
| "value_json (Field_Other _) = JNum []"

text \<open>The values that queue admission lets through: a known type, and no NaN or infinity.\<close>

fun renderable :: "mp_log_field_value \<Rightarrow> bool" where
  "renderable (MP_LOG_FIELD_FLOAT64 w) = isfinite w"
| "renderable (Field_Other _) = False"
| "renderable _ = True"

definition json_object :: "mp_logger_config \<Rightarrow> mp_log_record \<Rightarrow> (string \<times> json_value) list" where
  "json_object config r =
     [(''ts'', JStr (timestamp_of r)), (''level'', JStr (mp_log_level_name (level r))),
      (''service'', JStr (cstr (service_name config))),
      (''environment'', JStr (cstr (environment_name config))),
      (''sequence_id'', JStr (show_uint64 (sequence_id r))), (''message'', JStr (ostr (message r)))] @
     (if has_context r then [(''context'', JStr (ostr (context_text r)))] else []) @
     map (\<lambda>f. (ostr (field_key f), value_json (field_value f))) (fields_of r)"

definition plain :: "string \<Rightarrow> bool" where
  "plain s \<longleftrightarrow> list_all (\<lambda>c. visible c \<and> c \<noteq> CHR 0x22 \<and> c \<noteq> CHR 0x5C) s"

lemma json_escape_plain: "plain s \<Longrightarrow> json_escape s = s"
  by (induction s) (auto simp: plain_def json_char_def visible_def char_code_def)

lemma plain_digits: "list_all isdigit s \<Longrightarrow> plain s"
  by (auto simp: plain_def list_all_iff visible_def isdigit_def) (auto simp: char_code_def)

lemma json_repr_value: "renderable v \<Longrightarrow> json_repr (value_json v) = value_text json_escape v"
  by (cases v) simp_all

lemma number_chars_ints: "list_all number_char (show_int64 w)" "list_all number_char (show_uint64 w)"
proof -
  have "number_char CHR ''-''" by (simp add: number_char_def)
  then show "list_all number_char (show_int64 w)" "list_all number_char (show_uint64 w)"
    by (simp_all add: show_int64_def show_int_def show_uint64_def number_char_digits show_nat_digits)
qed

lemma json_ok_value: "renderable v \<Longrightarrow> json_ok (value_json v)"
  by (cases v) (simp_all add: json_number_ints json_number_g17 number_chars_g17 number_chars_ints)

lemma json_members_object:
  assumes "list_all (\<lambda>f. renderable (field_value f)) (fields_of r)"
  shows "json_members config r = map (\<lambda>(k, v). (json_escape k, json_repr v)) (json_object config r)"
proof -
  have seq: "json_escape (show_uint64 w) = show_uint64 w" for w
    by (intro json_escape_plain plain_digits) (simp add: show_uint64_def show_nat_digits)
  have "map (\<lambda>f. (json_escape (ostr (field_key f)), value_text json_escape (field_value f))) (fields_of r) =
      map (\<lambda>f. (json_escape (ostr (field_key f)), json_repr (value_json (field_value f)))) (fields_of r)"
    using assms by (simp add: list_all_iff json_repr_value)
  then show ?thesis
    unfolding json_members_def json_object_def
    by (simp add: seq comp_def) (simp add: json_char_def char_code_def)
qed

lemma json_line_object:
  assumes "list_all (\<lambda>f. renderable (field_value f)) (fields_of r)"
  shows "json_line config r =
    json_object_text (if pretty_output config then '', '' else '','')
      (if pretty_output config then '': '' else '':'') (json_object config r)"
proof -
  have "map (member_text colon) (map (\<lambda>(k, v). (json_escape k, json_repr v)) obj) =
      map (\<lambda>(k, v). member_text colon (json_escape k, json_repr v)) obj" for colon and obj
    by (induction obj) auto
  then show ?thesis
    by (simp only: json_line_def json_object_text_def Let_def json_members_object [OF assms])
qed

lemma read_json_line:
  assumes "list_all (\<lambda>f. renderable (field_value f)) (fields_of r)"
  shows "read_object (json_line config r) = Some (json_object config r)"
  unfolding json_line_object [OF assms]
proof (rule read_object_text)
  show "list_all (\<lambda>(k, v). json_ok v) (json_object config r)"
    using assms by (auto simp: json_object_def list_all_iff json_ok_value)
qed (simp_all add: json_object_def)

section \<open>A cut line is no object\<close>

lemma read_body_append: "read_body s = Some (x, rest) \<Longrightarrow> read_body (s @ t) = Some (x, rest @ t)"
proof (induction s arbitrary: x rest rule: read_body.induct)
  case 1
  then show ?case by simp
next
  case (2 c cs)
  have add: "\<exists>d y. e = Some d \<and> r = Some (y, rest) \<and> x = d # y"
    if "add_char e r = Some (x, rest)" for e r
    using that by (auto simp: add_char_def split: option.splits)
  consider "c = CHR 0x22" | "c \<noteq> CHR 0x22" "c = CHR 0x5C" | "c \<noteq> CHR 0x22" "c \<noteq> CHR 0x5C" by blast
  then show ?case
  proof cases
    case 1
    with "2.prems" show ?thesis by simp
  next
    case esc: 2
    then obtain e es where cs: "cs = e # es" using "2.prems" by (cases cs) auto
    show ?thesis
    proof (cases "e = CHR ''u''")
      case True
      then obtain p q u v more where es: "es = p # q # u # v # more"
        using "2.prems" esc cs by (auto split: list.splits)
      with "2.prems" esc cs True add obtain d y where
        "unicode_value p q u v = Some d" "read_body more = Some (y, rest)" "x = d # y"
        by fastforce
      with "2.IH"(1) [OF esc cs True es refl refl refl] esc cs es True show ?thesis
        by (simp add: add_char_def)
    next
      case False
      with "2.prems" esc cs add obtain d y where
        "escape_value e = Some d" "read_body es = Some (y, rest)" "x = d # y"
        by fastforce
      with "2.IH"(2) [OF esc cs False] esc cs False show ?thesis
        by (simp add: add_char_def)
    qed
  next
    case 3
    with "2.prems" have vis: "visible c" by (auto split: if_splits)
    with "2.prems" 3 add obtain y where "read_body cs = Some (y, rest)" "x = c # y"
      by fastforce
    with "2.IH"(3) [OF 3 vis] 3 vis show ?thesis
      by (simp add: add_char_def)
  qed
qed

lemma read_string_append: "read_string s = Some (x, rest) \<Longrightarrow> read_string (s @ t) = Some (x, rest @ t)"
  by (auto simp: read_string_def read_body_append split: list.splits if_splits)

lemma read_token_append:
  assumes "read_token s = Some (v, rest)" and "rest \<noteq> []"
  shows "read_token (s @ t) = Some (v, rest @ t)"
proof -
  have rest: "rest = dropWhile token_char s"
    using assms(1) by (auto simp: read_token_def Let_def split: if_splits)
  then obtain c where "c \<in> set s" "\<not> token_char c"
    using assms(2) by (metis dropWhile_eq_Nil_conv)
  then have "takeWhile token_char (s @ t) = takeWhile token_char s"
    "dropWhile token_char (s @ t) = dropWhile token_char s @ t"
    by (auto intro: takeWhile_append1 dropWhile_append1)
  with assms(1) show ?thesis by (auto simp: read_token_def Let_def split: if_splits)
qed

lemma read_value_append:
  "read_value s = Some (v, rest) \<Longrightarrow> rest \<noteq> [] \<Longrightarrow> read_value (s @ t) = Some (v, rest @ t)"
proof (cases "s \<noteq> [] \<and> hd s = CHR 0x22")
  case True
  assume "read_value s = Some (v, rest)"
  with True obtain x where x: "read_string s = Some (x, rest)" "v = JStr x"
    by (auto simp: read_value_def split: option.splits)
  with read_string_append [OF x(1), of t] True show ?thesis by (simp add: read_value_def)
next
  case False
  assume v: "read_value s = Some (v, rest)" "rest \<noteq> []"
  with False have tok: "read_token s = Some (v, rest)" by (auto simp: read_value_def)
  then have "s \<noteq> []"
    using v(2) by (auto simp: read_token_def Let_def split: if_splits)
  with False read_token_append [OF tok v(2)] show ?thesis by (auto simp: read_value_def)
qed

lemma skip_blanks_append: "skip_blanks s \<noteq> [] \<Longrightarrow> skip_blanks (s @ t) = skip_blanks s @ t"
  by (metis dropWhile_append dropWhile_eq_Nil_conv)

lemma read_member_append:
  assumes "read_member s = Some (m, rest)" and "rest \<noteq> []"
  shows "read_member (s @ t) = Some (m, rest @ t)"
proof -
  obtain k r where k: "read_string s = Some (k, r)"
    using assms(1) by (auto simp: read_member_def split: option.splits)
  obtain c cs where r: "r = c # cs"
    using assms(1) k by (cases r) (auto simp: read_member_def)
  have c: "c = CHR '':''"
    using assms(1) k r by (auto simp: read_member_def split: if_splits)
  obtain v where v: "read_value (skip_blanks cs) = Some (v, rest)" "m = (k, v)"
    using assms(1) k r c by (auto simp: read_member_def split: option.splits)
  have "read_value [] = None"
    by (simp add: read_value_def read_token_def json_number_def unsigned_number_def)
  with v(1) have ne: "skip_blanks cs \<noteq> []" by (metis option.distinct(1))
  have "read_string (s @ t) = Some (k, CHR '':'' # cs @ t)"
    using read_string_append [OF k, of t] r c by simp
  moreover have "read_value (skip_blanks (cs @ t)) = Some (v, rest @ t)"
    unfolding skip_blanks_append [OF ne] by (rule read_value_append [OF v(1) assms(2)])
  ultimately show ?thesis
    using v(2) by (simp add: read_member_def)
qed

lemma read_members_append:
  "read_members n s = Some ms \<Longrightarrow> t \<noteq> [] \<Longrightarrow> read_members k (s @ t) = None"
proof (induction n s arbitrary: ms k rule: read_members.induct)
  case (1 s)
  then show ?case by simp
next
  case (2 n s)
  obtain m rest where m: "read_member s = Some (m, rest)"
    using "2.prems" by (auto split: option.splits)
  obtain c cs where c: "rest = c # cs"
    using "2.prems" m by (cases rest) auto
  have m': "read_member (s @ t) = Some (m, c # cs @ t)"
    using read_member_append [OF m, of t] c by simp
  show ?case
  proof (cases "c = CHR ''}''")
    case True
    with m' "2.prems" show ?thesis by (cases k) simp_all
  next
    case False
    with "2.prems" m c obtain ms' where comma: "c = CHR '',''" "read_members n (skip_blanks cs) = Some ms'"
      by (auto split: if_splits)
    have "read_members n [] = None" for n
      by (cases n) (simp_all add: read_member_def read_string_def)
    with comma(2) have ne: "skip_blanks cs \<noteq> []" by (metis option.distinct(1))
    have "read_members j (skip_blanks cs @ t) = None" for j
      using "2.IH" [OF m refl c False comma "2.prems"(2)] .
    then have "read_members j (skip_blanks (cs @ t)) = None" for j
      by (simp only: skip_blanks_append [OF ne])
    then show ?thesis
      using m' False comma(1) by (cases k) simp_all
  qed
qed

lemma read_object_prefix:
  "read_object (s @ t) = Some obj \<Longrightarrow> t \<noteq> [] \<Longrightarrow> read_object s = None"
proof (cases "read_object s")
  case (Some obj')
  assume *: "read_object (s @ t) = Some obj" "t \<noteq> []"
  from Some obtain cs where cs: "s = CHR ''{'' # cs" "read_members (length cs) cs = Some obj'"
    by (auto simp: read_object_def split: list.splits if_splits)
  with read_members_append [OF cs(2) *(2)] *(1) show ?thesis
    by (simp add: read_object_def)
qed simp

section \<open>The capacity of the render buffer\<close>

text \<open>The assignment to \<open>render_capacity\<close> in \<open>mp_logger_create\<close>, in \<open>size_t\<close> arithmetic.\<close>

definition mp_logger_render_capacity :: "mp_logger_config \<Rightarrow> size_t" where
  "mp_logger_render_capacity c =
     message_capacity c + context_capacity c +
     field_capacity c * (field_key_capacity c + field_value_capacity c + 64) +
     MP_LOGGER_RENDER_PADDING"

definition render_bound :: "mp_logger_config \<Rightarrow> nat" where
  "render_bound c =
     unat (message_capacity c) + unat (context_capacity c) +
     unat (field_capacity c) * (unat (field_key_capacity c) + unat (field_value_capacity c) + 64) + 384"

lemma unat_render_capacity: "render_bound c < 2 ^ 64 \<Longrightarrow> unat (mp_logger_render_capacity c) = render_bound c"
proof -
  assume "render_bound c < 2 ^ 64"
  moreover have "unat (mp_logger_render_capacity c) = render_bound c mod 2 ^ 64"
    by (simp add: mp_logger_render_capacity_def render_bound_def unat_word_ariths mod_simps)
  ultimately show ?thesis by simp
qed

text \<open>The strings of a record fit the capacities of the queue, as admission enforces.\<close>

definition string_fits :: "size_t \<Rightarrow> cbuf option \<Rightarrow> bool" where
  "string_fits capacity v \<longleftrightarrow> length (ostr v) < unat capacity"

fun value_fits :: "size_t \<Rightarrow> mp_log_field_value \<Rightarrow> bool" where
  "value_fits capacity (MP_LOG_FIELD_STRING v) = string_fits capacity v"
| "value_fits capacity _ = True"

definition record_fits :: "mp_logger_config \<Rightarrow> mp_log_record \<Rightarrow> bool" where
  "record_fits c r \<longleftrightarrow>
     wf_config c \<and> string_fits (message_capacity c) (message r) \<and>
     string_fits (context_capacity c) (context_text r) \<and>
     length (fields_of r) \<le> unat (field_capacity c) \<and>
     list_all (\<lambda>f. string_fits (field_key_capacity c) (field_key f) \<and>
       value_fits (field_value_capacity c) (field_value f)) (fields_of r)"

text \<open>No string of the record or of the configuration needs an escape.\<close>

fun value_plain :: "mp_log_field_value \<Rightarrow> bool" where
  "value_plain (MP_LOG_FIELD_STRING v) = plain (ostr v)"
| "value_plain _ = True"

definition record_plain :: "mp_logger_config \<Rightarrow> mp_log_record \<Rightarrow> bool" where
  "record_plain c r \<longleftrightarrow>
     plain (cstr (service_name c)) \<and> plain (cstr (environment_name c)) \<and>
     plain (ostr (message r)) \<and> plain (ostr (context_text r)) \<and>
     list_all (\<lambda>f. plain (ostr (field_key f)) \<and> value_plain (field_value f)) (fields_of r)"

lemma length_escapes_plain:
  "plain s \<Longrightarrow> length (json_escape s) = length s" "plain s \<Longrightarrow> length (text_escape s) = length s"
proof -
  show "plain s \<Longrightarrow> length (json_escape s) = length s" by (simp only: json_escape_plain)
  show "plain s \<Longrightarrow> length (text_escape s) = length s"
    by (induction s) (auto simp: plain_def text_char_def visible_def char_code_def)
qed

lemma length_join_with: "length (join_with sep ps) \<le> (\<Sum>p\<leftarrow>ps. length p + length sep)"
  by (cases ps) (simp_all add: length_concat comp_def add.commute)

lemma length_quoted [simp]: "length (quoted s) = length s + 2"
  by (simp add: quoted_def)

lemma length_level_name: "length (mp_log_level_name l) \<le> 7"
  by (simp add: mp_log_level_name_def)

lemma length_timestamp_of: "length (timestamp_of r) \<le> 30"
proof -
  obtain y mo d h mi s ms where
    "\<And>buffer capacity. mp_logger_format_timestamp (unix_epoch_millis r) buffer capacity =
       snprintf buffer capacity (timestamp_text y mo d h mi s ms)"
    "length (timestamp_text y mo d h mi s ms) \<le> 30"
    by (rule format_timestamp_text [of "unix_epoch_millis r"]) blast
  then show ?thesis by (simp add: timestamp_of_def cstr_snprintf)
qed

lemma timestamp_of_plain: "plain (timestamp_of r)" and level_name_plain: "plain (mp_log_level_name l)"
proof -
  obtain y mo d h mi s ms where t:
    "\<And>buffer capacity. mp_logger_format_timestamp (unix_epoch_millis r) buffer capacity =
       snprintf buffer capacity (timestamp_text y mo d h mi s ms)"
    "length (timestamp_text y mo d h mi s ms) \<le> 30"
    by (rule format_timestamp_text [of "unix_epoch_millis r"]) blast
  have "visible c \<and> c \<noteq> CHR 0x22 \<and> c \<noteq> CHR 0x5C"
    if "isdigit c \<or> c \<in> {CHR ''-'', CHR ''T'', CHR '':'', CHR ''.'', CHR ''Z''}" for c
    using that
  proof (elim disjE insertE emptyE)
    assume "isdigit c"
    then show ?thesis
      using plain_digits [of "[c]"] by (simp add: plain_def)
  qed (simp_all add: visible_def char_code_def)
  then show "plain (timestamp_of r)"
    using t by (auto simp: timestamp_of_def cstr_snprintf plain_def list_all_iff dest!: timestamp_text_chars)
  show "plain (mp_log_level_name l)"
    by (simp add: mp_log_level_name_def plain_def visible_def char_code_def)
qed

lemma length_value_text:
  assumes "value_fits capacity v" and "value_plain v" and "escape = json_escape \<or> escape = text_escape"
  shows "length (value_text escape v) \<le> unat capacity + 24"
proof (cases v)
  case (MP_LOG_FIELD_STRING s)
  then have "length (escape (ostr s)) = length (ostr s)"
    using assms(2,3) by (auto simp only: value_plain.simps length_escapes_plain)
  then show ?thesis using MP_LOG_FIELD_STRING assms(1) by (simp add: string_fits_def)
qed (auto intro!: trans_le_add2 le_trans [OF length_show_int64] le_trans [OF length_show_uint64] length_show_g17)

lemma sum_list_bound: "(\<And>x. x \<in> set xs \<Longrightarrow> g x \<le> (b :: nat)) \<Longrightarrow> length xs \<le> n \<Longrightarrow> sum_list (map g xs) \<le> n * b"
proof -
  assume "\<And>x. x \<in> set xs \<Longrightarrow> g x \<le> b" "length xs \<le> n"
  then have "sum_list (map g xs) \<le> length xs * b"
    using sum_list_mono [of xs g "\<lambda>_. b"] by (simp add: sum_list_triv)
  also have "\<dots> \<le> n * b" using \<open>length xs \<le> n\<close> by simp
  finally show ?thesis .
qed

lemma length_config_strings:
  assumes "wf_config c"
  shows "length (cstr (service_name c)) \<le> 63" and "length (cstr (environment_name c)) \<le> 63"
  using strlen_less_array [of 64 "service_name c"] strlen_less_array [of 64 "environment_name c"] assms
  by (simp_all add: wf_config_def strlen_def)

lemma field_length:
  assumes "record_fits c r" and "record_plain c r" and "f \<in> set (fields_of r)"
    and "escape = json_escape \<or> escape = text_escape"
  shows "length (ostr (field_key f)) + length (value_text escape (field_value f)) + 6 \<le>
    unat (field_key_capacity c) + unat (field_value_capacity c) + 64"
  using length_value_text [of "field_value_capacity c" "field_value f" escape] assms
  by (auto simp: record_fits_def record_plain_def list_all_iff string_fits_def)

lemma length_json_line:
  assumes fits: "record_fits c r" and plain: "record_plain c r"
  shows "length (json_line c r) < render_bound c"
proof -
  define separator where "separator = (if pretty_output c then '', '' else '','')"
  define colon where "colon = (if pretty_output c then '': '' else '':'')"
  have sep: "length separator \<le> 2" "length colon \<le> 2" by (simp_all add: separator_def colon_def)
  note p = plain [unfolded record_plain_def]
  let ?fields = "map (\<lambda>f. (json_escape (ostr (field_key f)), value_text json_escape (field_value f))) (fields_of r)"
  have "(\<Sum>m\<leftarrow>?fields. length (member_text colon m) + length separator) \<le>
      unat (field_capacity c) * (unat (field_key_capacity c) + unat (field_value_capacity c) + 64)"
  proof -
    have "length (member_text colon (json_escape (ostr (field_key f)), value_text json_escape (field_value f))) +
        length separator \<le> unat (field_key_capacity c) + unat (field_value_capacity c) + 64"
      if f: "f \<in> set (fields_of r)" for f
    proof -
      have "plain (ostr (field_key f))" using p f by (simp add: list_all_iff)
      then have "length (json_escape (ostr (field_key f))) = length (ostr (field_key f))"
        by (rule length_escapes_plain)
      then show ?thesis
        using field_length [OF fits plain f, of json_escape] sep
        by (simp only: member_text_def fst_conv snd_conv length_append length_quoted) simp
    qed
    then show ?thesis
      using fits by (simp only: map_map comp_def) (intro sum_list_bound, simp_all add: record_fits_def)
  qed
  moreover have "(\<Sum>m\<leftarrow>take 6 (json_members c r). length (member_text colon m) + length separator) \<le>
      length (ostr (message r)) + 6 * 6 + 54 + 12 + 30 + 7 + 63 + 63 + 20"
  proof -
    have esc: "length (json_escape (timestamp_of r)) \<le> 30" "length (json_escape (mp_log_level_name (level r))) \<le> 7"
      "length (json_escape (cstr (service_name c))) \<le> 63" "length (json_escape (cstr (environment_name c))) \<le> 63"
      "length (json_escape (ostr (message r))) = length (ostr (message r))"
      using p length_timestamp_of [of r] length_level_name [of "level r"] length_config_strings [of c] fits
      by (simp_all only: length_escapes_plain timestamp_of_plain level_name_plain record_fits_def)
    show ?thesis
      using esc length_show_uint64 [of "sequence_id r"] sep
      by (simp add: json_members_def member_text_def del: length_concat)
  qed
  moreover let ?ctx_members = "if has_context r then [(''context'', quoted (json_escape (ostr (context_text r))))] else []"
  have "(\<Sum>m\<leftarrow>?ctx_members. length (member_text colon m) + length separator) \<le> length (ostr (context_text r)) + 15"
  proof -
    have "length (json_escape (ostr (context_text r))) = length (ostr (context_text r))"
      using p by (simp only: length_escapes_plain)
    then show ?thesis using sep by (simp add: member_text_def del: length_concat)
  qed
  moreover have "length (ostr (message r)) < unat (message_capacity c)"
    "length (ostr (context_text r)) < unat (context_capacity c)"
    using fits by (simp_all add: record_fits_def string_fits_def)
  moreover have "(\<Sum>m\<leftarrow>json_members c r. length (member_text colon m) + length separator) =
      (\<Sum>m\<leftarrow>take 6 (json_members c r). length (member_text colon m) + length separator) +
      (\<Sum>m\<leftarrow>?ctx_members. length (member_text colon m) + length separator) +
      (\<Sum>m\<leftarrow>?fields. length (member_text colon m) + length separator)"
  proof -
    have "json_members c r = take 6 (json_members c r) @ ?ctx_members @ ?fields"
      by (simp add: json_members_def)
    then show ?thesis
      by (metis (no_types, lifting) add.assoc map_append sum_list_append)
  qed
  ultimately have "(\<Sum>m\<leftarrow>json_members c r. length (member_text colon m) + length separator) + 2 < render_bound c"
    unfolding render_bound_def by linarith
  moreover have "length (json_line c r) \<le> (\<Sum>m\<leftarrow>json_members c r. length (member_text colon m) + length separator) + 2"
    using length_join_with [of separator "map (member_text colon) (json_members c r)"]
    by (simp add: json_line_def Let_def comp_def flip: separator_def colon_def)
  ultimately show ?thesis by simp
qed

lemma length_text_line:
  assumes fits: "record_fits c r" and plain: "record_plain c r"
  shows "length (text_line c r) < render_bound c"
proof -
  note p = plain [unfolded record_plain_def]
  let ?field = "\<lambda>f. '' '' @ ostr (field_key f) @ ''='' @ value_text text_escape (field_value f)"
  have "(\<Sum>f\<leftarrow>fields_of r. length (?field f)) \<le>
      unat (field_capacity c) * (unat (field_key_capacity c) + unat (field_value_capacity c) + 64)"
  proof (rule sum_list_bound)
    show "length (?field f) \<le> unat (field_key_capacity c) + unat (field_value_capacity c) + 64"
      if "f \<in> set (fields_of r)" for f
      using field_length [OF fits plain that, of text_escape] by simp
  qed (use fits in \<open>simp add: record_fits_def\<close>)
  then have fields_part: "length (concat (map ?field (fields_of r))) \<le>
      unat (field_capacity c) * (unat (field_key_capacity c) + unat (field_value_capacity c) + 64)"
    by (simp only: length_concat map_map comp_def)
  have esc: "length (text_escape (cstr (service_name c))) \<le> 63"
    "length (text_escape (cstr (environment_name c))) \<le> 63"
    "length (text_escape (ostr (message r))) = length (ostr (message r))"
    "length (text_escape (ostr (context_text r))) = length (ostr (context_text r))"
    using p length_config_strings [of c] fits
    by (simp_all only: length_escapes_plain record_fits_def)
  have ctx: "length (if has_context r then '' context='' @ quoted (text_escape (ostr (context_text r))) else []) \<le>
      length (ostr (context_text r)) + 11"
    using esc(4) by (simp add: quoted_def del: length_concat)
  have "length (ostr (message r)) < unat (message_capacity c)"
    "length (ostr (context_text r)) < unat (context_capacity c)"
    using fits by (simp_all add: record_fits_def string_fits_def)
  then show ?thesis
    using fields_part esc ctx length_timestamp_of [of r] length_level_name [of "level r"]
      length_show_uint64 [of "sequence_id r"]
    unfolding text_line_def render_bound_def length_append length_quoted by simp
qed

lemma drop_overwrite_0: "length bytes \<le> n \<Longrightarrow> drop n (overwrite dest 0 bytes) = drop n dest"
  by (simp add: overwrite_0)

section \<open>Properties\<close>

text \<open>
  C6: rendering stays inside the buffer it is given, and what it leaves there is the line of
  the record cut to the capacity, with a terminator; the return value is the length of the
  string in the buffer. This holds for both formats, every field type and every capacity
  above zero.
\<close>

theorem render_record_spec:
  assumes "0 < capacity" and "unat capacity \<le> length buffer" and "length (record_line config r) < 2 ^ 64 - 1"
  shows "case mp_logger_render_record (Some config) (Some r) buffer capacity of (b, n) \<Rightarrow>
    length b = length buffer \<and> drop (unat capacity) b = drop (unat capacity) buffer \<and>
    cstr b = take (unat capacity - 1) (record_line config r) \<and> n = strlen b"
proof -
  let ?t = "take (unat capacity - 1) (record_line config r)"
  have pos: "0 < unat capacity" using assms(1) by (simp add: word_pos_unat)
  have le: "length (?t @ [NUL]) \<le> unat capacity" using pos by simp
  have "NUL \<notin> set ?t" by (meson NUL_notin_record_line in_set_takeD)
  then have c: "cstr (overwrite buffer 0 (?t @ [NUL])) = ?t" by (rule cstr_overwrite_0)
  have "length (overwrite buffer 0 (?t @ [NUL])) = length buffer"
    using le assms(2) by (intro length_overwrite) simp
  moreover have "drop (unat capacity) (overwrite buffer 0 (?t @ [NUL])) = drop (unat capacity) buffer"
    by (rule drop_overwrite_0 [OF le])
  ultimately show ?thesis
    using c by (simp add: render_record_eq [OF assms] strlen_def min.commute)
qed

definition sample_record :: mp_log_record where
  "sample_record = \<lparr>sequence_id = 7, unix_epoch_millis = 0, level = MP_LOG_LEVEL_INFO,
     message = Some [CHR ''a'', CHR 0x22, CHR 0x0A], context_text = None,
     record_fields = Some [mp_log_field_bool (Some ''ok'') True]\<rparr>"

lemma sample_line_bound: "length (record_line mp_logger_config_init_defaults sample_record) < 400"
proof -
  let ?c = "mp_logger_config_init_defaults"
  have c: "format ?c = MP_LOG_FORMAT_JSON" "\<not> pretty_output ?c"
    "cstr (service_name ?c) = ''mp-service''" "cstr (environment_name ?c) = ''development''"
    by (simp_all add: mp_logger_config_init_defaults_def zeroed_config_def cstr_copy_trimmed cstr_Cons
        trim_def isspace_def char_code_def)
  have fs: "fields_of sample_record = [mp_log_field_bool (Some ''ok'') True]" "\<not> has_context sample_record"
    by (simp_all add: sample_record_def fields_of_def has_context_def)
  have "length (json_escape (timestamp_of sample_record)) \<le> 30"
    using length_timestamp_of [of sample_record] by (simp only: length_escapes_plain timestamp_of_plain)
  then show ?thesis
    using length_show_uint64 [of 7]
    by (simp add: record_line_def c json_line_def json_members_def fs mp_log_field_bool_def
        member_text_def ostr_def cstr_Cons mp_log_level_name_def del: length_concat)
      (simp add: sample_record_def ostr_def cstr_Cons json_char_def char_code_def)
qed

theorem render_record_spec_witness:
  "cstr (fst (mp_logger_render_record (Some mp_logger_config_init_defaults) (Some sample_record) (zeros 16) 16)) =
   take 15 (record_line mp_logger_config_init_defaults sample_record)"
  using render_record_spec [of 16 "zeros 16" mp_logger_config_init_defaults sample_record] sample_line_bound
  by (auto split: prod.splits)

text \<open>
  C5: a JSON line that fits its buffer is a JSON object with exactly the members of the record,
  in order: the strings byte for byte (quotes, backslashes, control characters and all), the
  numbers in their decimal text, the booleans, compact or pretty.
\<close>

theorem render_json_reads_back:
  assumes "format config = MP_LOG_FORMAT_JSON" and "list_all (\<lambda>f. renderable (field_value f)) (fields_of r)"
    and "unat capacity \<le> length buffer" and "length (json_line config r) < unat capacity"
  shows "read_object (cstr (fst (mp_logger_render_record (Some config) (Some r) buffer capacity))) =
    Some (json_object config r)"
proof -
  have line: "record_line config r = json_line config r" by (simp add: record_line_def assms(1))
  have "0 < capacity" using assms(4) by (simp add: word_pos_unat)
  moreover have "length (record_line config r) < 2 ^ 64 - 1"
    using assms(4) unat_less_2p64 [of capacity] by (simp add: line)
  ultimately have "cstr (fst (mp_logger_render_record (Some config) (Some r) buffer capacity)) = json_line config r"
    using render_record_eq [of capacity buffer config r] assms(3,4) NUL_notin_record_line [of config r]
    by (simp add: line cstr_overwrite_0)
  then show ?thesis by (simp add: read_json_line [OF assms(2)])
qed

theorem render_json_reads_back_witness:
  "read_object (cstr (fst (mp_logger_render_record (Some mp_logger_config_init_defaults) (Some sample_record)
      (zeros 512) 512))) = Some (json_object mp_logger_config_init_defaults sample_record)"
proof -
  have "format mp_logger_config_init_defaults = MP_LOG_FORMAT_JSON"
    by (simp add: mp_logger_config_init_defaults_def)
  then show ?thesis
    using render_json_reads_back [of mp_logger_config_init_defaults sample_record 512 "zeros 512"] sample_line_bound
    by (simp add: record_line_def) (simp add: sample_record_def fields_of_def mp_log_field_bool_def)
qed

text \<open>
  C33: a JSON line that does not fit is cut, and what is left of it is never a JSON object: the
  reader rejects it. The render capacity of a logger leaves no room for the growth of escaped
  text, so this happens to admitted records.
\<close>

theorem render_json_cut_invalid:
  assumes "format config = MP_LOG_FORMAT_JSON" and "list_all (\<lambda>f. renderable (field_value f)) (fields_of r)"
    and "0 < capacity" and "unat capacity \<le> length buffer"
    and "unat capacity \<le> length (json_line config r)" and "length (json_line config r) < 2 ^ 64 - 1"
  shows "read_object (cstr (fst (mp_logger_render_record (Some config) (Some r) buffer capacity))) = None"
proof -
  let ?l = "json_line config r"
  have line: "record_line config r = ?l" by (simp add: record_line_def assms(1))
  have "NUL \<notin> set (take (unat capacity - 1) (record_line config r))"
    by (meson NUL_notin_record_line in_set_takeD)
  then have cut: "cstr (fst (mp_logger_render_record (Some config) (Some r) buffer capacity)) =
      take (unat capacity - 1) ?l"
    using render_record_eq [of capacity buffer config r] assms(3,4,6) by (simp add: line cstr_overwrite_0)
  have "drop (unat capacity - 1) ?l \<noteq> []"
    using assms(3,5) by (simp add: word_pos_unat)
  moreover have "read_object (take (unat capacity - 1) ?l @ drop (unat capacity - 1) ?l) = Some (json_object config r)"
    by (simp add: read_json_line [OF assms(2)])
  ultimately show ?thesis
    unfolding cut by (rule read_object_prefix [rotated])
qed

text \<open>
  A record that queue admission accepts under the default configuration: a message and a
  context of control characters, which grow sixfold.
\<close>

definition control_record :: mp_log_record where
  "control_record = \<lparr>sequence_id = 0, unix_epoch_millis = 0, level = MP_LOG_LEVEL_INFO,
     message = Some (replicate 511 CHR 0x01), context_text = Some (replicate 1023 CHR 0x01),
     record_fields = None\<rparr>"

lemma cstr_replicate [simp]: "c \<noteq> NUL \<Longrightarrow> cstr (replicate n c) = replicate n c"
  by (rule cstr_id) simp

lemma control_record_line:
  "record_fits mp_logger_config_init_defaults control_record"
  "render_bound mp_logger_config_init_defaults = 3712"
  "4000 \<le> length (json_line mp_logger_config_init_defaults control_record)"
  "length (json_line mp_logger_config_init_defaults control_record) < 12000"
proof -
  let ?d = mp_logger_config_init_defaults
  have caps: "message_capacity ?d = 512" "context_capacity ?d = 1024" "field_capacity ?d = 8"
    "field_key_capacity ?d = 32" "field_value_capacity ?d = 128" "pretty_output ?d = False"
    by (simp_all add: mp_logger_config_init_defaults_def)
  have wf: "wf_config ?d" using config_inv_defaults by (simp add: config_inv_def)
  have strs: "ostr (message control_record) = replicate 511 CHR 0x01"
    "ostr (context_text control_record) = replicate 1023 CHR 0x01" "fields_of control_record = []"
    by (simp_all add: control_record_def ostr_def fields_of_def)
  have "replicate 1023 CHR 0x01 \<noteq> []" by (simp only: replicate_empty)
  then have ctx: "has_context control_record"
    by (simp only: has_context_def control_record_def mp_log_record.simps option.case cstr_replicate)
      (simp add: cstr_replicate del: replicate_Suc)
  show "record_fits ?d control_record"
    by (simp add: record_fits_def wf string_fits_def strs caps)
  show "render_bound ?d = 3712" by (simp add: render_bound_def caps)
  have esc: "length (concat (replicate n (json_char CHR 0x01))) = 6 * n" for n
    by (simp add: length_concat sum_list_replicate json_char_def show_hex4_def char_code_def)
  have le: "length (json_escape (timestamp_of control_record)) \<le> 30" "length (json_escape (cstr (service_name ?d))) \<le> 378"
      "length (json_escape (cstr (environment_name ?d))) \<le> 378"
      "length (json_escape (mp_log_level_name (level control_record))) \<le> 7"
  proof -
    have one: "length (json_char c) \<le> 6" for c by (simp add: json_char_def show_hex4_def)
    have six: "length (json_escape s) \<le> 6 * length s" for s
      by (induction s) (simp_all add: add_mono one)
    show "length (json_escape (cstr (service_name ?d))) \<le> 378" "length (json_escape (cstr (environment_name ?d))) \<le> 378"
      using six [of "cstr (service_name ?d)"] six [of "cstr (environment_name ?d)"] length_config_strings [OF wf] by auto
    show "length (json_escape (timestamp_of control_record)) \<le> 30" "length (json_escape (mp_log_level_name (level control_record))) \<le> 7"
      using length_timestamp_of [of control_record] length_level_name [of "level control_record"]
      by (simp_all only: length_escapes_plain timestamp_of_plain level_name_plain)
  qed
  have len: "length (json_line ?d control_record) =
      length (json_escape (timestamp_of control_record)) + length (json_escape (mp_log_level_name (level control_record))) +
      length (json_escape (cstr (service_name ?d))) + length (json_escape (cstr (environment_name ?d))) +
      length (show_uint64 (sequence_id control_record)) + 6 * 511 + 6 * 1023 + 93"
    unfolding json_line_def Let_def json_members_def
    by (simp add: caps ctx strs esc member_text_def del: length_concat replicate_Suc)
  show "4000 \<le> length (json_line ?d control_record)" "length (json_line ?d control_record) < 12000"
    using len le length_show_uint64 [of "sequence_id control_record"] by linarith+
qed

theorem render_json_cut_invalid_witness:
  "record_fits mp_logger_config_init_defaults control_record \<and>
   read_object (cstr (fst (mp_logger_render_record (Some mp_logger_config_init_defaults) (Some control_record)
     (zeros 3712) (mp_logger_render_capacity mp_logger_config_init_defaults)))) = None"
proof -
  let ?d = mp_logger_config_init_defaults
  have cap: "unat (mp_logger_render_capacity ?d) = 3712"
    using control_record_line(2) by (subst unat_render_capacity) simp_all
  moreover have "0 < mp_logger_render_capacity ?d" by (simp add: word_pos_unat cap)
  moreover have "format ?d = MP_LOG_FORMAT_JSON" by (simp add: mp_logger_config_init_defaults_def)
  moreover have "list_all (\<lambda>f. renderable (field_value f)) (fields_of control_record)"
    by (simp add: control_record_def fields_of_def)
  ultimately show ?thesis
    using render_json_cut_invalid [of ?d control_record "mp_logger_render_capacity ?d" "zeros 3712"]
      control_record_line by simp
qed

text \<open>
  C26: when no string needs an escape, the render capacity of the logger is enough: for every
  record within the configured capacities, in both formats, the line and its terminator fit.
\<close>

theorem render_capacity_suffices:
  assumes "record_fits c r" and "record_plain c r" and "render_bound c < 2 ^ 64"
  shows "length (record_line c r) < unat (mp_logger_render_capacity c)"
  using length_json_line [OF assms(1,2)] length_text_line [OF assms(1,2)] unat_render_capacity [OF assms(3)]
  by (simp add: record_line_def)

theorem render_capacity_suffices_witness:
  "length (record_line mp_logger_config_init_defaults (sample_record\<lparr>message := Some ''ok''\<rparr>)) < 3712"
proof -
  let ?d = mp_logger_config_init_defaults and ?r = "sample_record\<lparr>message := Some ''ok''\<rparr>"
  have caps: "message_capacity ?d = 512" "context_capacity ?d = 1024" "field_capacity ?d = 8"
    "field_key_capacity ?d = 32" "field_value_capacity ?d = 128"
    "cstr (service_name ?d) = ''mp-service''" "cstr (environment_name ?d) = ''development''"
    by (simp_all add: mp_logger_config_init_defaults_def zeroed_config_def cstr_copy_trimmed cstr_Cons
        trim_def isspace_def char_code_def)
  have r: "ostr (Some ''ok'') = ''ok''" "ostr (context_text sample_record) = []"
    "fields_of ?r = [mp_log_field_bool (Some ''ok'') True]"
    by (simp_all add: sample_record_def ostr_def fields_of_def cstr_Cons)
  have f: "ostr (field_key (mp_log_field_bool (Some ''ok'') True)) = ''ok''"
    "field_value (mp_log_field_bool (Some ''ok'') True) = MP_LOG_FIELD_BOOL True"
    by (simp_all add: mp_log_field_bool_def ostr_def cstr_Cons)
  have "wf_config ?d" using config_inv_defaults by (simp add: config_inv_def)
  then have "record_fits ?d ?r"
    by (simp add: record_fits_def string_fits_def r caps f)
  moreover have "record_plain ?d ?r"
    by (simp add: record_plain_def r caps f) (simp add: plain_def visible_def char_code_def)
  moreover have "unat (mp_logger_render_capacity ?d) = 3712"
    using control_record_line(2) by (subst unat_render_capacity) simp_all
  ultimately show ?thesis
    using render_capacity_suffices [of ?d ?r] control_record_line(2) by simp
qed

end
