(* ===== verification/Logger_Fields.thy ===== *)
theory Logger_Fields
  imports Logger_Json
begin

text \<open>
  Structured fields and queue slots (\<open>src/mp_logger.c\<close>): the validation of the fields of a
  call, the copy of a record into the storage of a slot and the copy out of it into the
  scratch buffers of the worker. A pointer into the storage of a slot is the bytes of the
  region it points at; \<open>copied_regions\<close> says that these stay the bytes of the storage.
\<close>

section \<open>Validation\<close>

definition mp_logger_is_reserved_field_key :: "cbuf option \<Rightarrow> bool" where
  "mp_logger_is_reserved_field_key key =
     (case key of None \<Rightarrow> False | Some k \<Rightarrow> list_ex (\<lambda>r. strcmp_eq k r) reserved_keys)"

definition key_char :: "char \<Rightarrow> bool" where
  "key_char c \<longleftrightarrow> isalnum c \<or> c = CHR ''_'' \<or> c = CHR ''-'' \<or> c = CHR ''.''"

fun key_chars_loop :: "cbuf \<Rightarrow> bool" where
  "key_chars_loop [] = True"
| "key_chars_loop (c # cs) = (if c = NUL then True else if \<not> key_char c then False else key_chars_loop cs)"

definition mp_logger_is_valid_field_key :: "cbuf option \<Rightarrow> bool" where
  "mp_logger_is_valid_field_key key =
     (case key of
        None \<Rightarrow> False
      | Some k \<Rightarrow> if cstr k = [] \<or> mp_logger_is_reserved_field_key key then False else key_chars_loop k)"

text \<open>The inner loop over the fields behind the current one.\<close>

fun duplicate_key :: "cbuf \<Rightarrow> mp_log_field list \<Rightarrow> bool" where
  "duplicate_key key [] = False"
| "duplicate_key key (other # others) =
     (if (case field_key other of None \<Rightarrow> False | Some k \<Rightarrow> strcmp_eq key k) then True
      else duplicate_key key others)"

fun validate_fields_loop :: "mp_logger_config \<Rightarrow> mp_log_field list \<Rightarrow> mp_log_status_t" where
  "validate_fields_loop config [] = MP_LOG_STATUS_OK"
| "validate_fields_loop config (field # others) =
     (case field_key field of
        None \<Rightarrow> MP_LOG_STATUS_INVALID_ARGUMENT
      | Some key \<Rightarrow>
          if \<not> mp_logger_is_valid_field_key (Some key) \<or> strlen key \<ge> unat (field_key_capacity config)
          then MP_LOG_STATUS_INVALID_ARGUMENT
          else if duplicate_key key others then MP_LOG_STATUS_INVALID_ARGUMENT
          else (case field_value field of
                  MP_LOG_FIELD_STRING (Some s) \<Rightarrow>
                    if strlen s \<ge> unat (field_value_capacity config) then MP_LOG_STATUS_LIMIT_EXCEEDED
                    else validate_fields_loop config others
                | MP_LOG_FIELD_FLOAT64 w \<Rightarrow>
                    if \<not> isfinite w then MP_LOG_STATUS_INVALID_ARGUMENT
                    else validate_fields_loop config others
                | Field_Other _ \<Rightarrow> MP_LOG_STATUS_INVALID_ARGUMENT
                | _ \<Rightarrow> validate_fields_loop config others))"

text \<open>\<open>fields_ptr\<close> points at an array of at least \<open>field_count\<close> elements when it is not \<open>NULL\<close>.\<close>

definition mp_logger_validate_fields ::
    "mp_logger_config option \<Rightarrow> mp_log_field list option \<Rightarrow> size_t \<Rightarrow> mp_log_status_t" where
  "mp_logger_validate_fields logger fields_ptr field_count =
     (if field_count = 0 then MP_LOG_STATUS_OK
      else case (logger, fields_ptr) of
             (Some config, Some fs) \<Rightarrow>
               if field_count > field_capacity config then MP_LOG_STATUS_LIMIT_EXCEEDED
               else validate_fields_loop config (take (unat field_count) fs)
           | _ \<Rightarrow> MP_LOG_STATUS_INVALID_ARGUMENT)"

text \<open>What a field has to be.\<close>

definition valid_key :: "string \<Rightarrow> bool" where
  "valid_key k \<longleftrightarrow> k \<noteq> [] \<and> k \<notin> set reserved_keys \<and> list_all key_char k"

fun valid_value :: "mp_logger_config \<Rightarrow> mp_log_field_value \<Rightarrow> bool" where
  "valid_value config (MP_LOG_FIELD_STRING v) = (v = None \<or> string_fits (field_value_capacity config) v)"
| "valid_value config v = renderable v"

definition valid_field :: "mp_logger_config \<Rightarrow> mp_log_field \<Rightarrow> bool" where
  "valid_field config f \<longleftrightarrow>
     valid_key (ostr (field_key f)) \<and> length (ostr (field_key f)) < unat (field_key_capacity config) \<and>
     valid_value config (field_value f)"

definition valid_fields :: "mp_logger_config \<Rightarrow> mp_log_field list \<Rightarrow> bool" where
  "valid_fields config fs \<longleftrightarrow>
     list_all (valid_field config) fs \<and> distinct (map (\<lambda>f. ostr (field_key f)) fs)"

lemma key_char_not_NUL [simp]: "\<not> key_char NUL"
  by (simp add: key_char_def)

lemma key_chars_loop_iff: "key_chars_loop k \<longleftrightarrow> list_all key_char (cstr k)"
  by (induction k) (auto simp: cstr_Cons)

lemma reserved_no_NUL: "r \<in> set reserved_keys \<Longrightarrow> cstr r = r"
  by (auto simp: reserved_keys_def cstr_Cons)

lemma is_valid_field_key_iff: "mp_logger_is_valid_field_key key \<longleftrightarrow> valid_key (ostr key)"
proof (cases key)
  case None
  then show ?thesis by (simp add: mp_logger_is_valid_field_key_def ostr_def valid_key_def)
next
  case (Some k)
  have "list_ex (\<lambda>r. strcmp_eq k r) reserved_keys \<longleftrightarrow> cstr k \<in> set reserved_keys"
    using reserved_no_NUL by (auto simp: list_ex_iff strcmp_eq_def)
  then show ?thesis
    by (simp add: mp_logger_is_valid_field_key_def mp_logger_is_reserved_field_key_def Some ostr_def
        valid_key_def key_chars_loop_iff)
qed

lemma duplicate_key_iff:
  "cstr key \<noteq> [] \<Longrightarrow> duplicate_key key fs \<longleftrightarrow> cstr key \<in> set (map (\<lambda>f. ostr (field_key f)) fs)"
  by (induction fs) (auto simp: ostr_def strcmp_eq_def split: option.splits)

lemma validate_fields_loop_iff:
  "validate_fields_loop config fs = MP_LOG_STATUS_OK \<longleftrightarrow> valid_fields config fs"
proof (induction fs)
  case Nil
  then show ?case by (simp add: valid_fields_def)
next
  case (Cons f fs)
  show ?case
  proof (cases "field_key f")
    case None
    then show ?thesis by (simp add: valid_fields_def valid_field_def valid_key_def ostr_def)
  next
    case (Some key)
    have key: "ostr (field_key f) = cstr key" by (simp add: Some ostr_def)
    show ?thesis
    proof (cases "valid_key (cstr key) \<and> strlen key < unat (field_key_capacity config)")
      case False
      then show ?thesis
        by (auto simp: Some is_valid_field_key_iff ostr_def valid_fields_def valid_field_def strlen_def)
    next
      case True
      then have "cstr key \<noteq> []" by (simp add: valid_key_def)
      then have dup: "duplicate_key key fs \<longleftrightarrow> cstr key \<in> (\<lambda>f. ostr (field_key f)) ` set fs"
        by (simp add: duplicate_key_iff)
      show ?thesis
        using True Cons dup
        by (cases "field_value f")
          (auto simp: Some is_valid_field_key_iff ostr_def valid_fields_def valid_field_def strlen_def
            string_fits_def not_le split: option.split)
    qed
  qed
qed

lemma validate_fields_iff:
  assumes "case fields_ptr of None \<Rightarrow> True | Some fs \<Rightarrow> unat field_count \<le> length fs"
  shows "mp_logger_validate_fields (Some config) fields_ptr field_count = MP_LOG_STATUS_OK \<longleftrightarrow>
    field_count = 0 \<or>
    (\<exists>fs. fields_ptr = Some fs \<and> field_count \<le> field_capacity config \<and>
      valid_fields config (take (unat field_count) fs))"
  using assms
  by (cases fields_ptr) (auto simp: mp_logger_validate_fields_def validate_fields_loop_iff)

section \<open>Slots\<close>

text \<open>
  A slot with its own storage: the buffers that \<open>mp_logger_allocate_buffers\<close> partitions among
  the slots. \<open>field_count\<close> counts the fields in use.
\<close>

record mp_log_slot =
  slot_sequence_id :: uint64_t
  slot_unix_epoch_millis :: int64_t
  slot_level :: mp_log_level_t
  message_length :: nat
  context_length :: nat
  slot_field_count :: nat
  message_buffer :: cbuf
  context_buffer :: cbuf
  slot_fields :: "mp_log_field list"
  slot_key_storage :: cbuf
  slot_string_storage :: cbuf

text \<open>\<open>n\<close> bytes of an array from \<open>pos\<close> on, and a call that is handed such a region.\<close>

definition region :: "nat \<Rightarrow> nat \<Rightarrow> cbuf \<Rightarrow> cbuf" where
  "region pos n b = take n (drop pos b)"

definition update_region :: "nat \<Rightarrow> nat \<Rightarrow> (cbuf \<Rightarrow> cbuf) \<Rightarrow> cbuf \<Rightarrow> cbuf" where
  "update_region pos n f b = overwrite b pos (f (region pos n b))"

text \<open>
  The body of the copying loop, for one field at \<open>index\<close>: the key and the string go into their
  regions of the storage, and the field of the destination points at them.
\<close>

definition copy_one_field ::
    "mp_logger_config \<Rightarrow> nat \<Rightarrow> mp_log_field \<Rightarrow> mp_log_field list \<times> cbuf \<times> cbuf \<Rightarrow>
     mp_log_field list \<times> cbuf \<times> cbuf" where
  "copy_one_field config index source st =
     (case st of (dest, keys, strings) \<Rightarrow>
        let kc = unat (field_key_capacity config); vc = unat (field_value_capacity config);
            keys' = update_region (index * kc) kc (\<lambda>b. fst (mp_logger_copy_truncated b kc (field_key source))) keys;
            key_buffer = Some (region (index * kc) kc keys')
        in case field_value source of
             MP_LOG_FIELD_STRING v \<Rightarrow>
               let strings' = update_region (index * vc) vc
                     (\<lambda>b. fst (mp_logger_copy_truncated b vc (Some (case v of None \<Rightarrow> [] | Some s \<Rightarrow> s)))) strings
               in (dest[index := \<lparr>field_key = key_buffer,
                     field_value = MP_LOG_FIELD_STRING (Some (region (index * vc) vc strings'))\<rparr>], keys', strings')
           | v \<Rightarrow> (dest[index := \<lparr>field_key = key_buffer, field_value = v\<rparr>], keys', strings))"

fun copy_fields_loop ::
    "mp_logger_config \<Rightarrow> nat \<Rightarrow> mp_log_field list \<Rightarrow> mp_log_field list \<times> cbuf \<times> cbuf \<Rightarrow>
     mp_log_field list \<times> cbuf \<times> cbuf" where
  "copy_fields_loop config index [] st = st"
| "copy_fields_loop config index (source # sources) st =
     copy_fields_loop config (index + 1) sources (copy_one_field config index source st)"

definition mp_logger_copy_fields_to_slot ::
    "mp_logger_config \<Rightarrow> mp_log_slot \<Rightarrow> mp_log_field list option \<Rightarrow> size_t \<Rightarrow> mp_log_slot" where
  "mp_logger_copy_fields_to_slot config slot fields_ptr count =
     (let sources = take (unat count) (case fields_ptr of None \<Rightarrow> [] | Some fs \<Rightarrow> fs);
          (dest, keys, strings) = copy_fields_loop config 0 sources
            (slot_fields slot, slot_key_storage slot, slot_string_storage slot)
      in slot\<lparr>slot_field_count := unat count, slot_fields := dest, slot_key_storage := keys,
           slot_string_storage := strings\<rparr>)"

text \<open>The scratch buffers of the worker.\<close>

record scratch =
  scratch_message :: cbuf
  scratch_context :: cbuf
  scratch_fields :: "mp_log_field list"
  scratch_keys :: cbuf
  scratch_strings :: cbuf

definition mp_logger_copy_record_from_slot ::
    "mp_logger_config \<Rightarrow> mp_log_slot \<Rightarrow> scratch \<Rightarrow> mp_log_record \<times> scratch" where
  "mp_logger_copy_record_from_slot config slot sc =
     (let message = overwrite (scratch_message sc) 0 (take (message_length slot + 1) (message_buffer slot));
          ctext = overwrite (scratch_context sc) 0 (take (context_length slot + 1) (context_buffer slot));
          (dest, keys, strings) = copy_fields_loop config 0 (take (slot_field_count slot) (slot_fields slot))
            (scratch_fields sc, scratch_keys sc, scratch_strings sc)
      in (\<lparr>sequence_id = slot_sequence_id slot, unix_epoch_millis = slot_unix_epoch_millis slot,
            level = slot_level slot, message = Some message, context_text = Some ctext,
            record_fields = Some (take (slot_field_count slot) dest)\<rparr>,
          \<lparr>scratch_message = message, scratch_context = ctext, scratch_fields = dest,
            scratch_keys = keys, scratch_strings = strings\<rparr>))"

section \<open>Copying keeps to its regions\<close>

lemma length_region [simp]: "pos + n \<le> length b \<Longrightarrow> length (region pos n b) = n"
  by (simp add: region_def)

lemma region_overwrite_same: "pos + length s \<le> length b \<Longrightarrow> region pos (length s) (overwrite b pos s) = s"
  by (simp add: region_def overwrite_def)

lemma region_overwrite_other:
  assumes "pos + n \<le> p \<or> p + length s \<le> pos" and "p + length s \<le> length b"
  shows "region pos n (overwrite b p s) = region pos n b"
proof (rule nth_equalityI)
  show "length (region pos n (overwrite b p s)) = length (region pos n b)"
    using assms(2) by (simp add: region_def)
  fix i assume "i < length (region pos n (overwrite b p s))"
  then have i: "i < n" "pos + i < length b"
    using assms(2) by (auto simp: region_def)
  have "overwrite b p s ! (pos + i) = b ! (pos + i)"
    using assms i by (auto simp: overwrite_def nth_append min_def)
  then show "region pos n (overwrite b p s) ! i = region pos n b ! i"
    using i assms(2) by (simp add: region_def)
qed

lemma length_update_region:
  "pos + n \<le> length b \<Longrightarrow> (\<And>x. length x = n \<Longrightarrow> length (f x) = n) \<Longrightarrow>
   length (update_region pos n f b) = length b"
  by (simp add: update_region_def)

lemma region_update_same:
  assumes "pos + n \<le> length b" and "\<And>x. length x = n \<Longrightarrow> length (f x) = n"
  shows "region pos n (update_region pos n f b) = f (region pos n b)"
proof -
  have "length (f (region pos n b)) = n" using assms by simp
  then show ?thesis
    using region_overwrite_same [of pos "f (region pos n b)" b] assms(1) by (simp add: update_region_def)
qed

lemma region_update_other:
  "pos + n \<le> p \<or> p + m \<le> pos \<Longrightarrow> p + m \<le> length b \<Longrightarrow> (\<And>x. length x = m \<Longrightarrow> length (f x) = m) \<Longrightarrow>
   region pos n (update_region p m f b) = region pos n b"
  by (simp add: update_region_def region_overwrite_other)

text \<open>The storage of \<open>fc\<close> fields, and the pointers of the first \<open>n\<close> of them.\<close>

definition storage_ok :: "mp_logger_config \<Rightarrow> nat \<Rightarrow> mp_log_field list \<times> cbuf \<times> cbuf \<Rightarrow> bool" where
  "storage_ok config fc st \<longleftrightarrow>
     (case st of (dest, keys, strings) \<Rightarrow>
        length dest = fc \<and> length keys = fc * unat (field_key_capacity config) \<and>
        length strings = fc * unat (field_value_capacity config))"

definition copied_regions :: "mp_logger_config \<Rightarrow> nat \<Rightarrow> mp_log_field list \<times> cbuf \<times> cbuf \<Rightarrow> bool" where
  "copied_regions config n st \<longleftrightarrow>
     (case st of (dest, keys, strings) \<Rightarrow>
        \<forall>i < n.
          field_key (dest ! i) =
            Some (region (i * unat (field_key_capacity config)) (unat (field_key_capacity config)) keys) \<and>
          (\<forall>v. field_value (dest ! i) = MP_LOG_FIELD_STRING v \<longrightarrow>
             v = Some (region (i * unat (field_value_capacity config)) (unat (field_value_capacity config)) strings)))"

text \<open>A field as the strings in it, and what the copy of a field holds.\<close>

fun value_view :: "nat \<Rightarrow> mp_log_field_value \<Rightarrow> mp_log_field_value" where
  "value_view n (MP_LOG_FIELD_STRING v) = MP_LOG_FIELD_STRING (Some (take n (ostr v)))"
| "value_view n v = v"

definition field_view :: "mp_log_field \<Rightarrow> mp_log_field" where
  "field_view f = \<lparr>field_key = Some (ostr (field_key f)),
     field_value = (case field_value f of MP_LOG_FIELD_STRING v \<Rightarrow> MP_LOG_FIELD_STRING (Some (ostr v)) | v \<Rightarrow> v)\<rparr>"

definition truncated_field :: "mp_logger_config \<Rightarrow> mp_log_field \<Rightarrow> mp_log_field" where
  "truncated_field config f =
     \<lparr>field_key = Some (take (unat (field_key_capacity config) - 1) (ostr (field_key f))),
      field_value = value_view (unat (field_value_capacity config) - 1) (field_value f)\<rparr>"

lemma truncated_valid_field: "valid_field config f \<Longrightarrow> truncated_field config f = field_view f"
  by (cases "field_value f")
    (auto simp: valid_field_def truncated_field_def field_view_def string_fits_def ostr_def)

lemma cstr_copied:
  "0 < n \<Longrightarrow> length b = n \<Longrightarrow> cstr (fst (mp_logger_copy_truncated b n v)) = take (n - 1) (ostr v)"
proof (cases v)
  case None
  assume "0 < n" "length b = n"
  then show ?thesis
    by (cases b) (simp_all add: None mp_logger_copy_truncated_def ostr_def cstr_Cons)
qed (simp add: cstr_copy_truncated ostr_def)

lemma region_in: "i < fc \<Longrightarrow> i * n + n \<le> fc * (n :: nat)"
  by (metis Suc_leI add.commute mult_Suc mult_le_mono1)

lemma regions_apart: "i \<noteq> j \<Longrightarrow> i * n + n \<le> j * n \<or> j * n + n \<le> i * (n :: nat)"
  by (metis nat_neq_iff region_in)

lemma copy_one_field_spec:
  assumes ok: "storage_ok config fc (dest, keys, strings)" and index: "index < fc"
    and cap: "0 < field_key_capacity config" "0 < field_value_capacity config"
    and eq: "copy_one_field config index source (dest, keys, strings) = (dest', keys', strings')"
  shows "storage_ok config fc (dest', keys', strings')"
    and "field_view (dest' ! index) = truncated_field config source"
    and "\<And>j. j \<noteq> index \<Longrightarrow> dest' ! j = dest ! j"
    and "copied_regions config index (dest, keys, strings) \<Longrightarrow> copied_regions config (Suc index) (dest', keys', strings')"
proof -
  let ?kc = "unat (field_key_capacity config)" and ?vc = "unat (field_value_capacity config)"
  let ?fk = "\<lambda>b. fst (mp_logger_copy_truncated b ?kc (field_key source))"
  let ?fv = "\<lambda>v b. fst (mp_logger_copy_truncated b ?vc (Some (case v of None \<Rightarrow> [] | Some s \<Rightarrow> s)))"
  have pos: "0 < ?kc" "0 < ?vc" using cap by (simp_all add: word_pos_unat)
  have len: "length dest = fc" "length keys = fc * ?kc" "length strings = fc * ?vc"
    using ok by (simp_all add: storage_ok_def)
  have kin: "index * ?kc + ?kc \<le> length keys" and vin: "index * ?vc + ?vc \<le> length strings"
    using region_in [OF index] len by simp_all
  have lk: "length x = ?kc \<Longrightarrow> length (?fk x) = ?kc" and lv: "length x = ?vc \<Longrightarrow> length (?fv v x) = ?vc" for x v
    by simp_all
  have keys': "keys' = update_region (index * ?kc) ?kc ?fk keys"
    and strings': "strings' = (case field_value source of MP_LOG_FIELD_STRING v \<Rightarrow>
      update_region (index * ?vc) ?vc (?fv v) strings | _ \<Rightarrow> strings)"
    and dest': "dest' = dest[index := \<lparr>field_key = Some (region (index * ?kc) ?kc keys'),
      field_value = (case field_value source of MP_LOG_FIELD_STRING v \<Rightarrow>
        MP_LOG_FIELD_STRING (Some (region (index * ?vc) ?vc strings')) | v \<Rightarrow> v)\<rparr>]"
    using eq by (auto simp: copy_one_field_def Let_def split: mp_log_field_value.splits)
  have klen: "length keys' = length keys"
    unfolding keys' by (rule length_update_region [OF kin]) (rule lk)
  have vlen: "length strings' = length strings"
    using length_update_region [OF vin, of "?fv v" for v] lv
    by (auto simp: strings' split: mp_log_field_value.split)
  show "storage_ok config fc (dest', keys', strings')"
    using klen vlen len by (simp add: storage_ok_def dest')
  show "\<And>j. j \<noteq> index \<Longrightarrow> dest' ! j = dest ! j"
    by (simp add: dest')
  have kr: "cstr (region (index * ?kc) ?kc keys') = take (?kc - 1) (ostr (field_key source))"
    unfolding keys' by (subst region_update_same [OF kin], rule lk) (use pos kin in \<open>simp_all add: cstr_copied\<close>)
  have vr: "cstr (region (index * ?vc) ?vc strings') = take (?vc - 1) (ostr v)"
    if "field_value source = MP_LOG_FIELD_STRING v" for v
  proof -
    have "strings' = update_region (index * ?vc) ?vc (?fv v) strings" by (simp add: strings' that)
    then have "region (index * ?vc) ?vc strings' = ?fv v (region (index * ?vc) ?vc strings)"
      using region_update_same [OF vin, of "?fv v"] lv by simp
    then have "cstr (region (index * ?vc) ?vc strings') = take (?vc - 1) (ostr (Some (case v of None \<Rightarrow> [] | Some s \<Rightarrow> s)))"
      using pos vin by (simp only: cstr_copied length_region)
    then show ?thesis by (simp add: ostr_Some_case)
  qed
  show "field_view (dest' ! index) = truncated_field config source"
    using index len kr vr
    by (cases "field_value source") (simp_all add: dest' field_view_def truncated_field_def ostr_def)
  assume regions: "copied_regions config index (dest, keys, strings)"
  show "copied_regions config (Suc index) (dest', keys', strings')"
    unfolding copied_regions_def prod.case
  proof (intro allI impI)
    fix i assume "i < Suc index"
    show "field_key (dest' ! i) = Some (region (i * ?kc) ?kc keys') \<and>
      (\<forall>v. field_value (dest' ! i) = MP_LOG_FIELD_STRING v \<longrightarrow> v = Some (region (i * ?vc) ?vc strings'))"
    proof (cases "i = index")
      case True
      then show ?thesis
        using index len by (auto simp: dest' split: mp_log_field_value.splits)
    next
      case False
      then have i: "i < index" using \<open>i < Suc index\<close> by simp
      have "region (i * ?kc) ?kc keys' = region (i * ?kc) ?kc keys"
        unfolding keys' by (rule region_update_other [OF regions_apart kin]) (use False lk in simp_all)
      moreover have "region (i * ?vc) ?vc (update_region (index * ?vc) ?vc (?fv v) strings) = region (i * ?vc) ?vc strings" for v
        by (rule region_update_other [OF regions_apart vin]) (use False lv in simp_all)
      then have "region (i * ?vc) ?vc strings' = region (i * ?vc) ?vc strings"
        by (simp add: strings' split: mp_log_field_value.split)
      ultimately show ?thesis
        using regions i False by (simp add: copied_regions_def dest')
    qed
  qed
qed

lemma copy_fields_loop_spec:
  assumes "storage_ok config fc st" and "index + length sources \<le> fc"
    and "0 < field_key_capacity config" "0 < field_value_capacity config" and "copied_regions config index st"
  shows "storage_ok config fc (copy_fields_loop config index sources st) \<and>
    copied_regions config (index + length sources) (copy_fields_loop config index sources st) \<and>
    (\<forall>i < length sources. field_view (fst (copy_fields_loop config index sources st) ! (index + i)) =
       truncated_field config (sources ! i)) \<and>
    (\<forall>j < index. fst (copy_fields_loop config index sources st) ! j = fst st ! j)"
  using assms(1,2,5)
proof (induction sources arbitrary: index st)
  case Nil
  then show ?case by simp
next
  case (Cons source sources)
  obtain dest keys strings where st: "st = (dest, keys, strings)" by (cases st)
  obtain dest' keys' strings' where st': "copy_one_field config index source st = (dest', keys', strings')"
    by (cases "copy_one_field config index source st")
  have index: "index < fc" using Cons.prems by simp
  note step = copy_one_field_spec [OF Cons.prems(1) [unfolded st] index assms(3,4) st' [unfolded st]]
  let ?r = "copy_fields_loop config (index + 1) sources (dest', keys', strings')"
  have IH: "storage_ok config fc ?r" "copied_regions config (index + 1 + length sources) ?r"
    "\<And>i. i < length sources \<Longrightarrow> field_view (fst ?r ! (index + 1 + i)) = truncated_field config (sources ! i)"
    "\<And>j. j < index + 1 \<Longrightarrow> fst ?r ! j = dest' ! j"
    using Cons.IH [OF step(1), of "index + 1"] step(4) Cons.prems st by simp_all
  have "field_view (fst ?r ! (index + i)) = truncated_field config ((source # sources) ! i)"
    if "i < length (source # sources)" for i
  proof (cases i)
    case 0
    then show ?thesis using IH(4) [of index] step(2) by simp
  next
    case (Suc k)
    then show ?thesis using IH(3) [of k] that by simp
  qed
  then show ?case
    using IH(1,2,4) step(3) by (simp add: st st' [unfolded st])
qed

section \<open>Filling a slot and reading it back\<close>

text \<open>
  The assignments of \<open>mp_logger_enqueue_record\<close> to the slot at the tail, once the record is
  admitted: sequence number, time, level, the truncated message and context, the fields.
\<close>

definition fill_slot ::
    "mp_logger_config \<Rightarrow> mp_log_slot \<Rightarrow> uint64_t \<Rightarrow> int64_t \<Rightarrow> mp_log_level_t \<Rightarrow> cbuf \<Rightarrow> cbuf option \<Rightarrow>
     mp_log_field list option \<Rightarrow> size_t \<Rightarrow> mp_log_slot" where
  "fill_slot config slot seq now lvl msg ctx fields_ptr count =
     (let (mb, ml) = mp_logger_copy_truncated (message_buffer slot) (unat (message_capacity config)) (Some msg);
          (cb, cl) = mp_logger_copy_truncated (context_buffer slot) (unat (context_capacity config))
            (Some (case ctx of None \<Rightarrow> [] | Some c \<Rightarrow> c))
      in mp_logger_copy_fields_to_slot config
           (slot\<lparr>slot_sequence_id := seq, slot_unix_epoch_millis := now, slot_level := lvl,
              message_buffer := mb, message_length := ml, context_buffer := cb, context_length := cl\<rparr>)
           fields_ptr count)"

definition wf_slot :: "mp_logger_config \<Rightarrow> mp_log_slot \<Rightarrow> bool" where
  "wf_slot config slot \<longleftrightarrow>
     length (message_buffer slot) = unat (message_capacity config) \<and>
     length (context_buffer slot) = unat (context_capacity config) \<and>
     storage_ok config (unat (field_capacity config))
       (slot_fields slot, slot_key_storage slot, slot_string_storage slot)"

definition wf_scratch :: "mp_logger_config \<Rightarrow> scratch \<Rightarrow> bool" where
  "wf_scratch config sc \<longleftrightarrow>
     length (scratch_message sc) = unat (message_capacity config) \<and>
     length (scratch_context sc) = unat (context_capacity config) \<and>
     storage_ok config (unat (field_capacity config))
       (scratch_fields sc, scratch_keys sc, scratch_strings sc)"

text \<open>The capacities that \<open>mp_logger_validate_config\<close> asks for.\<close>

definition capacities_ok :: "mp_logger_config \<Rightarrow> bool" where
  "capacities_ok c \<longleftrightarrow>
     0 < buffer_capacity c \<and> 1 < message_capacity c \<and> 1 < context_capacity c \<and>
     0 < field_capacity c \<and> 1 < field_key_capacity c \<and> 1 < field_value_capacity c"

lemma validate_config_capacities: "mp_logger_validate_config c \<Longrightarrow> capacities_ok c"
  by (simp add: mp_logger_validate_config_def capacities_ok_def)

lemma capacities_pos:
  assumes "capacities_ok c"
  shows "0 < buffer_capacity c" "0 < message_capacity c" "0 < context_capacity c" "0 < field_key_capacity c"
    "0 < field_value_capacity c"
  using assms order_le_less_trans [OF word_zero_le, of 1] by (auto simp: capacities_ok_def)

lemma copied_regions_0 [simp]: "copied_regions config 0 st"
  by (simp add: copied_regions_def split: prod.split)

text \<open>The fields of a call as a list, and the record that the call is to deliver.\<close>

definition call_fields :: "mp_log_field list option \<Rightarrow> size_t \<Rightarrow> mp_log_field list" where
  "call_fields fields_ptr count = take (unat count) (case fields_ptr of None \<Rightarrow> [] | Some fs \<Rightarrow> fs)"

record record_view =
  view_sequence_id :: uint64_t
  view_millis :: int64_t
  view_level :: mp_log_level_t
  view_message :: string
  view_context :: string
  view_fields :: "mp_log_field list"

definition view_of :: "mp_log_record \<Rightarrow> record_view" where
  "view_of r = \<lparr>view_sequence_id = sequence_id r, view_millis = unix_epoch_millis r, view_level = level r,
     view_message = ostr (message r), view_context = ostr (context_text r),
     view_fields = map field_view (fields_of r)\<rparr>"

text \<open>The record in a slot.\<close>

definition slot_view :: "mp_log_slot \<Rightarrow> record_view" where
  "slot_view slot = \<lparr>view_sequence_id = slot_sequence_id slot, view_millis = slot_unix_epoch_millis slot,
     view_level = slot_level slot, view_message = cstr (message_buffer slot),
     view_context = cstr (context_buffer slot),
     view_fields = map field_view (take (slot_field_count slot) (slot_fields slot))\<rparr>"

text \<open>A slot that holds a record: terminated texts of the recorded lengths, fields within capacity.\<close>

definition filled_slot :: "mp_logger_config \<Rightarrow> mp_log_slot \<Rightarrow> bool" where
  "filled_slot config slot \<longleftrightarrow>
     wf_slot config slot \<and>
     message_length slot = strlen (message_buffer slot) \<and> message_length slot < unat (message_capacity config) \<and>
     context_length slot = strlen (context_buffer slot) \<and> context_length slot < unat (context_capacity config) \<and>
     slot_field_count slot \<le> unat (field_capacity config) \<and>
     list_all (valid_field config) (take (slot_field_count slot) (slot_fields slot))"

lemma copy_truncated_array:
  assumes "0 < n" and "length b = n" and "mp_logger_copy_truncated b n (Some s) = (b', l)"
  shows "length b' = n" and "cstr b' = take (n - 1) (cstr s)" and "l = strlen b'" and "l < n"
proof -
  have eq: "b' = fst (mp_logger_copy_truncated b n (Some s))" "l = min (n - 1) (strlen s)"
    using assms by (simp_all add: mp_logger_copy_truncated_eq)
  show "length b' = n" "cstr b' = take (n - 1) (cstr s)"
    using assms(1,2) by (simp_all add: eq cstr_copy_truncated)
  then show "l = strlen b'" "l < n"
    using assms(1) by (auto simp: eq strlen_def min.commute)
qed

lemma view_truncated_cong: "field_view f = field_view g \<Longrightarrow> truncated_field config f = truncated_field config g"
proof -
  assume "field_view f = field_view g"
  then have "ostr (field_key f) = ostr (field_key g)" "value_view n (field_value f) = value_view n (field_value g)" for n
    by (auto simp: field_view_def split: mp_log_field_value.splits)
  then show ?thesis by (simp add: truncated_field_def)
qed

lemma valid_field_view: "0 < field_value_capacity config \<Longrightarrow>
  field_view f = field_view g \<Longrightarrow> valid_field config f \<Longrightarrow> valid_field config g"
proof -
  assume pos: "0 < field_value_capacity config" and view: "field_view f = field_view g" and f: "valid_field config f"
  have "ostr (field_key g) = ostr (field_key f)" using view by (simp add: field_view_def)
  moreover have "valid_value config (field_value g)"
    using view f pos by (cases "field_value f"; cases "field_value g")
      (auto simp: field_view_def valid_field_def string_fits_def ostr_def word_pos_unat)
  ultimately show ?thesis using f by (simp add: valid_field_def)
qed

lemma take_Suc_strlen: "strlen b < length b \<Longrightarrow> take (strlen b + 1) b = cstr b @ [NUL]"
proof -
  assume lt: "strlen b < length b"
  then have "b ! strlen b = NUL"
    using nth_length_takeWhile [of "\<lambda>c. c \<noteq> NUL" b] lt by (simp add: strlen_def cstr_def)
  then show ?thesis
    using lt by (simp add: take_Suc_conv_app_nth flip: cstr_take_strlen)
qed

lemma fill_slot_spec:
  assumes slot: "wf_slot config slot" and caps: "capacities_ok config"
    and fs: "length (call_fields fields_ptr count) = unat count" "count \<le> field_capacity config"
      "list_all (valid_field config) (call_fields fields_ptr count)"
    and slot'_def: "slot' = fill_slot config slot seq now lvl msg ctx fields_ptr count"
  shows "filled_slot config slot'"
    and "slot_view slot' = \<lparr>view_sequence_id = seq, view_millis = now, view_level = lvl,
      view_message = take (unat (message_capacity config) - 1) (cstr msg),
      view_context = take (unat (context_capacity config) - 1) (ostr ctx),
      view_fields = map field_view (call_fields fields_ptr count)\<rparr>"
    and "copied_regions config (unat count) (slot_fields slot', slot_key_storage slot', slot_string_storage slot')"
proof -
  note pos = capacities_pos [OF caps, unfolded word_pos_unat]
  obtain mb ml where m: "mp_logger_copy_truncated (message_buffer slot) (unat (message_capacity config)) (Some msg) = (mb, ml)"
    by (metis surj_pair)
  obtain cb cl where c: "mp_logger_copy_truncated (context_buffer slot) (unat (context_capacity config))
      (Some (case ctx of None \<Rightarrow> [] | Some x \<Rightarrow> x)) = (cb, cl)"
    by (metis surj_pair)
  let ?fs = "call_fields fields_ptr count"
  obtain dest keys strings where loop: "copy_fields_loop config 0 ?fs
      (slot_fields slot, slot_key_storage slot, slot_string_storage slot) = (dest, keys, strings)"
    by (metis prod_cases3)
  have mcopy: "length mb = unat (message_capacity config)" "cstr mb = take (unat (message_capacity config) - 1) (cstr msg)"
      "ml = strlen mb" "ml < unat (message_capacity config)"
    using copy_truncated_array [OF pos(2) _ m] slot by (simp_all add: wf_slot_def)
  have ccopy: "length cb = unat (context_capacity config)" "cstr cb = take (unat (context_capacity config) - 1) (ostr ctx)"
      "cl = strlen cb" "cl < unat (context_capacity config)"
    using copy_truncated_array [OF pos(3) _ c] slot by (simp_all add: wf_slot_def ostr_def split: option.splits)
  have le: "unat count \<le> unat (field_capacity config)" using fs(2) by (simp add: word_le_nat_alt)
  have ok: "storage_ok config (unat (field_capacity config)) (slot_fields slot, slot_key_storage slot, slot_string_storage slot)"
    using slot by (simp add: wf_slot_def)
  have copied: "storage_ok config (unat (field_capacity config)) (dest, keys, strings)"
      "copied_regions config (unat count) (dest, keys, strings)"
      "\<And>i. i < unat count \<Longrightarrow> field_view (dest ! i) = truncated_field config (?fs ! i)"
    using copy_fields_loop_spec [OF ok, of 0 ?fs] fs(1) le capacities_pos(4,5) [OF caps]
    by (simp_all add: loop)
  have len: "length dest = unat (field_capacity config)" using copied(1) by (simp add: storage_ok_def)
  have slot': "slot' = slot\<lparr>slot_sequence_id := seq, slot_unix_epoch_millis := now, slot_level := lvl,
      message_buffer := mb, message_length := ml, context_buffer := cb, context_length := cl,
      slot_field_count := unat count, slot_fields := dest, slot_key_storage := keys, slot_string_storage := strings\<rparr>"
    by (simp add: slot'_def fill_slot_def m c mp_logger_copy_fields_to_slot_def loop [unfolded call_fields_def])
  have view: "field_view (dest ! i) = field_view (?fs ! i)" if "i < unat count" for i
    using copied(3) [OF that] fs(1,3) that by (simp add: truncated_valid_field list_all_length)
  have views: "map field_view (take (unat count) dest) = map field_view ?fs"
    using view fs(1) le len by (intro nth_equalityI) simp_all
  have "list_all (valid_field config) (take (unat count) dest)"
    using view fs(1,3) le len capacities_pos(5) [OF caps]
    by (auto simp: list_all_length intro: valid_field_view [of config "?fs ! i" for i])
  then show "filled_slot config slot'"
    using mcopy ccopy copied(1) le by (simp add: filled_slot_def wf_slot_def slot')
  show "slot_view slot' = \<lparr>view_sequence_id = seq, view_millis = now, view_level = lvl,
      view_message = take (unat (message_capacity config) - 1) (cstr msg),
      view_context = take (unat (context_capacity config) - 1) (ostr ctx),
      view_fields = map field_view ?fs\<rparr>"
    using mcopy ccopy views by (simp add: slot_view_def slot')
  show "copied_regions config (unat count) (slot_fields slot', slot_key_storage slot', slot_string_storage slot')"
    using copied(2) by (simp add: slot')
qed

lemma copy_record_spec:
  assumes slot: "filled_slot config slot" and sc: "wf_scratch config sc" and caps: "capacities_ok config"
    and eq: "mp_logger_copy_record_from_slot config slot sc = (r, sc')"
  shows "view_of r = slot_view slot" and "wf_scratch config sc'"
    and "list_all (valid_field config) (fields_of r)" and "length (fields_of r) \<le> unat (field_capacity config)"
    and "ostr (message r) = cstr (message_buffer slot)" and "ostr (context_text r) = cstr (context_buffer slot)"
proof -
  let ?n = "slot_field_count slot" and ?fs = "take (slot_field_count slot) (slot_fields slot)"
  obtain dest keys strings where loop: "copy_fields_loop config 0 ?fs
      (scratch_fields sc, scratch_keys sc, scratch_strings sc) = (dest, keys, strings)"
    by (metis prod_cases3)
  have wf: "length (message_buffer slot) = unat (message_capacity config)"
      "length (context_buffer slot) = unat (context_capacity config)"
      "length (slot_fields slot) = unat (field_capacity config)" "?n \<le> unat (field_capacity config)"
    using slot by (simp_all add: filled_slot_def wf_slot_def storage_ok_def)
  have ok: "storage_ok config (unat (field_capacity config)) (scratch_fields sc, scratch_keys sc, scratch_strings sc)"
    using sc by (simp add: wf_scratch_def)
  have copied: "storage_ok config (unat (field_capacity config)) (dest, keys, strings)"
      "\<And>i. i < ?n \<Longrightarrow> field_view (dest ! i) = truncated_field config (?fs ! i)"
    using copy_fields_loop_spec [OF ok, of 0 ?fs] wf capacities_pos(4,5) [OF caps]
    by (simp_all add: loop)
  have len: "length dest = unat (field_capacity config)" using copied(1) by (simp add: storage_ok_def)
  have mtake: "take (message_length slot + 1) (message_buffer slot) = cstr (message_buffer slot) @ [NUL]"
    and ctake: "take (context_length slot + 1) (context_buffer slot) = cstr (context_buffer slot) @ [NUL]"
    using slot wf take_Suc_strlen [of "message_buffer slot"] take_Suc_strlen [of "context_buffer slot"]
    by (simp_all add: filled_slot_def)
  have r: "r = \<lparr>sequence_id = slot_sequence_id slot, unix_epoch_millis = slot_unix_epoch_millis slot,
      level = slot_level slot, message = Some (overwrite (scratch_message sc) 0 (cstr (message_buffer slot) @ [NUL])),
      context_text = Some (overwrite (scratch_context sc) 0 (cstr (context_buffer slot) @ [NUL])),
      record_fields = Some (take ?n dest)\<rparr>"
    and sc': "sc' = \<lparr>scratch_message = overwrite (scratch_message sc) 0 (cstr (message_buffer slot) @ [NUL]),
      scratch_context = overwrite (scratch_context sc) 0 (cstr (context_buffer slot) @ [NUL]),
      scratch_fields = dest, scratch_keys = keys, scratch_strings = strings\<rparr>"
    using eq unfolding mp_logger_copy_record_from_slot_def mtake ctake loop by (simp_all add: Let_def)
  show msgs: "ostr (message r) = cstr (message_buffer slot)" "ostr (context_text r) = cstr (context_buffer slot)"
    by (simp_all add: r ostr_def cstr_overwrite_0)
  have valid: "valid_field config (?fs ! i)" if "i < ?n" for i
    using slot that wf by (simp add: filled_slot_def list_all_length)
  have view: "field_view (dest ! i) = field_view (?fs ! i)" if "i < ?n" for i
    using copied(2) [OF that] valid [OF that] by (simp add: truncated_valid_field)
  have fields: "fields_of r = take ?n dest" by (simp add: r fields_of_def)
  have "map field_view (take ?n dest) = map field_view ?fs"
    using view wf len by (intro nth_equalityI) simp_all
  then show "view_of r = slot_view slot"
    using msgs fields by (simp add: view_of_def slot_view_def) (simp add: r)
  have "valid_field config (dest ! i)" if "i < ?n" for i
    using valid_field_view [OF capacities_pos(5) [OF caps] view [OF that, symmetric] valid [OF that]] .
  then show "list_all (valid_field config) (fields_of r)" "length (fields_of r) \<le> unat (field_capacity config)"
    using wf len by (simp_all add: fields list_all_length)
  have "length (cstr (message_buffer slot) @ [NUL]) \<le> length (scratch_message sc)"
    "length (cstr (context_buffer slot) @ [NUL]) \<le> length (scratch_context sc)"
    using slot sc by (simp_all add: filled_slot_def wf_scratch_def strlen_def)
  then show "wf_scratch config sc'"
    using sc copied(1) by (simp add: wf_scratch_def sc')
qed

text \<open>What an accepted call has passed.\<close>

definition fields_readable :: "mp_log_field list option \<Rightarrow> size_t \<Rightarrow> bool" where
  "fields_readable fields_ptr count = (case fields_ptr of None \<Rightarrow> True | Some fs \<Rightarrow> unat count \<le> length fs)"

lemma accepted_fields:
  assumes "fields_readable fields_ptr count"
    and "mp_logger_validate_fields (Some config) fields_ptr count = MP_LOG_STATUS_OK"
  shows "length (call_fields fields_ptr count) = unat count" and "count \<le> field_capacity config"
    and "valid_fields config (call_fields fields_ptr count)"
proof -
  have "count = 0 \<or> (\<exists>fs. fields_ptr = Some fs \<and> count \<le> field_capacity config \<and>
      valid_fields config (take (unat count) fs))"
    using validate_fields_iff [where fields_ptr = fields_ptr and field_count = count] assms by (simp add: fields_readable_def)
  then show "length (call_fields fields_ptr count) = unat count" "count \<le> field_capacity config"
    "valid_fields config (call_fields fields_ptr count)"
    using assms(1) by (auto simp: call_fields_def fields_readable_def valid_fields_def)
qed

text \<open>A slot and scratch buffers as \<open>calloc\<close> leaves them.\<close>

abbreviation zero_field :: mp_log_field where
  "zero_field \<equiv> \<lparr>field_key = None, field_value = MP_LOG_FIELD_STRING None\<rparr>"

definition fresh_slot :: "mp_logger_config \<Rightarrow> mp_log_slot" where
  "fresh_slot c = \<lparr>slot_sequence_id = 0, slot_unix_epoch_millis = 0, slot_level = Log_Level 0,
     message_length = 0, context_length = 0, slot_field_count = 0,
     message_buffer = zeros (unat (message_capacity c)), context_buffer = zeros (unat (context_capacity c)),
     slot_fields = replicate (unat (field_capacity c)) zero_field,
     slot_key_storage = zeros (unat (field_capacity c) * unat (field_key_capacity c)),
     slot_string_storage = zeros (unat (field_capacity c) * unat (field_value_capacity c))\<rparr>"

definition fresh_scratch :: "mp_logger_config \<Rightarrow> scratch" where
  "fresh_scratch c = \<lparr>scratch_message = zeros (unat (message_capacity c)),
     scratch_context = zeros (unat (context_capacity c)),
     scratch_fields = replicate (unat (field_capacity c)) zero_field,
     scratch_keys = zeros (unat (field_capacity c) * unat (field_key_capacity c)),
     scratch_strings = zeros (unat (field_capacity c) * unat (field_value_capacity c))\<rparr>"

lemma wf_fresh [simp]: "wf_slot c (fresh_slot c)" "wf_scratch c (fresh_scratch c)"
  by (simp_all add: wf_slot_def wf_scratch_def storage_ok_def fresh_slot_def fresh_scratch_def)

section \<open>Properties\<close>

text \<open>
  C18: the fields of a call are accepted exactly when there are none, or there are at most
  \<open>field_capacity\<close> of them and every key is a non-empty word of letters, digits, \<open>_\<close>,
  \<open>-\<close> and \<open>.\<close> that is not a key of the rendered record and fits the key capacity, the keys
  are distinct, string values fit the value capacity, and numbers are finite.
\<close>

theorem validate_fields_spec:
  assumes "fields_readable fields_ptr field_count"
  shows "mp_logger_validate_fields (Some config) fields_ptr field_count = MP_LOG_STATUS_OK \<longleftrightarrow>
    field_count = 0 \<or>
    (\<exists>fs. fields_ptr = Some fs \<and> field_count \<le> field_capacity config \<and>
      list_all (valid_field config) (take (unat field_count) fs) \<and>
      distinct (map (\<lambda>f. ostr (field_key f)) (take (unat field_count) fs)))"
  using validate_fields_iff [where fields_ptr = fields_ptr and field_count = field_count] assms
  by (simp add: fields_readable_def valid_fields_def)

theorem validate_fields_spec_witness:
  "mp_logger_validate_fields (Some mp_logger_config_init_defaults)
     (Some [mp_log_field_bool (Some ''ts'') True]) 1 \<noteq> MP_LOG_STATUS_OK"
  using validate_fields_spec [of "Some [mp_log_field_bool (Some ''ts'') True]" 1 mp_logger_config_init_defaults]
  by (simp add: fields_readable_def valid_field_def valid_key_def mp_log_field_bool_def ostr_def cstr_Cons
      reserved_keys_def)

text \<open>
  C8: a record survives the queue. The worker reads back from a slot the record that an
  accepted call put into it: its sequence number, time and level, message and context cut to
  their capacities, and all fields with their keys and values, while every write stays inside
  the storage of the slot and of the scratch buffers.
\<close>

theorem slot_roundtrip:
  assumes "capacities_ok config" and "wf_slot config slot" and "wf_scratch config sc"
    and "fields_readable fields_ptr count"
    and "mp_logger_validate_fields (Some config) fields_ptr count = MP_LOG_STATUS_OK"
  shows "let slot' = fill_slot config slot seq now lvl msg ctx fields_ptr count;
      (r, sc') = mp_logger_copy_record_from_slot config slot' sc in
    wf_slot config slot' \<and> wf_scratch config sc' \<and>
    view_of r = \<lparr>view_sequence_id = seq, view_millis = now, view_level = lvl,
      view_message = take (unat (message_capacity config) - 1) (cstr msg),
      view_context = take (unat (context_capacity config) - 1) (ostr ctx),
      view_fields = map field_view (call_fields fields_ptr count)\<rparr>"
proof -
  define slot' where "slot' = fill_slot config slot seq now lvl msg ctx fields_ptr count"
  obtain r sc2 where copy: "mp_logger_copy_record_from_slot config slot' sc = (r, sc2)"
    by (metis surj_pair)
  note acc = accepted_fields [OF assms(4,5)]
  have "list_all (valid_field config) (call_fields fields_ptr count)"
    using acc(3) by (simp add: valid_fields_def)
  note fill = fill_slot_spec [OF assms(2,1) acc(1,2) this slot'_def]
  note back_again = copy_record_spec [OF fill(1) assms(3,1) copy]
  have "wf_slot config slot'" using fill(1) by (simp add: filled_slot_def)
  then show ?thesis
    using back_again(1,2) fill(2) copy by (simp add: slot'_def Let_def)
qed

theorem slot_roundtrip_witness:
  "view_message (view_of (fst (mp_logger_copy_record_from_slot mp_logger_config_init_defaults
     (fill_slot mp_logger_config_init_defaults (fresh_slot mp_logger_config_init_defaults) 1 0
       MP_LOG_LEVEL_INFO ''hi'' None None 0) (fresh_scratch mp_logger_config_init_defaults)))) = ''hi''"
proof -
  let ?d = mp_logger_config_init_defaults
  have "capacities_ok ?d" by (simp add: capacities_ok_def mp_logger_config_init_defaults_def)
  moreover have "message_capacity ?d = 512" by (simp add: mp_logger_config_init_defaults_def)
  ultimately show ?thesis
    using slot_roundtrip [of ?d "fresh_slot ?d" "fresh_scratch ?d" None 0 1 0 MP_LOG_LEVEL_INFO "''hi''" None]
    by (auto simp: Let_def fields_readable_def mp_logger_validate_fields_def cstr_Cons split: prod.splits)
qed

text \<open>
  The pointers of the copied fields are what the storage holds: after the copy each key
  and each string value of a field is still the content of its own region of the storage of
  the slot, not overwritten by the copy of another field.
\<close>

theorem copied_fields_own_regions:
  assumes "capacities_ok config" and "wf_slot config slot" and "fields_readable fields_ptr count"
    and "mp_logger_validate_fields (Some config) fields_ptr count = MP_LOG_STATUS_OK"
  shows "let slot' = fill_slot config slot seq now lvl msg ctx fields_ptr count in
    copied_regions config (unat count) (slot_fields slot', slot_key_storage slot', slot_string_storage slot')"
proof -
  note acc = accepted_fields [OF assms(3,4)]
  have "list_all (valid_field config) (call_fields fields_ptr count)"
    using acc(3) by (simp add: valid_fields_def)
  from fill_slot_spec(3) [OF assms(2,1) acc(1,2) this refl] show ?thesis by (simp add: Let_def)
qed

theorem copied_fields_own_regions_witness:
  "copied_regions mp_logger_config_init_defaults 0
     (let slot' = fill_slot mp_logger_config_init_defaults (fresh_slot mp_logger_config_init_defaults) 1 0
        MP_LOG_LEVEL_INFO ''hi'' None None 0 in (slot_fields slot', slot_key_storage slot', slot_string_storage slot'))"
proof -
  let ?d = mp_logger_config_init_defaults
  have "capacities_ok ?d" by (simp add: capacities_ok_def mp_logger_config_init_defaults_def)
  then show ?thesis
    using copied_fields_own_regions [of ?d "fresh_slot ?d" None 0]
    by (simp add: Let_def fields_readable_def mp_logger_validate_fields_def)
qed

end
