(* ===== verification/Logger_System.thy ===== *)
theory Logger_System
  imports Logger_Time
begin

text \<open>
  The operating system as the logger sees it: the files, sockets and heap blocks it opens and
  releases, the bytes and datagrams it sends, the directories it looks at and the clock it
  reads. Every call takes one tick; the oracle \<open>os_fault\<close> decides at each tick whether the
  call works (\<open>None\<close>) or fails (\<open>Some n\<close>, after \<open>n\<close> bytes where the call
  transfers bytes). Theorems that say nothing of the oracle hold for every pattern of failures.
\<close>

section \<open>State\<close>

datatype path_kind = Directory | Regular_File

datatype file_output = Stdout_Output | Stderr_Output | File_Output string

text \<open>What a heap pointer, a \<open>FILE *\<close> or a descriptor refers to.\<close>

datatype resource = Heap_Block | Open_File string | Udp_Socket

text \<open>A \<open>FILE *\<close>: one of the two standard streams, or a file that \<open>fopen\<close> opened.\<close>

datatype file_handle = Stdout | Stderr | Opened nat

text \<open>
  \<open>os_resources\<close> maps the live identifiers; \<open>os_misuse\<close> records that a resource was used
  or released that was not live. \<open>application\<close> is the memory of the embedding program, which
  only the callbacks of custom streams touch.
\<close>

record 'a os =
  os_ticks :: nat
  os_fault :: "nat \<Rightarrow> nat option"
  os_now :: "nat \<Rightarrow> (int \<times> int) option"
  os_paths :: "string \<Rightarrow> path_kind option"
  os_resolve :: "string \<Rightarrow> string \<Rightarrow> string"
  os_output :: "file_output \<Rightarrow> string"
  os_datagrams :: "(string \<times> string) list"
  os_resources :: "nat \<Rightarrow> resource option"
  os_next :: nat
  os_misuse :: bool
  application :: 'a

section \<open>Calls\<close>

definition os_call :: "'a os \<Rightarrow> nat option \<times> 'a os" where
  "os_call os = (os_fault os (os_ticks os), os\<lparr>os_ticks := Suc (os_ticks os)\<rparr>)"

definition acquire :: "resource \<Rightarrow> 'a os \<Rightarrow> nat \<times> 'a os" where
  "acquire r os =
     (os_next os, os\<lparr>os_resources := (os_resources os)(os_next os \<mapsto> r), os_next := Suc (os_next os)\<rparr>)"

definition release :: "nat \<Rightarrow> 'a os \<Rightarrow> 'a os" where
  "release i os =
     os\<lparr>os_misuse := os_misuse os \<or> os_resources os i = None, os_resources := (os_resources os)(i := None)\<rparr>"

text \<open>\<open>clock_gettime(CLOCK_REALTIME, ...)\<close>; \<open>None\<close> is a failure.\<close>

definition clock_realtime :: "'a os \<Rightarrow> (int \<times> int) option \<times> 'a os" where
  "clock_realtime os = (os_now os (os_ticks os), snd (os_call os))"

text \<open>\<open>calloc(n, elem_size)\<close>, which fails when the product overflows, and \<open>free\<close>.\<close>

definition os_calloc :: "size_t \<Rightarrow> nat \<Rightarrow> 'a os \<Rightarrow> nat option \<times> 'a os" where
  "os_calloc n elem_size os =
     (case os_call os of (fault, os) \<Rightarrow>
        if fault \<noteq> None \<or> unat n * elem_size \<ge> 2 ^ 64 then (None, os)
        else (case acquire Heap_Block os of (i, os) \<Rightarrow> (Some i, os)))"

definition os_free :: "nat option \<Rightarrow> 'a os \<Rightarrow> 'a os" where
  "os_free p os = (case p of None \<Rightarrow> os | Some i \<Rightarrow> release i os)"

text \<open>\<open>stat\<close>: the kind of the path, or \<open>None\<close> for a failure.\<close>

definition os_stat :: "cbuf \<Rightarrow> 'a os \<Rightarrow> path_kind option \<times> 'a os" where
  "os_stat path os =
     (case os_call os of (fault, os) \<Rightarrow>
        (if fault \<noteq> None then None else os_paths os (cstr path), os))"

datatype mkdir_result = Mkdir_Ok | Mkdir_Exists | Mkdir_Error

definition os_mkdir :: "cbuf \<Rightarrow> 'a os \<Rightarrow> mkdir_result \<times> 'a os" where
  "os_mkdir path os =
     (case os_call os of (fault, os) \<Rightarrow>
        if fault \<noteq> None then (Mkdir_Error, os)
        else if os_paths os (cstr path) \<noteq> None then (Mkdir_Exists, os)
        else (Mkdir_Ok, os\<lparr>os_paths := (os_paths os)(cstr path \<mapsto> Directory)\<rparr>))"

text \<open>\<open>fopen(path, "a")\<close> and \<open>open(path, O_WRONLY | O_CREAT | O_APPEND, 0644)\<close>.\<close>

definition os_open_append :: "cbuf \<Rightarrow> 'a os \<Rightarrow> nat option \<times> 'a os" where
  "os_open_append path os =
     (case os_call os of (fault, os) \<Rightarrow>
        if fault \<noteq> None \<or> os_paths os (cstr path) = Some Directory then (None, os)
        else (case acquire (Open_File (cstr path)) os of (i, os) \<Rightarrow>
                (Some i, os\<lparr>os_paths := (os_paths os)(cstr path \<mapsto> Regular_File)\<rparr>)))"

text \<open>\<open>fclose\<close> of an opened file and \<open>close\<close>.\<close>

definition os_close :: "nat \<Rightarrow> 'a os \<Rightarrow> 'a os" where
  "os_close i os = release i (snd (os_call os))"

definition os_fclose :: "file_handle \<Rightarrow> 'a os \<Rightarrow> 'a os" where
  "os_fclose f os = (case f of Opened i \<Rightarrow> os_close i os | _ \<Rightarrow> snd (os_call os))"

text \<open>
  \<open>fwrite\<close> and \<open>write\<close> append to what the file or stream has accepted, all of the bytes or,
  when the call fails, a part of them; they return the number of bytes. \<open>fflush\<close> reports
  whether the accepted bytes went out.
\<close>

definition os_append :: "file_output \<Rightarrow> string \<Rightarrow> 'a os \<Rightarrow> nat \<times> 'a os" where
  "os_append out bytes os =
     (case os_call os of (fault, os) \<Rightarrow>
        let accepted = (case fault of None \<Rightarrow> bytes | Some n \<Rightarrow> take n bytes)
        in (length accepted, os\<lparr>os_output := (os_output os)(out := os_output os out @ accepted)\<rparr>))"

definition os_write :: "nat \<Rightarrow> string \<Rightarrow> 'a os \<Rightarrow> nat \<times> 'a os" where
  "os_write i bytes os =
     (case os_resources os i of
        Some (Open_File path) \<Rightarrow> os_append (File_Output path) bytes os
      | _ \<Rightarrow> (0, (snd (os_call os))\<lparr>os_misuse := True\<rparr>))"

definition os_fwrite :: "file_handle \<Rightarrow> string \<Rightarrow> 'a os \<Rightarrow> nat \<times> 'a os" where
  "os_fwrite f bytes os =
     (case f of
        Stdout \<Rightarrow> os_append Stdout_Output bytes os
      | Stderr \<Rightarrow> os_append Stderr_Output bytes os
      | Opened i \<Rightarrow> os_write i bytes os)"

definition handle_live :: "file_handle \<Rightarrow> 'a os \<Rightarrow> bool" where
  "handle_live f os = (case f of Opened i \<Rightarrow> os_resources os i \<noteq> None | _ \<Rightarrow> True)"

definition os_fflush :: "file_handle \<Rightarrow> 'a os \<Rightarrow> bool \<times> 'a os" where
  "os_fflush f os =
     (case os_call os of (fault, os) \<Rightarrow> (fault = None, os\<lparr>os_misuse := os_misuse os \<or> \<not> handle_live f os\<rparr>))"

text \<open>
  \<open>getaddrinfo\<close> allocates the list of addresses, which \<open>freeaddrinfo\<close> releases; the code
  uses the first address. \<open>sendto\<close> returns the number of bytes, or \<open>None\<close> for -1.
\<close>

definition os_getaddrinfo :: "cbuf \<Rightarrow> cbuf \<Rightarrow> 'a os \<Rightarrow> (nat \<times> string) option \<times> 'a os" where
  "os_getaddrinfo host port os =
     (case os_call os of (fault, os) \<Rightarrow>
        if fault \<noteq> None then (None, os)
        else (case acquire Heap_Block os of (i, os) \<Rightarrow> (Some (i, os_resolve os (cstr host) (cstr port)), os)))"

definition os_socket :: "'a os \<Rightarrow> nat option \<times> 'a os" where
  "os_socket os =
     (case os_call os of (fault, os) \<Rightarrow>
        if fault \<noteq> None then (None, os)
        else (case acquire Udp_Socket os of (i, os) \<Rightarrow> (Some i, os)))"

definition os_sendto :: "nat \<Rightarrow> string \<Rightarrow> string \<Rightarrow> 'a os \<Rightarrow> nat option \<times> 'a os" where
  "os_sendto i bytes address os =
     (if os_resources os i \<noteq> Some Udp_Socket then (None, (snd (os_call os))\<lparr>os_misuse := True\<rparr>)
      else case os_call os of (fault, os) \<Rightarrow>
        (case fault of
           None \<Rightarrow> (Some (length bytes), os\<lparr>os_datagrams := os_datagrams os @ [(address, bytes)]\<rparr>)
         | Some n \<Rightarrow>
             if n = 0 then (None, os)
             else (Some (length (take n bytes)), os\<lparr>os_datagrams := os_datagrams os @ [(address, take n bytes)]\<rparr>)))"

text \<open>\<open>pthread_create\<close>, the joins and \<open>nanosleep\<close>: only whether they work.\<close>

definition os_try :: "'a os \<Rightarrow> bool \<times> 'a os" where
  "os_try os = (case os_call os of (fault, os) \<Rightarrow> (fault = None, os))"

section \<open>Ownership\<close>

text \<open>Identifiers that were not handed out yet are not live.\<close>

definition os_wf :: "'a os \<Rightarrow> bool" where
  "os_wf os \<longleftrightarrow> (\<forall>i \<ge> os_next os. os_resources os i = None)"

text \<open>
  A call that keeps the live resources and misuses none; it may hand out and take back
  identifiers on the way.
\<close>

definition keeps_resources :: "'a os \<Rightarrow> 'a os \<Rightarrow> bool" where
  "keeps_resources os os' \<longleftrightarrow>
     os_resources os' = os_resources os \<and> os_misuse os' = os_misuse os \<and> os_next os \<le> os_next os'"

named_theorems os_defs \<open>the calls of the operating system\<close>

lemmas [os_defs] = os_call_def acquire_def release_def os_free_def os_calloc_def os_stat_def os_mkdir_def
  os_open_append_def os_close_def os_fclose_def os_append_def os_write_def os_fwrite_def os_fflush_def
  os_getaddrinfo_def os_socket_def os_sendto_def os_try_def clock_realtime_def

lemma keeps_refl [simp]: "keeps_resources os os"
  by (simp add: keeps_resources_def)

lemma keeps_trans [trans]:
  "keeps_resources os os1 \<Longrightarrow> keeps_resources os1 os2 \<Longrightarrow> keeps_resources os os2"
  by (simp add: keeps_resources_def)

lemma keeps_wf: "keeps_resources os os' \<Longrightarrow> os_wf os \<Longrightarrow> os_wf os'"
  by (auto simp: keeps_resources_def os_wf_def)

text \<open>
  \<open>acquired R os os'\<close>: between the two states exactly the resources \<open>R\<close> were acquired and
  kept. \<open>owns R d\<close>: \<open>d\<close> releases exactly \<open>R\<close>, each once.
\<close>

definition acquired :: "nat set \<Rightarrow> 'a os \<Rightarrow> 'a os \<Rightarrow> bool" where
  "acquired R os os' \<longleftrightarrow>
     os_wf os' \<and> os_misuse os' = os_misuse os \<and>
     (\<forall>i. if i \<in> R then os_resources os i = None \<and> os_resources os' i \<noteq> None
          else os_resources os' i = os_resources os i)"

definition owns :: "nat set \<Rightarrow> ('a os \<Rightarrow> 'a os) \<Rightarrow> bool" where
  "owns R d \<longleftrightarrow>
     (\<forall>os. (\<forall>i \<in> R. os_resources os i \<noteq> None) \<longrightarrow>
        (\<forall>i. os_resources (d os) i = (if i \<in> R then None else os_resources os i)) \<and>
        os_misuse (d os) = os_misuse os \<and> os_next (d os) = os_next os)"

lemma ownsD:
  assumes "owns R d" and "\<And>i. i \<in> R \<Longrightarrow> os_resources os i \<noteq> None"
  shows "os_resources (d os) i = (if i \<in> R then None else os_resources os i)"
    and "os_misuse (d os) = os_misuse os" and "os_next (d os) = os_next os"
  using assms unfolding owns_def by blast+

lemma acquired_empty: "acquired {} os os' \<longleftrightarrow> os_wf os' \<and> os_resources os' = os_resources os \<and> os_misuse os' = os_misuse os"
  by (auto simp: acquired_def)

lemma acquired_refl [simp]: "os_wf os \<Longrightarrow> acquired {} os os"
  by (simp add: acquired_empty)

lemma acquired_keeps: "acquired R os0 os \<Longrightarrow> keeps_resources os os' \<Longrightarrow> acquired R os0 os'"
  by (simp add: acquired_def keeps_resources_def os_wf_def)

lemma acquired_trans:
  assumes "acquired R os os1" and "acquired S os1 os2"
  shows "acquired (R \<union> S) os os2 \<and> R \<inter> S = {}"
  using assms unfolding acquired_def by (auto split: if_splits) (metis option.distinct(1))+

lemma acquired_release:
  assumes "acquired (insert i R) os0 os" and "i \<notin> R"
  shows "acquired R os0 (release i os)"
  using assms by (auto simp: acquired_def release_def os_wf_def split: if_splits)

lemma acquired_owns:
  assumes "acquired (R \<union> S) os0 os" and "R \<inter> S = {}" and "owns R d"
  shows "acquired S os0 (d os)"
proof -
  have "\<And>i. i \<in> R \<Longrightarrow> os_resources os i \<noteq> None" using assms(1) by (auto simp: acquired_def)
  note d = ownsD [OF assms(3) this]
  show ?thesis
    using assms(1,2) by (auto simp: acquired_def os_wf_def d split: if_splits)
qed

lemma acquire_acquired: "os_wf os \<Longrightarrow> acquire r os = (i, os') \<Longrightarrow> acquired {i} os os'"
  by (auto simp: acquire_def acquired_def os_wf_def)

lemma owns_comp:
  fixes d e :: "'a os \<Rightarrow> 'a os"
  assumes "owns R d" and "owns S e" and "R \<inter> S = {}"
  shows "owns (R \<union> S) (\<lambda>os. e (d os))"
  unfolding owns_def
proof (rule allI, rule impI)
  fix os :: "'a os"
  assume live: "\<forall>i \<in> R \<union> S. os_resources os i \<noteq> None"
  then have "\<And>i. i \<in> R \<Longrightarrow> os_resources os i \<noteq> None" by blast
  note d = ownsD [OF assms(1) this]
  have "\<And>i. i \<in> S \<Longrightarrow> os_resources (d os) i \<noteq> None" using live assms(3) by (auto simp: d)
  note e = ownsD [OF assms(2) this]
  show "(\<forall>i. os_resources (e (d os)) i = (if i \<in> R \<union> S then None else os_resources os i)) \<and>
      os_misuse (e (d os)) = os_misuse os \<and> os_next (e (d os)) = os_next os"
    by (simp add: d e)
qed

lemma owns_id: "owns {} (\<lambda>os. os)"
  by (simp add: owns_def)

section \<open>The calls and what they acquire\<close>

lemma keeps_call [simp]: "keeps_resources os (snd (os_call os))"
  by (simp add: keeps_resources_def os_call_def)

lemma keeps_fields:
  "keeps_resources os os' \<Longrightarrow> keeps_resources os (os'\<lparr>os_output := a\<rparr>)"
  "keeps_resources os os' \<Longrightarrow> keeps_resources os (os'\<lparr>os_datagrams := b\<rparr>)"
  "keeps_resources os os' \<Longrightarrow> keeps_resources os (os'\<lparr>os_paths := c\<rparr>)"
  by (simp_all add: keeps_resources_def)

lemma keeps_simple [simp]:
  "keeps_resources os (snd (clock_realtime os))" "keeps_resources os (snd (os_stat p os))"
  "keeps_resources os (snd (os_mkdir p os))" "keeps_resources os (snd (os_append out bytes os))"
  "keeps_resources os (snd (os_try os))"
  by (simp_all add: keeps_resources_def os_defs Let_def)

lemma keeps_stat: "os_stat p os = (k, os') \<Longrightarrow> keeps_resources os os'"
  and keeps_mkdir: "os_mkdir p os = (m, os') \<Longrightarrow> keeps_resources os os'"
  using keeps_simple(2) [of os p] keeps_simple(3) [of os p] by simp_all

lemma calloc_acquired:
  assumes "os_wf os" and "os_calloc n elem_size os = (p, os')"
  shows "case p of None \<Rightarrow> keeps_resources os os' | Some i \<Rightarrow> acquired {i} os os'"
proof -
  obtain fault os1 where call: "os_call os = (fault, os1)" by (metis surj_pair)
  then have k: "keeps_resources os os1" using keeps_call [of os] by simp
  then have "os_wf os1" using assms(1) keeps_wf by blast
  note fresh = acquire_acquired [OF this]
  show ?thesis
    using assms(2) k fresh [of Heap_Block] unfolding os_calloc_def call prod.case
    by (auto simp: acquired_def keeps_resources_def split: if_splits prod.splits)
qed

lemma open_acquired:
  assumes "os_wf os" and "os_open_append path os = (p, os')"
  shows "case p of None \<Rightarrow> keeps_resources os os' | Some i \<Rightarrow> acquired {i} os os' \<and> os_resources os' i = Some (Open_File (cstr path))"
proof -
  obtain fault os1 where call: "os_call os = (fault, os1)" by (metis surj_pair)
  then have k: "keeps_resources os os1" using keeps_call [of os] by simp
  then have wf1: "os_wf os1" using assms(1) keeps_wf by blast
  obtain i os2 where acq: "acquire (Open_File (cstr path)) os1 = (i, os2)" by (metis surj_pair)
  then have "acquired {i} os1 os2" "os_resources os2 i = Some (Open_File (cstr path))"
    using acquire_acquired [OF wf1 acq] by (auto simp: acquire_def)
  then show ?thesis
    using assms(2) k unfolding os_open_append_def call prod.case acq
    by (auto simp: acquired_def keeps_resources_def os_wf_def split: if_splits)
qed

lemma getaddrinfo_acquired:
  assumes "os_wf os" and "os_getaddrinfo host port os = (p, os')"
  shows "case p of None \<Rightarrow> keeps_resources os os' | Some (i, a) \<Rightarrow> acquired {i} os os'"
proof -
  obtain fault os1 where call: "os_call os = (fault, os1)" by (metis surj_pair)
  then have k: "keeps_resources os os1" using keeps_call [of os] by simp
  then have "os_wf os1" using assms(1) keeps_wf by blast
  note fresh = acquire_acquired [OF this]
  show ?thesis
    using assms(2) k fresh [of Heap_Block] unfolding os_getaddrinfo_def call prod.case
    by (auto simp: acquired_def keeps_resources_def split: if_splits prod.splits)
qed

lemma socket_acquired:
  assumes "os_wf os" and "os_socket os = (p, os')"
  shows "case p of None \<Rightarrow> keeps_resources os os' | Some i \<Rightarrow> acquired {i} os os' \<and> os_resources os' i = Some Udp_Socket"
proof -
  obtain fault os1 where call: "os_call os = (fault, os1)" by (metis surj_pair)
  then have k: "keeps_resources os os1" using keeps_call [of os] by simp
  then have "os_wf os1" using assms(1) keeps_wf by blast
  note fresh = acquire_acquired [OF this]
  show ?thesis
    using assms(2) k fresh [of Udp_Socket] unfolding os_socket_def call prod.case
    by (auto simp: acquired_def keeps_resources_def acquire_def split: if_splits)
qed

lemma owns_free: "owns {i} (os_free (Some i))"
  by (auto simp: owns_def os_free_def release_def)

lemma owns_close: "owns {i} (os_close i)"
  by (auto simp: owns_def os_close_def release_def os_call_def)

lemma keeps_write: "os_resources os i = Some (Open_File path) \<Longrightarrow> keeps_resources os (snd (os_write i bytes os))"
  by (simp add: os_write_def)

lemma keeps_fwrite: "\<forall>i. f = Opened i \<longrightarrow> (\<exists>path. os_resources os i = Some (Open_File path)) \<Longrightarrow>
    keeps_resources os (snd (os_fwrite f bytes os))"
  by (auto simp: os_fwrite_def intro: keeps_write split: file_handle.split)

lemma keeps_fflush: "handle_live f os \<Longrightarrow> keeps_resources os (snd (os_fflush f os))"
  by (cases f) (auto simp: keeps_resources_def os_fflush_def os_call_def handle_live_def)

lemma keeps_sendto: "os_resources os i = Some Udp_Socket \<Longrightarrow> keeps_resources os (snd (os_sendto i bytes a os))"
  by (auto simp: keeps_resources_def os_sendto_def os_call_def split: option.split)

text \<open>A later state in which everything that was live still is what it was.\<close>

definition extends_os :: "'a os \<Rightarrow> 'a os \<Rightarrow> bool" where
  "extends_os os os' \<longleftrightarrow> (\<forall>i. os_resources os i \<noteq> None \<longrightarrow> os_resources os' i = os_resources os i)"

lemma extends_refl [simp]: "extends_os os os"
  by (simp add: extends_os_def)

lemma extends_trans: "extends_os os os1 \<Longrightarrow> extends_os os1 os2 \<Longrightarrow> extends_os os os2"
  by (simp add: extends_os_def)

lemma extendsD: "extends_os os os' \<Longrightarrow> os_resources os i = Some r \<Longrightarrow> os_resources os' i = Some r"
  by (simp add: extends_os_def)

lemma extends_acquired: "acquired R os os' \<Longrightarrow> extends_os os os'"
  unfolding acquired_def extends_os_def by (metis option.distinct(1))

lemma extends_keeps: "extends_os os0 os \<Longrightarrow> keeps_resources os os' \<Longrightarrow> extends_os os0 os'"
  by (simp add: extends_os_def keeps_resources_def)

end
