(* ===== verification/Logger_State.thy ===== *)
theory Logger_State
  imports Logger_Fields Logger_System Logger_Bootstrap
begin

text \<open>
  The runtime state (\<open>src/mp_logger_internal.h\<close>): streams and the logger, and the table of
  streams of \<open>src/mp_logger.c\<close>: registration, the mask of enabled levels, and the runtime
  reconfiguration, which changes the thresholds of the built-in streams.
\<close>

section \<open>Streams and the logger\<close>

text \<open>
  A callback with its \<open>stream_context\<close> is one function: \<open>write\<close> takes the record, the
  rendered line and its length and acts on the world outside the logger.
\<close>

type_synonym 'a stream_write_fn = "mp_log_record \<Rightarrow> cbuf \<Rightarrow> nat \<Rightarrow> 'a os \<Rightarrow> mp_log_status_t \<times> 'a os"
type_synonym 'a stream_destroy_fn = "'a os \<Rightarrow> 'a os"

record 'a mp_logger_stream =
  stream_name :: cbuf
  minimum_level :: mp_log_level_t
  maximum_level :: mp_log_level_t
  stream_write :: "'a stream_write_fn option"
  stream_destroy :: "'a stream_destroy_fn option"

text \<open>
  The logger: \<open>streams\<close> lists the first \<open>stream_count\<close> entries of the table,
  \<open>backup_fd\<close> is \<open>None\<close> for -1, \<open>queue_mutex\<close> says whether the queue mutex is held,
  and \<open>storage_blocks\<close> are the heap pointers of the queue storage (\<open>None\<close> for
  \<open>NULL\<close>). The slots hold the regions of the storage that belong to them.
\<close>

record 'a mp_logger =
  logger_config :: mp_logger_config
  run_suffix :: cbuf
  slots :: "mp_log_slot list"
  storage_blocks :: "nat option list"
  queue_head :: size_t
  queue_tail :: size_t
  queue_count :: size_t
  queue_mutex :: bool
  worker_started :: bool
  shutdown_requested :: bool
  streams :: "'a mp_logger_stream list"
  render_capacity :: size_t
  backup_fd :: "nat option"
  backup_path :: cbuf
  queued_records_total :: uint64_t
  processed_records_total :: uint64_t
  dropped_busy_total :: uint64_t
  dropped_full_total :: uint64_t
  enabled_level_mask :: uint_fast32_t

text \<open>The logger that \<open>calloc\<close> leaves, with no descriptor: a descriptor of 0 is overwritten at once.\<close>

definition zeroed_logger :: "'a mp_logger" where
  "zeroed_logger = \<lparr>logger_config = zeroed_config, run_suffix = zeros MP_LOGGER_RUN_SUFFIX_CAPACITY, slots = [],
     storage_blocks = [], queue_head = 0, queue_tail = 0, queue_count = 0, queue_mutex = False,
     worker_started = False, shutdown_requested = False, streams = [], render_capacity = 0,
     backup_fd = None, backup_path = zeros MP_LOGGER_PATH_CAPACITY, queued_records_total = 0,
     processed_records_total = 0, dropped_busy_total = 0, dropped_full_total = 0, enabled_level_mask = 0\<rparr>"

section \<open>The mask of enabled levels\<close>

function level_mask_loop :: "int \<Rightarrow> int \<Rightarrow> uint_fast32_t \<Rightarrow> uint_fast32_t" where
  "level_mask_loop l maximum m =
     (if l \<le> maximum then level_mask_loop (l + 1) maximum (or m (push_bit (nat l) 1)) else m)"
  by pat_completeness auto
termination
  by (relation "measure (\<lambda>(l, maximum, m). nat (maximum + 1 - l))") auto

declare level_mask_loop.simps [simp del]

definition mp_logger_level_range_mask :: "mp_log_level_t \<Rightarrow> mp_log_level_t \<Rightarrow> uint_fast32_t" where
  "mp_logger_level_range_mask minimum maximum =
     (if minimum < MP_LOG_LEVEL_TRACE \<or> maximum > MP_LOG_LEVEL_FATAL \<or> minimum > maximum then 0
      else level_mask_loop (level_number minimum) (level_number maximum) 0)"

fun refresh_mask_loop :: "'a mp_logger_stream list \<Rightarrow> uint_fast32_t \<Rightarrow> uint_fast32_t" where
  "refresh_mask_loop [] m = m"
| "refresh_mask_loop (s # ss) m =
     refresh_mask_loop ss (or m (mp_logger_level_range_mask (minimum_level s) (maximum_level s)))"

definition mp_logger_refresh_enabled_level_mask :: "'a mp_logger \<Rightarrow> 'a mp_logger" where
  "mp_logger_refresh_enabled_level_mask logger =
     logger\<lparr>enabled_level_mask := refresh_mask_loop (streams logger) 0\<rparr>"

definition mp_logger_is_level_enabled :: "'a mp_logger option \<Rightarrow> mp_log_level_t \<Rightarrow> bool" where
  "mp_logger_is_level_enabled logger_ptr l =
     (case logger_ptr of
        None \<Rightarrow> False
      | Some logger \<Rightarrow>
          if shutdown_requested logger \<or> l < MP_LOG_LEVEL_TRACE \<or> l > MP_LOG_LEVEL_FATAL then False
          else and (enabled_level_mask logger) (push_bit (nat (level_number l)) 1) \<noteq> 0)"

lemma bit_level_mask_loop:
  "0 \<le> l \<Longrightarrow> bit (level_mask_loop l maximum m) n \<longleftrightarrow>
     bit m n \<or> (n < 32 \<and> l \<le> int n \<and> int n \<le> maximum)"
proof (induction l maximum m rule: level_mask_loop.induct)
  case (1 l maximum m)
  show ?case
  proof (cases "l \<le> maximum")
    case True
    have "bit (push_bit (nat l) (1 :: uint_fast32_t)) n \<longleftrightarrow> n = nat l \<and> n < 32"
      by (auto simp: bit_simps)
    moreover have "n = nat l \<longleftrightarrow> int n = l" using 1(2) by auto
    ultimately show ?thesis
      using 1 True by (subst level_mask_loop.simps) (auto simp: bit_or_iff)
  next
    case False
    then show ?thesis by (subst level_mask_loop.simps) auto
  qed
qed

text \<open>The levels that a pair of bounds stands for in the mask.\<close>

definition counts_in_mask :: "mp_log_level_t \<Rightarrow> 'a mp_logger_stream \<Rightarrow> bool" where
  "counts_in_mask l s \<longleftrightarrow>
     valid_level (minimum_level s) \<and> valid_level (maximum_level s) \<and>
     mp_logger_level_in_range l (minimum_level s) (maximum_level s)"

lemma bit_level_range_mask:
  "bit (mp_logger_level_range_mask a b) n \<longleftrightarrow>
     valid_level a \<and> valid_level b \<and> mp_logger_level_in_range (Log_Level (int n)) a b"
proof (cases a; cases b)
  fix i j assume ij: "a = Log_Level i" "b = Log_Level j"
  show ?thesis
    by (auto simp: ij mp_logger_level_range_mask_def bit_level_mask_loop valid_level_def mp_logger_level_in_range_def)
qed

lemma bit_refresh_mask_loop:
  "bit (refresh_mask_loop ss m) n \<longleftrightarrow> bit m n \<or> (\<exists>s \<in> set ss. counts_in_mask (Log_Level (int n)) s)"
  by (induction ss m rule: refresh_mask_loop.induct)
    (auto simp: bit_or_iff bit_level_range_mask counts_in_mask_def)

text \<open>What the mask has to be at all times.\<close>

definition mask_ok :: "'a mp_logger \<Rightarrow> bool" where
  "mask_ok logger \<longleftrightarrow> enabled_level_mask logger = refresh_mask_loop (streams logger) 0"

lemma refresh_mask_snoc:
  "refresh_mask_loop (ss @ [s]) m =
     or (refresh_mask_loop ss m) (mp_logger_level_range_mask (minimum_level s) (maximum_level s))"
  by (induction ss m rule: refresh_mask_loop.induct) auto

lemma mask_bit_test:
  fixes m :: uint_fast32_t
  shows "and m (push_bit (nat (level_number l)) 1) \<noteq> 0 \<longleftrightarrow> bit m (nat (level_number l))"
  by (simp add: and_exp_eq_0_iff_not_bit)

lemma is_level_enabled_iff:
  assumes "mask_ok logger"
  shows "mp_logger_is_level_enabled (Some logger) l \<longleftrightarrow>
    \<not> shutdown_requested logger \<and> valid_level l \<and> (\<exists>s \<in> set (streams logger). counts_in_mask l s)"
proof (cases "valid_level l")
  case True
  then have l: "Log_Level (int (nat (level_number l))) = l"
    by (cases l) (auto simp: valid_level_def)
  have "bit (enabled_level_mask logger) (nat (level_number l)) \<longleftrightarrow> (\<exists>s \<in> set (streams logger). counts_in_mask l s)"
    using assms unfolding mask_ok_def by (simp only: bit_refresh_mask_loop l bit_0_eq bot_apply bot_bool_def simp_thms)
  then show ?thesis
    using True by (simp add: mp_logger_is_level_enabled_def and_exp_eq_0_iff_not_bit valid_level_def leD)
next
  case False
  then show ?thesis by (auto simp: mp_logger_is_level_enabled_def valid_level_def not_le)
qed

section \<open>Registration of streams\<close>

fun has_stream_name :: "cbuf \<Rightarrow> 'a mp_logger_stream list \<Rightarrow> bool" where
  "has_stream_name n [] = False"
| "has_stream_name n (s # ss) = (if strcmp_eq (stream_name s) n then True else has_stream_name n ss)"

definition mp_logger_add_owned_stream ::
    "'a mp_logger option \<Rightarrow> 'a mp_logger_stream option \<Rightarrow> mp_log_status_t \<times> 'a mp_logger option" where
  "mp_logger_add_owned_stream logger_ptr stream_ptr =
     (case (logger_ptr, stream_ptr) of
        (Some logger, Some stream) \<Rightarrow>
          if stream_write stream = None \<or> cstr (stream_name stream) = []
          then (MP_LOG_STATUS_INVALID_ARGUMENT, logger_ptr)
          else if length (streams logger) \<ge> MP_LOGGER_MAX_STREAMS then (MP_LOG_STATUS_LIMIT_EXCEEDED, logger_ptr)
          else if has_stream_name (stream_name stream) (streams logger)
          then (MP_LOG_STATUS_CONFIG_ERROR, logger_ptr)
          else (MP_LOG_STATUS_OK,
                Some (logger\<lparr>streams := streams logger @ [stream],
                  enabled_level_mask := or (enabled_level_mask logger)
                    (mp_logger_level_range_mask (minimum_level stream) (maximum_level stream))\<rparr>))
      | _ \<Rightarrow> (MP_LOG_STATUS_INVALID_ARGUMENT, logger_ptr))"

definition mp_logger_add_stream ::
    "'a mp_logger option \<Rightarrow> 'a mp_logger_stream option \<Rightarrow> mp_log_status_t \<times> 'a mp_logger option" where
  "mp_logger_add_stream logger_ptr stream_ptr = mp_logger_add_owned_stream logger_ptr stream_ptr"

text \<open>
  The table of streams: at most \<open>MP_LOGGER_MAX_STREAMS\<close> entries with callbacks and distinct
  non-empty names, and a mask that agrees with them.
\<close>

definition table_ok :: "'a mp_logger \<Rightarrow> bool" where
  "table_ok logger \<longleftrightarrow>
     length (streams logger) \<le> MP_LOGGER_MAX_STREAMS \<and>
     distinct (map (\<lambda>s. cstr (stream_name s)) (streams logger)) \<and>
     list_all (\<lambda>s. stream_write s \<noteq> None \<and> cstr (stream_name s) \<noteq> []) (streams logger) \<and>
     mask_ok logger"

lemma has_stream_name_iff: "has_stream_name n ss \<longleftrightarrow> cstr n \<in> (\<lambda>s. cstr (stream_name s)) ` set ss"
  by (induction ss) (auto simp: strcmp_eq_def)

text \<open>The four outcomes of a registration.\<close>

lemma add_owned_stream_cases:
  obtains "stream_write s = None \<or> cstr (stream_name s) = []"
      "mp_logger_add_owned_stream (Some l) (Some s) = (MP_LOG_STATUS_INVALID_ARGUMENT, Some l)"
  | "length (streams l) \<ge> MP_LOGGER_MAX_STREAMS"
      "mp_logger_add_owned_stream (Some l) (Some s) = (MP_LOG_STATUS_LIMIT_EXCEEDED, Some l)"
  | "cstr (stream_name s) \<in> (\<lambda>s. cstr (stream_name s)) ` set (streams l)"
      "mp_logger_add_owned_stream (Some l) (Some s) = (MP_LOG_STATUS_CONFIG_ERROR, Some l)"
  | "stream_write s \<noteq> None" "cstr (stream_name s) \<noteq> []" "length (streams l) < MP_LOGGER_MAX_STREAMS"
      "cstr (stream_name s) \<notin> (\<lambda>s. cstr (stream_name s)) ` set (streams l)"
      "mp_logger_add_owned_stream (Some l) (Some s) = (MP_LOG_STATUS_OK,
         Some (l\<lparr>streams := streams l @ [s],
           enabled_level_mask := or (enabled_level_mask l)
             (mp_logger_level_range_mask (minimum_level s) (maximum_level s))\<rparr>))"
proof (cases "stream_write s = None \<or> cstr (stream_name s) = []")
  case True
  with that(1) show thesis by (simp add: mp_logger_add_owned_stream_def)
next
  case name: False
  show thesis
  proof (cases "length (streams l) \<ge> MP_LOGGER_MAX_STREAMS")
    case True
    with name that(2) show thesis by (simp add: mp_logger_add_owned_stream_def)
  next
    case room: False
    with name that(3,4) show thesis
      by (cases "has_stream_name (stream_name s) (streams l)")
        (auto simp: mp_logger_add_owned_stream_def has_stream_name_iff)
  qed
qed

lemma table_ok_add:
  assumes "table_ok l" and "mp_logger_add_owned_stream (Some l) (Some s) = (status, Some l')"
  shows "table_ok l'"
  using assms
  by (cases rule: add_owned_stream_cases [of s l])
    (auto simp: table_ok_def mask_ok_def refresh_mask_snoc)

section \<open>Runtime configuration\<close>

definition mp_logger_runtime_config_is_compatible :: "mp_logger_config \<Rightarrow> mp_logger_config \<Rightarrow> bool" where
  "mp_logger_runtime_config_is_compatible a b \<longleftrightarrow>
     buffer_capacity a = buffer_capacity b \<and>
     message_capacity a = message_capacity b \<and>
     context_capacity a = context_capacity b \<and>
     field_capacity a = field_capacity b \<and>
     field_key_capacity a = field_key_capacity b \<and>
     field_value_capacity a = field_value_capacity b \<and>
     strcmp_eq (log_directory a) (log_directory b) \<and>
     strcmp_eq (file_name_prefix a) (file_name_prefix b) \<and>
     strcmp_eq (backup_file_name_prefix a) (backup_file_name_prefix b) \<and>
     strcmp_eq (active_streams a) (active_streams b) \<and>
     strcmp_eq (udp_host a) (udp_host b) \<and>
     udp_port a = udp_port b"

definition apply_config_to_stream :: "mp_logger_config \<Rightarrow> 'a mp_logger_stream \<Rightarrow> 'a mp_logger_stream" where
  "apply_config_to_stream c s =
     (if strcmp_eq (stream_name s) ''stdout''
      then s\<lparr>minimum_level := stdout_min_level c, maximum_level := stdout_max_level c\<rparr>
      else if strcmp_eq (stream_name s) ''stderr''
      then s\<lparr>minimum_level := stderr_min_level c, maximum_level := stderr_max_level c\<rparr>
      else if strcmp_eq (stream_name s) ''file''
      then s\<lparr>minimum_level := file_min_level c, maximum_level := file_max_level c\<rparr>
      else if strcmp_eq (stream_name s) ''udp''
      then s\<lparr>minimum_level := udp_min_level c, maximum_level := udp_max_level c\<rparr>
      else s)"

definition mp_logger_apply_config_to_streams :: "'a mp_logger \<Rightarrow> 'a mp_logger" where
  "mp_logger_apply_config_to_streams logger =
     mp_logger_refresh_enabled_level_mask
       (logger\<lparr>streams := map (apply_config_to_stream (logger_config logger)) (streams logger)\<rparr>)"

definition normalize_config :: "mp_logger_config \<Rightarrow> mp_logger_config" where
  "normalize_config c =
     c\<lparr>file_name_prefix := mp_logger_sanitize_file_component (file_name_prefix c),
       backup_file_name_prefix := mp_logger_sanitize_file_component (backup_file_name_prefix c)\<rparr>"

text \<open>The assignments to the config of the logger.\<close>

definition reconfigured :: "mp_logger_config \<Rightarrow> mp_logger_config \<Rightarrow> mp_logger_config" where
  "reconfigured old new =
     old\<lparr>service_name := mp_logger_copy_trimmed (service_name old) MP_LOGGER_NAME_CAPACITY (Some (service_name new)),
       environment_name :=
         mp_logger_copy_trimmed (environment_name old) MP_LOGGER_NAME_CAPACITY (Some (environment_name new)),
       build_version := mp_logger_copy_trimmed (build_version old) MP_LOGGER_NAME_CAPACITY (Some (build_version new)),
       format := format new, pretty_output := pretty_output new,
       stdout_min_level := stdout_min_level new, stdout_max_level := stdout_max_level new,
       stderr_min_level := stderr_min_level new, stderr_max_level := stderr_max_level new,
       file_min_level := file_min_level new, file_max_level := file_max_level new,
       udp_min_level := udp_min_level new, udp_max_level := udp_max_level new\<rparr>"

definition mp_logger_configure ::
    "'a mp_logger option \<Rightarrow> mp_logger_config option \<Rightarrow> mp_log_status_t \<times> 'a mp_logger option" where
  "mp_logger_configure logger_ptr config_ptr =
     (case (logger_ptr, config_ptr) of
        (Some logger, Some c) \<Rightarrow>
          if \<not> mp_logger_validate_config c then (MP_LOG_STATUS_CONFIG_ERROR, logger_ptr)
          else let normalized_config = normalize_config c in
            if \<not> mp_logger_runtime_config_is_compatible (logger_config logger) normalized_config
            then (MP_LOG_STATUS_CONFIG_ERROR, logger_ptr)
            else (MP_LOG_STATUS_OK,
                  Some (mp_logger_apply_config_to_streams
                    (logger\<lparr>logger_config := reconfigured (logger_config logger) normalized_config\<rparr>)))
      | _ \<Rightarrow> (MP_LOG_STATUS_INVALID_ARGUMENT, logger_ptr))"

definition mp_logger_get_config ::
    "'a mp_logger option \<Rightarrow> mp_logger_config option \<Rightarrow> mp_log_status_t \<times> mp_logger_config option" where
  "mp_logger_get_config logger_ptr out_config =
     (case (logger_ptr, out_config) of
        (Some logger, Some _) \<Rightarrow> (MP_LOG_STATUS_OK, Some (logger_config logger))
      | _ \<Rightarrow> (MP_LOG_STATUS_INVALID_ARGUMENT, out_config))"

record mp_logger_stats =
  queued_records :: uint64_t
  processed_records :: uint64_t
  dropped_busy :: uint64_t
  dropped_full :: uint64_t
  active_stream_count :: size_t

definition mp_logger_get_stats ::
    "'a mp_logger option \<Rightarrow> mp_logger_stats option \<Rightarrow> mp_log_status_t \<times> mp_logger_stats option" where
  "mp_logger_get_stats logger_ptr out_stats =
     (case (logger_ptr, out_stats) of
        (Some logger, Some _) \<Rightarrow>
          (MP_LOG_STATUS_OK,
           Some \<lparr>queued_records = queued_records_total logger, processed_records = processed_records_total logger,
             dropped_busy = dropped_busy_total logger, dropped_full = dropped_full_total logger,
             active_stream_count = of_nat (length (streams logger))\<rparr>)
      | _ \<Rightarrow> (MP_LOG_STATUS_INVALID_ARGUMENT, out_stats))"

lemma copy_trimmed_again:
  assumes "0 < n" and "n \<le> length dest"
  shows "mp_logger_copy_trimmed (mp_logger_copy_trimmed dest n (Some s)) n (Some s) = mp_logger_copy_trimmed dest n (Some s)"
  using assms by (simp add: mp_logger_copy_trimmed_eq overwrite_0)

lemma reconfigured_again:
  assumes "wf_config old"
  shows "reconfigured (reconfigured old new) new = reconfigured old new"
  using assms by (simp add: reconfigured_def wf_config_def wf_array_def copy_trimmed_again)

lemma wf_config_reconfigured: "wf_config old \<Longrightarrow> wf_config (reconfigured old new)"
  by (simp add: wf_config_def reconfigured_def wf_array_copy_trimmed)

lemma compatible_reconfigured:
  "mp_logger_runtime_config_is_compatible (reconfigured old new) c = mp_logger_runtime_config_is_compatible old c"
  by (simp add: mp_logger_runtime_config_is_compatible_def reconfigured_def)

lemma apply_config_again [simp]: "apply_config_to_stream c (apply_config_to_stream c s) = apply_config_to_stream c s"
  by (simp add: apply_config_to_stream_def)

lemma apply_config_simps [simp]:
  "stream_name (apply_config_to_stream c s) = stream_name s"
  "stream_write (apply_config_to_stream c s) = stream_write s"
  "stream_destroy (apply_config_to_stream c s) = stream_destroy s"
  by (simp_all add: apply_config_to_stream_def)

lemma apply_config_to_streams_again:
  "mp_logger_apply_config_to_streams (mp_logger_apply_config_to_streams l) = mp_logger_apply_config_to_streams l"
  by (simp add: mp_logger_apply_config_to_streams_def mp_logger_refresh_enabled_level_mask_def comp_def)

lemma table_ok_apply_config: "table_ok l \<Longrightarrow> table_ok (mp_logger_apply_config_to_streams l)"
  by (simp add: table_ok_def mask_ok_def mp_logger_apply_config_to_streams_def mp_logger_refresh_enabled_level_mask_def
      comp_def list_all_iff)

lemma configure_again:
  assumes "wf_config (logger_config l)" and "mp_logger_configure (Some l) (Some c) = (MP_LOG_STATUS_OK, Some l')"
  shows "mp_logger_configure (Some l') (Some c) = (MP_LOG_STATUS_OK, Some l')"
proof -
  have ok: "mp_logger_validate_config c" "mp_logger_runtime_config_is_compatible (logger_config l) (normalize_config c)"
    and l': "l' = mp_logger_apply_config_to_streams (l\<lparr>logger_config := reconfigured (logger_config l) (normalize_config c)\<rparr>)"
    using assms(2) by (auto simp: mp_logger_configure_def Let_def split: if_splits)
  have c': "logger_config l' = reconfigured (logger_config l) (normalize_config c)"
    by (simp add: l' mp_logger_apply_config_to_streams_def mp_logger_refresh_enabled_level_mask_def)
  have "l'\<lparr>logger_config := reconfigured (logger_config l') (normalize_config c)\<rparr> = l'"
    unfolding c' reconfigured_again [OF assms(1)] by (simp add: c' [symmetric])
  then have "mp_logger_apply_config_to_streams (l'\<lparr>logger_config := reconfigured (logger_config l') (normalize_config c)\<rparr>) = l'"
    using apply_config_to_streams_again [of "l\<lparr>logger_config := reconfigured (logger_config l) (normalize_config c)\<rparr>"]
    by (simp flip: l')
  then show ?thesis
    using ok by (simp add: mp_logger_configure_def c' compatible_reconfigured)
qed

section \<open>Properties\<close>

text \<open>
  C23: a stream is registered exactly when it has a callback and a name, the table has room and
  no stream has its name; the other outcomes have a status each and change nothing. The new
  stream comes last, the streams before it keep their places, and the table stays well formed.
\<close>

theorem add_stream_contract:
  assumes "table_ok l"
  shows "\<exists>status l'. mp_logger_add_stream (Some l) (Some s) = (status, Some l') \<and> table_ok l' \<and>
    (if stream_write s = None \<or> cstr (stream_name s) = [] then status = MP_LOG_STATUS_INVALID_ARGUMENT \<and> l' = l
     else if length (streams l) = MP_LOGGER_MAX_STREAMS then status = MP_LOG_STATUS_LIMIT_EXCEEDED \<and> l' = l
     else if cstr (stream_name s) \<in> (\<lambda>s. cstr (stream_name s)) ` set (streams l)
     then status = MP_LOG_STATUS_CONFIG_ERROR \<and> l' = l
     else status = MP_LOG_STATUS_OK \<and> streams l' = streams l @ [s] \<and>
       l'\<lparr>streams := streams l, enabled_level_mask := enabled_level_mask l\<rparr> = l)"
proof -
  have le: "length (streams l) \<le> MP_LOGGER_MAX_STREAMS" using assms by (simp add: table_ok_def)
  obtain status l' where r: "mp_logger_add_stream (Some l) (Some s) = (status, Some l')"
    by (cases rule: add_owned_stream_cases [of s l]) (simp_all add: mp_logger_add_stream_def)
  then have "table_ok l'"
    using table_ok_add [OF assms] by (simp add: mp_logger_add_stream_def)
  moreover have "if stream_write s = None \<or> cstr (stream_name s) = [] then status = MP_LOG_STATUS_INVALID_ARGUMENT \<and> l' = l
     else if length (streams l) = MP_LOGGER_MAX_STREAMS then status = MP_LOG_STATUS_LIMIT_EXCEEDED \<and> l' = l
     else if cstr (stream_name s) \<in> (\<lambda>s. cstr (stream_name s)) ` set (streams l)
     then status = MP_LOG_STATUS_CONFIG_ERROR \<and> l' = l
     else status = MP_LOG_STATUS_OK \<and> streams l' = streams l @ [s] \<and>
       l'\<lparr>streams := streams l, enabled_level_mask := enabled_level_mask l\<rparr> = l"
    using r le unfolding mp_logger_add_stream_def mp_logger_add_owned_stream_def prod.case option.case has_stream_name_iff
    by (auto split: if_split_asm)
  ultimately show ?thesis using r by blast
qed

text \<open>
  C24: the cheap level test is exact: a level is enabled when the logger is not shut down and
  some registered stream whose bounds are levels accepts it.
\<close>

theorem is_level_enabled_spec:
  assumes "table_ok l"
  shows "mp_logger_is_level_enabled (Some l) lvl \<longleftrightarrow>
    \<not> shutdown_requested l \<and> valid_level lvl \<and>
    (\<exists>s \<in> set (streams l). valid_level (minimum_level s) \<and> valid_level (maximum_level s) \<and>
       mp_logger_level_in_range lvl (minimum_level s) (maximum_level s))"
  using assms is_level_enabled_iff [of l lvl] by (simp add: table_ok_def counts_in_mask_def)

text \<open>
  C16: a runtime reconfiguration succeeds exactly when the given config is valid and, with its
  file prefixes sanitized, compatible with the current one; otherwise it returns \<open>CONFIG_ERROR\<close>
  and changes nothing. When it succeeds the new config is as well formed as the old one and compatible with it, it has
  the trimmed new names, the new format and the new thresholds, every stream keeps its name and callbacks, the
  level mask follows the thresholds, nothing else of the logger changes, and the same call
  again changes nothing.
\<close>

theorem configure_contract:
  assumes "table_ok l" and "wf_config (logger_config l)"
  shows "if mp_logger_validate_config c \<and> mp_logger_runtime_config_is_compatible (logger_config l) (normalize_config c)
    then \<exists>l'. mp_logger_configure (Some l) (Some c) = (MP_LOG_STATUS_OK, Some l') \<and>
      table_ok l' \<and> wf_config (logger_config l') \<and>
      mp_logger_runtime_config_is_compatible (logger_config l) (logger_config l') \<and>
      cstr (service_name (logger_config l')) = take 63 (trim (cstr (service_name c))) \<and>
      cstr (environment_name (logger_config l')) = take 63 (trim (cstr (environment_name c))) \<and>
      cstr (build_version (logger_config l')) = take 63 (trim (cstr (build_version c))) \<and>
      format (logger_config l') = format c \<and> pretty_output (logger_config l') = pretty_output c \<and>
      streams l' = map (apply_config_to_stream c) (streams l) \<and>
      map stream_name (streams l') = map stream_name (streams l) \<and>
      map stream_write (streams l') = map stream_write (streams l) \<and>
      l'\<lparr>logger_config := logger_config l, streams := streams l, enabled_level_mask := enabled_level_mask l\<rparr> = l \<and>
      mp_logger_configure (Some l') (Some c) = (MP_LOG_STATUS_OK, Some l')
    else mp_logger_configure (Some l) (Some c) = (MP_LOG_STATUS_CONFIG_ERROR, Some l)"
proof (cases "mp_logger_validate_config c \<and>
    mp_logger_runtime_config_is_compatible (logger_config l) (normalize_config c)")
  case False
  then have "mp_logger_configure (Some l) (Some c) = (MP_LOG_STATUS_CONFIG_ERROR, Some l)"
    by (auto simp: mp_logger_configure_def Let_def)
  then show ?thesis using False by (simp only: if_False)
next
  case True
  define c' where "c' = reconfigured (logger_config l) (normalize_config c)"
  define l' where "l' = mp_logger_apply_config_to_streams (l\<lparr>logger_config := c'\<rparr>)"
  have conf: "mp_logger_configure (Some l) (Some c) = (MP_LOG_STATUS_OK, Some l')"
    using True by (simp add: mp_logger_configure_def l'_def c'_def)
  have l': "logger_config l' = c'" "streams l' = map (apply_config_to_stream c') (streams l)"
    "l'\<lparr>logger_config := logger_config l, streams := streams l, enabled_level_mask := enabled_level_mask l\<rparr> = l"
    by (simp_all add: l'_def mp_logger_apply_config_to_streams_def mp_logger_refresh_enabled_level_mask_def)
  have bounds: "apply_config_to_stream c' = apply_config_to_stream c"
    by (rule ext) (simp add: apply_config_to_stream_def c'_def reconfigured_def normalize_config_def)
  have "table_ok l'"
    using assms(1) unfolding l'_def by (intro table_ok_apply_config) (simp add: table_ok_def mask_ok_def)
  moreover have "wf_config c'" using assms(2) by (simp add: c'_def wf_config_reconfigured)
  moreover have "mp_logger_runtime_config_is_compatible (logger_config l) c'"
    by (simp add: c'_def mp_logger_runtime_config_is_compatible_def reconfigured_def)
  moreover have "cstr (service_name c') = take 63 (trim (cstr (service_name c)))"
      "cstr (environment_name c') = take 63 (trim (cstr (environment_name c)))"
      "cstr (build_version c') = take 63 (trim (cstr (build_version c)))" "format c' = format c" "pretty_output c' = pretty_output c"
    using assms(2) by (simp_all add: c'_def reconfigured_def normalize_config_def wf_config_def wf_array_def cstr_copy_trimmed)
  moreover note configure_again [OF assms(2) conf]
  ultimately show ?thesis
    using True conf l'(1,3) l'(2) [unfolded bounds]
    by (simp only: simp_thms if_True) (intro exI [of _ l'], simp add: comp_def)
qed

text \<open>A logger with a custom stream that discards what it gets.\<close>

definition custom_stream :: "string \<Rightarrow> mp_log_level_t \<Rightarrow> mp_log_level_t \<Rightarrow> 'a mp_logger_stream" where
  "custom_stream n lo hi = \<lparr>stream_name = mp_logger_copy_trimmed (zeros MP_LOGGER_NAME_CAPACITY) MP_LOGGER_NAME_CAPACITY (Some n),
     minimum_level = lo, maximum_level = hi,
     stream_write = Some (\<lambda>record line n os. (MP_LOG_STATUS_OK, os)), stream_destroy = None\<rparr>"

definition configured_logger :: "mp_logger_config \<Rightarrow> 'a mp_logger" where
  "configured_logger c = zeroed_logger\<lparr>logger_config := normalize_config c\<rparr>"

lemma configured_logger_simps [simp]:
  "streams (configured_logger c) = []" "logger_config (configured_logger c) = normalize_config c"
  "shutdown_requested (configured_logger c) = False" "queue_mutex (configured_logger c) = False"
  by (simp_all add: configured_logger_def zeroed_logger_def)

lemma table_ok_configured [simp]: "table_ok (configured_logger c)"
  by (simp add: table_ok_def mask_ok_def configured_logger_def zeroed_logger_def)

lemma custom_stream_name [simp]:
  "cstr (stream_name (custom_stream n lo hi)) = take 63 (trim (cstr n))"
  by (simp add: custom_stream_def cstr_copy_trimmed)

lemma wf_normalize: "wf_config c \<Longrightarrow> wf_config (normalize_config c)"
  by (simp add: wf_config_def normalize_config_def wf_array_sanitize)

theorem add_stream_contract_witness:
  "fst (mp_logger_add_stream (Some (configured_logger mp_logger_config_init_defaults :: unit mp_logger))
     (Some (custom_stream ''memory'' MP_LOG_LEVEL_TRACE MP_LOG_LEVEL_FATAL))) = MP_LOG_STATUS_OK"
proof -
  have name: "trim (cstr ''memory'') = ''memory''"
    by (simp add: trim_def cstr_Cons isspace_def char_code_def)
  show ?thesis
    using add_stream_contract [of "configured_logger mp_logger_config_init_defaults :: unit mp_logger"
        "custom_stream ''memory'' MP_LOG_LEVEL_TRACE MP_LOG_LEVEL_FATAL"]
    by (auto simp: name) (simp add: custom_stream_def)
qed

theorem is_level_enabled_spec_witness:
  "\<not> mp_logger_is_level_enabled (Some (configured_logger mp_logger_config_init_defaults :: unit mp_logger)) MP_LOG_LEVEL_INFO"
  using is_level_enabled_spec [of "configured_logger mp_logger_config_init_defaults :: unit mp_logger" MP_LOG_LEVEL_INFO]
  by simp

theorem configure_contract_witness:
  "\<exists>l'. mp_logger_configure (Some (configured_logger mp_logger_config_init_defaults :: unit mp_logger))
     (Some mp_logger_config_init_defaults) = (MP_LOG_STATUS_OK, Some l') \<and> table_ok l'"
proof -
  let ?d = mp_logger_config_init_defaults and ?l = "configured_logger mp_logger_config_init_defaults :: unit mp_logger"
  have "wf_config ?d" using config_inv_defaults by (simp add: config_inv_def)
  then have "wf_config (logger_config ?l)" by (simp add: wf_normalize)
  moreover have "mp_logger_validate_config ?d"
    by (simp add: mp_logger_validate_config_def mp_logger_config_init_defaults_def zeroed_config_def
        cstr_copy_trimmed cstr_Cons trim_def isspace_def char_code_def)
  moreover have "mp_logger_runtime_config_is_compatible (logger_config ?l) (normalize_config ?d)"
    by (simp add: mp_logger_runtime_config_is_compatible_def)
  ultimately show ?thesis
    using configure_contract [of ?l ?d] by auto
qed

text \<open>
  C39: bounds outside the enumeration hide a stream: a stream registered for all levels from
  TRACE upwards, with a maximum above FATAL, takes part in the dispatch of an INFO record, but
  the level test says that no stream accepts INFO.
\<close>

theorem wide_bounds_hidden:
  fixes l :: "'a mp_logger"
  assumes "table_ok l" and "streams l = []"
    and "stream_write s \<noteq> None" and "cstr (stream_name s) \<noteq> []"
    and "minimum_level s = MP_LOG_LEVEL_TRACE" and "MP_LOG_LEVEL_FATAL < maximum_level s" and "valid_level lvl"
  shows "\<exists>l'. mp_logger_add_stream (Some l) (Some s) = (MP_LOG_STATUS_OK, Some l') \<and>
    mp_logger_level_in_range lvl (minimum_level s) (maximum_level s) \<and>
    \<not> mp_logger_is_level_enabled (Some l') lvl"
proof -
  obtain l' where l': "mp_logger_add_stream (Some l) (Some s) = (MP_LOG_STATUS_OK, Some l')" "streams l' = [s]"
    using assms(2-4) by (simp add: mp_logger_add_stream_def mp_logger_add_owned_stream_def)
  then have "mask_ok l'"
    using table_ok_add [OF assms(1)] by (simp add: mp_logger_add_stream_def table_ok_def)
  then show ?thesis
    using l' assms(5-7) is_level_enabled_iff [of l' lvl]
    by (auto simp: counts_in_mask_def valid_level_def mp_logger_level_in_range_def)
qed

theorem wide_bounds_hidden_witness:
  "\<exists>l' :: unit mp_logger.
     mp_logger_add_stream (Some (configured_logger mp_logger_config_init_defaults))
       (Some (custom_stream ''memory'' MP_LOG_LEVEL_TRACE (Log_Level 6))) = (MP_LOG_STATUS_OK, Some l') \<and>
     \<not> mp_logger_is_level_enabled (Some l') MP_LOG_LEVEL_INFO"
proof -
  have name: "trim (cstr ''memory'') = ''memory''"
    by (simp add: trim_def cstr_Cons isspace_def char_code_def)
  let ?s = "custom_stream ''memory'' MP_LOG_LEVEL_TRACE (Log_Level 6) :: unit mp_logger_stream"
  have "stream_write ?s \<noteq> None" "minimum_level ?s = MP_LOG_LEVEL_TRACE" "MP_LOG_LEVEL_FATAL < maximum_level ?s"
    by (simp_all add: custom_stream_def)
  with wide_bounds_hidden [of "configured_logger mp_logger_config_init_defaults" ?s MP_LOG_LEVEL_INFO]
  show ?thesis by (auto simp: name valid_level_def)
qed

text \<open>
  The names are validated before they are trimmed: a reconfiguration with a blank service
  name is accepted and leaves a config with an empty one, which would not pass the validation.
\<close>

theorem configure_blank_name:
  assumes "wf_config (logger_config l)" and "mp_logger_validate_config c"
    and "mp_logger_runtime_config_is_compatible (logger_config l) (normalize_config c)"
    and "trim (cstr (service_name c)) = []"
  shows "\<exists>l'. mp_logger_configure (Some l) (Some c) = (MP_LOG_STATUS_OK, Some l') \<and>
    \<not> mp_logger_validate_config (logger_config l') \<and> fst (mp_logger_configure (Some l') (Some (logger_config l'))) = MP_LOG_STATUS_CONFIG_ERROR"
proof -
  define l' where "l' = mp_logger_apply_config_to_streams (l\<lparr>logger_config := reconfigured (logger_config l) (normalize_config c)\<rparr>)"
  have conf: "mp_logger_configure (Some l) (Some c) = (MP_LOG_STATUS_OK, Some l')"
    using assms(2,3) by (simp add: mp_logger_configure_def l'_def)
  have "logger_config l' = reconfigured (logger_config l) (normalize_config c)"
    by (simp add: l'_def mp_logger_apply_config_to_streams_def mp_logger_refresh_enabled_level_mask_def)
  then have "cstr (service_name (logger_config l')) = []"
    using assms(1,4) by (simp add: reconfigured_def normalize_config_def cstr_copy_trimmed wf_config_def wf_array_def)
  then have "\<not> mp_logger_validate_config (logger_config l')" by (simp add: mp_logger_validate_config_def)
  then show ?thesis using conf by (simp add: mp_logger_configure_def)
qed

theorem configure_blank_name_witness:
  "\<exists>l' :: unit mp_logger. \<exists>c. mp_logger_configure (Some (configured_logger mp_logger_config_init_defaults)) (Some c) =
     (MP_LOG_STATUS_OK, Some l') \<and> \<not> mp_logger_validate_config (logger_config l')"
proof -
  let ?d = mp_logger_config_init_defaults
  define c where "c = ?d\<lparr>service_name := CHR '' '' # zeros 63\<rparr>"
  let ?l = "configured_logger ?d :: unit mp_logger"
  have "wf_config ?d" using config_inv_defaults by (simp add: config_inv_def)
  then have wf: "wf_config (logger_config ?l)" by (simp add: wf_normalize)
  have blank: "cstr (service_name c) = '' ''" by (simp add: c_def cstr_Cons)
  then have "trim (cstr (service_name c)) = []" by (simp add: trim_def isspace_def char_code_def)
  moreover have "mp_logger_validate_config c"
    using blank unfolding c_def
    by (simp add: mp_logger_validate_config_def mp_logger_config_init_defaults_def zeroed_config_def
        cstr_copy_trimmed cstr_Cons trim_def isspace_def char_code_def)
  moreover have "mp_logger_runtime_config_is_compatible (logger_config ?l) (normalize_config c)"
    by (simp add: mp_logger_runtime_config_is_compatible_def normalize_config_def c_def)
  ultimately show ?thesis
    using configure_blank_name [OF wf] by blast
qed

end
