(* ===== verification/Logger_Queue.thy ===== *)
theory Logger_Queue
  imports Logger_State
begin

text \<open>
  The bounded queue of \<open>src/mp_logger.c\<close>: \<open>mp_logger_enqueue_record\<close> puts a record into
  the ring of preallocated slots, the worker takes it out. The ring implements a bounded FIFO
  queue of records, which is stated as the locale \<open>bounded_queue\<close> and interpreted on the
  operations of the code.
\<close>

section \<open>Putting a record into the ring\<close>

text \<open>The arguments of a call of \<open>mp_logger_log_fields\<close> with a message.\<close>

record log_call =
  call_level :: mp_log_level_t
  call_message :: cbuf
  call_context :: "cbuf option"
  call_fields_ptr :: "mp_log_field list option"
  call_field_count :: size_t

text \<open>What happens under the queue mutex once there is room.\<close>

definition admit_record :: "(int \<times> int) option \<Rightarrow> log_call \<Rightarrow> 'a mp_logger \<Rightarrow> 'a mp_logger" where
  "admit_record now call logger =
     (let config = logger_config logger;
          tail = unat (queue_tail logger);
          slot = fill_slot config (slots logger ! tail) (queued_records_total logger + 1) (mp_logger_now_millis now)
            (call_level call) (call_message call) (call_context call) (call_fields_ptr call) (call_field_count call)
      in logger\<lparr>slots := (slots logger)[tail := slot],
           queued_records_total := queued_records_total logger + 1,
           queue_tail := (queue_tail logger + 1) mod buffer_capacity config,
           queue_count := queue_count logger + 1\<rparr>)"

text \<open>
  One call while nobody else changes the logger; \<open>queue_mutex\<close> says whether another thread
  holds the mutex that \<open>pthread_mutex_trylock\<close> tries to take.
\<close>

definition enqueue_call :: "(int \<times> int) option \<Rightarrow> log_call \<Rightarrow> 'a mp_logger \<Rightarrow> mp_log_status_t \<times> 'a mp_logger" where
  "enqueue_call now call logger =
     (let field_status = mp_logger_validate_fields (Some (logger_config logger)) (call_fields_ptr call) (call_field_count call)
      in if field_status \<noteq> MP_LOG_STATUS_OK then (field_status, logger)
         else if shutdown_requested logger then (MP_LOG_STATUS_NOT_RUNNING, logger)
         else if queue_mutex logger
         then (MP_LOG_STATUS_BUSY, logger\<lparr>dropped_busy_total := dropped_busy_total logger + 1\<rparr>)
         else if queue_count logger \<ge> buffer_capacity (logger_config logger)
         then (MP_LOG_STATUS_QUEUE_FULL, logger\<lparr>dropped_full_total := dropped_full_total logger + 1\<rparr>)
         else (MP_LOG_STATUS_OK, admit_record now call logger))"

definition mp_logger_enqueue_record ::
    "(int \<times> int) option \<Rightarrow> 'a mp_logger option \<Rightarrow> mp_log_level_t \<Rightarrow> cbuf option \<Rightarrow> cbuf option \<Rightarrow>
     mp_log_field list option \<Rightarrow> size_t \<Rightarrow> mp_log_status_t \<times> 'a mp_logger option" where
  "mp_logger_enqueue_record now logger_ptr lvl msg ctx fields_ptr count =
     (case (logger_ptr, msg) of
        (Some logger, Some m) \<Rightarrow>
          map_prod id Some (enqueue_call now
            \<lparr>call_level = lvl, call_message = m, call_context = ctx, call_fields_ptr = fields_ptr,
              call_field_count = count\<rparr> logger)
      | _ \<Rightarrow> (MP_LOG_STATUS_INVALID_ARGUMENT, logger_ptr))"

definition mp_logger_log ::
    "(int \<times> int) option \<Rightarrow> 'a mp_logger option \<Rightarrow> mp_log_level_t \<Rightarrow> cbuf option \<Rightarrow> cbuf option \<Rightarrow>
     mp_log_status_t \<times> 'a mp_logger option" where
  "mp_logger_log now logger_ptr lvl msg ctx = mp_logger_enqueue_record now logger_ptr lvl msg ctx None 0"

definition mp_logger_log_fields ::
    "(int \<times> int) option \<Rightarrow> 'a mp_logger option \<Rightarrow> mp_log_level_t \<Rightarrow> cbuf option \<Rightarrow> cbuf option \<Rightarrow>
     mp_log_field list option \<Rightarrow> size_t \<Rightarrow> mp_log_status_t \<times> 'a mp_logger option" where
  "mp_logger_log_fields now logger_ptr lvl msg ctx fields_ptr count =
     mp_logger_enqueue_record now logger_ptr lvl msg ctx fields_ptr count"

text \<open>What the worker does under the queue mutex when there is a record.\<close>

definition take_record :: "'a mp_logger \<times> scratch \<Rightarrow> mp_log_record \<times> 'a mp_logger \<times> scratch" where
  "take_record q =
     (case q of (logger, sc) \<Rightarrow>
        case mp_logger_copy_record_from_slot (logger_config logger) (slots logger ! unat (queue_head logger)) sc of
          (record, sc') \<Rightarrow>
            (record,
             logger\<lparr>queue_head := (queue_head logger + 1) mod buffer_capacity (logger_config logger),
               queue_count := queue_count logger - 1\<rparr>, sc'))"

section \<open>Bounded queues\<close>

text \<open>
  The contract of a bounded FIFO queue over an implementation state: \<open>contents\<close> are the
  waiting values, \<open>entry\<close> is the value that a put adds.
\<close>

primrec take_all :: "('q \<Rightarrow> 'v \<times> 'q) \<Rightarrow> nat \<Rightarrow> 'q \<Rightarrow> 'v list \<times> 'q" where
  "take_all deq 0 q = ([], q)"
| "take_all deq (Suc n) q = (case deq q of (v, q') \<Rightarrow> case take_all deq n q' of (vs, q'') \<Rightarrow> (v # vs, q''))"

locale bounded_queue =
  fixes inv :: "'q \<Rightarrow> bool" and capacity :: "'q \<Rightarrow> nat" and contents :: "'q \<Rightarrow> 'v list"
    and allowed :: "'e \<Rightarrow> 'q \<Rightarrow> bool" and entry :: "'e \<Rightarrow> 'q \<Rightarrow> 'v"
    and enq :: "'e \<Rightarrow> 'q \<Rightarrow> 'q" and deq :: "'q \<Rightarrow> 'v \<times> 'q"
  assumes within: "inv q \<Longrightarrow> length (contents q) \<le> capacity q"
    and enq_law: "inv q \<Longrightarrow> allowed e q \<Longrightarrow> length (contents q) < capacity q \<Longrightarrow>
      inv (enq e q) \<and> contents (enq e q) = contents q @ [entry e q] \<and> capacity (enq e q) = capacity q"
    and deq_law: "inv q \<Longrightarrow> contents q \<noteq> [] \<Longrightarrow>
      inv (snd (deq q)) \<and> fst (deq q) = hd (contents q) \<and> contents (snd (deq q)) = tl (contents q) \<and>
      capacity (snd (deq q)) = capacity q"
begin

text \<open>A put and a get seen from a log of everything that was put and taken.\<close>

lemma put_history:
  "inv q \<Longrightarrow> allowed e q \<Longrightarrow> length (contents q) < capacity q \<Longrightarrow> accepted = taken @ contents q \<Longrightarrow>
   accepted @ [entry e q] = taken @ contents (enq e q)"
  by (simp add: enq_law)

lemma get_history:
  "inv q \<Longrightarrow> contents q \<noteq> [] \<Longrightarrow> accepted = taken @ contents q \<Longrightarrow>
   accepted = (taken @ [fst (deq q)]) @ contents (snd (deq q))"
  by (simp add: deq_law)

text \<open>As many gets as there are values take them all, in order.\<close>

lemma drain:
  assumes "inv q" and "length (contents q) = n"
  shows "\<exists>q'. take_all deq n q = (contents q, q') \<and> inv q' \<and> contents q' = [] \<and> capacity q' = capacity q"
  using assms
proof (induction n arbitrary: q)
  case 0
  then show ?case by simp
next
  case (Suc n)
  then have "contents q \<noteq> []" by auto
  note step = deq_law [OF Suc.prems(1) this]
  with Suc obtain q' where "take_all deq n (snd (deq q)) = (tl (contents q), q')" "inv q'" "contents q' = []"
      "capacity q' = capacity q"
    by (metis diff_Suc_1 length_tl)
  with step \<open>contents q \<noteq> []\<close> show ?case by (simp add: case_prod_beta)
qed

end

section \<open>The ring\<close>

definition ring_index :: "'a mp_logger \<Rightarrow> nat \<Rightarrow> nat" where
  "ring_index logger i = (unat (queue_head logger) + i) mod unat (buffer_capacity (logger_config logger))"

text \<open>
  The invariant: one slot of the right shape per place, head and tail inside the ring and
  \<open>queue_count\<close> apart, and a record in each of the \<open>queue_count\<close> slots from the head on.
\<close>

definition ring_ok :: "'a mp_logger \<Rightarrow> bool" where
  "ring_ok logger \<longleftrightarrow>
     (let config = logger_config logger; n = unat (buffer_capacity config); count = unat (queue_count logger) in
        capacities_ok config \<and> length (slots logger) = n \<and> list_all (wf_slot config) (slots logger) \<and>
        unat (queue_head logger) < n \<and> count \<le> n \<and>
        unat (queue_tail logger) = ring_index logger count \<and>
        (\<forall>i < count. filled_slot config (slots logger ! ring_index logger i)))"

definition queue_view :: "'a mp_logger \<Rightarrow> record_view list" where
  "queue_view logger = map (\<lambda>i. slot_view (slots logger ! ring_index logger i)) [0..<unat (queue_count logger)]"

text \<open>A call that passes the validation, and the record it stands for.\<close>

definition call_ok :: "log_call \<Rightarrow> mp_logger_config \<Rightarrow> bool" where
  "call_ok call config \<longleftrightarrow>
     fields_readable (call_fields_ptr call) (call_field_count call) \<and>
     mp_logger_validate_fields (Some config) (call_fields_ptr call) (call_field_count call) = MP_LOG_STATUS_OK"

definition call_view :: "mp_logger_config \<Rightarrow> uint64_t \<Rightarrow> (int \<times> int) option \<Rightarrow> log_call \<Rightarrow> record_view" where
  "call_view config seq now call =
     \<lparr>view_sequence_id = seq, view_millis = mp_logger_now_millis now, view_level = call_level call,
      view_message = take (unat (message_capacity config) - 1) (cstr (call_message call)),
      view_context = take (unat (context_capacity config) - 1) (ostr (call_context call)),
      view_fields = map field_view (call_fields (call_fields_ptr call) (call_field_count call))\<rparr>"

lemma length_queue_view [simp]: "length (queue_view logger) = unat (queue_count logger)"
  by (simp add: queue_view_def)

lemma mod_Suc_word:
  fixes w :: size_t
  assumes "unat w < unat n"
  shows "unat ((w + 1) mod n) = (unat w + 1) mod unat n"
proof -
  have "unat w + 1 < 2 ^ 64" using assms unat_less_2p64 [of n] by simp
  then show ?thesis by (simp add: unat_mod)
qed

lemma ring_index_less: "ring_ok logger \<Longrightarrow> ring_index logger i < unat (buffer_capacity (logger_config logger))"
  by (simp add: ring_index_def ring_ok_def Let_def)

lemma ring_index_inj:
  assumes "i < n" and "j < n" and "(h + i) mod n = (h + j) mod (n :: nat)"
  shows "i = j"
proof -
  have "i = j" if "i \<le> j" "j < n" "(h + i) mod n = (h + j) mod n" for i j
  proof -
    have "n dvd (h + j) - (h + i)"
      using that by (metis mod_eq_dvd_iff_nat nat_add_left_cancel_le)
    then have "n dvd j - i" by simp
    moreover have "j - i < n" using that by simp
    ultimately have "j - i = 0" by (metis gr0I nat_dvd_not_less)
    then show ?thesis using that by simp
  qed
  with assms show ?thesis by (metis nat_le_linear)
qed

lemma admit_record_simps [simp]:
  "logger_config (admit_record now call l) = logger_config l"
  "queue_head (admit_record now call l) = queue_head l"
  "queue_count (admit_record now call l) = queue_count l + 1"
  "queued_records_total (admit_record now call l) = queued_records_total l + 1"
  "processed_records_total (admit_record now call l) = processed_records_total l"
  "dropped_busy_total (admit_record now call l) = dropped_busy_total l"
  "dropped_full_total (admit_record now call l) = dropped_full_total l"
  "streams (admit_record now call l) = streams l"
  "shutdown_requested (admit_record now call l) = shutdown_requested l"
  "worker_started (admit_record now call l) = worker_started l"
  "queue_mutex (admit_record now call l) = queue_mutex l"
  by (simp_all add: admit_record_def Let_def)

lemma admit_record_ring:
  assumes ring: "ring_ok l" and call: "call_ok call (logger_config l)"
    and room: "unat (queue_count l) < unat (buffer_capacity (logger_config l))"
  shows "ring_ok (admit_record now call l)"
    and "queue_view (admit_record now call l) =
      queue_view l @ [call_view (logger_config l) (queued_records_total l + 1) now call]"
proof -
  let ?c = "logger_config l" and ?l' = "admit_record now call l" and ?k = "unat (queue_count l)"
  let ?n = "unat (buffer_capacity ?c)"
  have r: "capacities_ok ?c" "length (slots l) = ?n" "list_all (wf_slot ?c) (slots l)" "unat (queue_head l) < ?n"
    "unat (queue_tail l) = ring_index l ?k" "\<And>i. i < ?k \<Longrightarrow> filled_slot ?c (slots l ! ring_index l i)"
    using ring by (simp_all add: ring_ok_def Let_def)
  have tail: "unat (queue_tail l) < ?n" using ring_index_less [OF ring] by (simp add: r(5))
  have count: "unat (queue_count l + 1) = ?k + 1"
    using room unat_less_2p64 [of "buffer_capacity ?c"] by simp
  have index: "ring_index ?l' i = ring_index l i" for i by (simp add: ring_index_def)
  define slot where "slot = fill_slot ?c (slots l ! unat (queue_tail l)) (queued_records_total l + 1)
    (mp_logger_now_millis now) (call_level call) (call_message call) (call_context call) (call_fields_ptr call)
    (call_field_count call)"
  have slots: "slots ?l' = (slots l)[ring_index l ?k := slot]" by (simp add: admit_record_def slot_def Let_def flip: r(5))
  have "wf_slot ?c (slots l ! unat (queue_tail l))" using r(2,3) tail by (simp add: list_all_length)
  moreover note acc = accepted_fields [of "call_fields_ptr call" "call_field_count call" ?c]
  moreover have "list_all (valid_field ?c) (call_fields (call_fields_ptr call) (call_field_count call))"
    using call acc(3) by (simp add: call_ok_def valid_fields_def)
  ultimately have slot: "filled_slot ?c slot" "slot_view slot = call_view ?c (queued_records_total l + 1) now call"
    using call fill_slot_spec(1,2) [OF _ r(1) _ _ _ slot_def] by (simp_all add: call_ok_def call_view_def)
  have apart: "ring_index l i \<noteq> ring_index l ?k" if "i < ?k" for i
    using ring_index_inj [of i ?n ?k "unat (queue_head l)"] room that by (auto simp: ring_index_def)
  have new: "slots ?l' ! ring_index l ?k = slot" using tail r(2) by (simp add: slots flip: r(5))
  have old: "slots ?l' ! ring_index l i = slots l ! ring_index l i" if "i < ?k" for i
    using apart [OF that] by (simp add: slots)
  have "unat (queue_tail ?l') = (unat (queue_tail l) + 1) mod ?n"
    using mod_Suc_word [OF tail] by (simp add: admit_record_def Let_def)
  also have "\<dots> = ring_index l (?k + 1)" by (simp add: r(5) ring_index_def mod_simps)
  finally have tail': "unat (queue_tail ?l') = ring_index l (?k + 1)" .
  have "list_all (wf_slot ?c) (slots ?l')"
    using r(3) slot(1) by (auto simp: slots list_all_iff filled_slot_def dest!: set_update_subset_insert [THEN subsetD])
  moreover have "filled_slot ?c (slots ?l' ! ring_index l i)" if "i < ?k + 1" for i
    using that slot(1) new old r(6) by (cases "i = ?k") simp_all
  ultimately show "ring_ok ?l'"
    using r tail' count room by (simp add: ring_ok_def Let_def index slots)
  have "queue_view ?l' = map (\<lambda>i. slot_view (slots ?l' ! ring_index l i)) ([0..<?k] @ [?k])"
    using count by (simp add: queue_view_def index)
  then show "queue_view ?l' = queue_view l @ [call_view ?c (queued_records_total l + 1) now call]"
    using new old slot(2) by (simp add: queue_view_def)
qed

lemma take_record_ring:
  assumes ring: "ring_ok l" and sc: "wf_scratch (logger_config l) sc" and some: "queue_count l \<noteq> 0"
    and take: "take_record (l, sc) = (r, l', sc')"
  shows "ring_ok l'" and "wf_scratch (logger_config l) sc'" and "logger_config l' = logger_config l"
    and "view_of r = hd (queue_view l)" and "queue_view l' = tl (queue_view l)"
    and "list_all (valid_field (logger_config l)) (fields_of r)"
proof -
  let ?c = "logger_config l" and ?k = "unat (queue_count l)"
  let ?n = "unat (buffer_capacity ?c)"
  have g: "capacities_ok ?c" "length (slots l) = ?n" "list_all (wf_slot ?c) (slots l)" "unat (queue_head l) < ?n" "?k \<le> ?n"
    "unat (queue_tail l) = ring_index l ?k" "\<And>i. i < ?k \<Longrightarrow> filled_slot ?c (slots l ! ring_index l i)"
    using ring by (simp_all add: ring_ok_def Let_def)
  have pos: "0 < ?k" using some by (simp add: unat_gt_0)
  have head: "ring_index l 0 = unat (queue_head l)" using g(4) by (simp add: ring_index_def)
  obtain r2 sc2 where copy: "mp_logger_copy_record_from_slot ?c (slots l ! ring_index l 0) sc = (r2, sc2)"
    by (metis surj_pair)
  have l': "l' = l\<lparr>queue_head := (queue_head l + 1) mod buffer_capacity ?c, queue_count := queue_count l - 1\<rparr>"
    "r2 = r" "sc2 = sc'"
    using take copy by (simp_all add: take_record_def head)
  note spec = copy_record_spec [OF g(7) [OF pos] sc g(1) copy [unfolded l'(2,3)]]
  show "wf_scratch ?c sc'" "list_all (valid_field ?c) (fields_of r)" using spec by simp_all
  show "logger_config l' = ?c" by (simp add: l'(1))
  have count: "unat (queue_count l - 1) = ?k - 1" using some by (simp add: unat_minus_one)
  have h: "unat (queue_head l') = (unat (queue_head l) + 1) mod ?n"
    using mod_Suc_word [OF g(4)] by (simp add: l'(1))
  have index: "ring_index l' i = ring_index l (Suc i)" for i
    using h by (simp add: ring_index_def l'(1) mod_simps)
  have views: "queue_view l' = map (\<lambda>i. slot_view (slots l ! ring_index l (Suc i))) [0..<?k - 1]"
    unfolding queue_view_def index by (simp add: l'(1) count)
  have "[0..<?k] = 0 # map Suc [0..<?k - 1]"
    using pos by (metis Suc_pred' map_Suc_upt upt_conv_Cons)
  then have "queue_view l = slot_view (slots l ! ring_index l 0) # map (\<lambda>i. slot_view (slots l ! ring_index l (Suc i))) [0..<?k - 1]"
    unfolding queue_view_def by (simp add: comp_def)
  then show "view_of r = hd (queue_view l)" "queue_view l' = tl (queue_view l)"
    using spec(1) by (simp_all only: views list.sel)
  have "ring_index l (Suc (?k - 1)) = ring_index l ?k" using pos by simp
  then show "ring_ok l'"
    using g h pos count by (simp add: ring_ok_def Let_def index) (simp add: l'(1))
qed

text \<open>The ring with the scratch buffers of the worker as a bounded queue of records.\<close>

definition ring_inv :: "'a mp_logger \<times> scratch \<Rightarrow> bool" where
  "ring_inv q \<longleftrightarrow> ring_ok (fst q) \<and> wf_scratch (logger_config (fst q)) (snd q)"

definition ring_capacity :: "'a mp_logger \<times> scratch \<Rightarrow> nat" where
  "ring_capacity q = unat (buffer_capacity (logger_config (fst q)))"

definition ring_contents :: "'a mp_logger \<times> scratch \<Rightarrow> record_view list" where
  "ring_contents q = queue_view (fst q)"

definition ring_allowed :: "(int \<times> int) option \<times> log_call \<Rightarrow> 'a mp_logger \<times> scratch \<Rightarrow> bool" where
  "ring_allowed e q \<longleftrightarrow> call_ok (snd e) (logger_config (fst q))"

definition ring_entry :: "(int \<times> int) option \<times> log_call \<Rightarrow> 'a mp_logger \<times> scratch \<Rightarrow> record_view" where
  "ring_entry e q = call_view (logger_config (fst q)) (queued_records_total (fst q) + 1) (fst e) (snd e)"

definition ring_put :: "(int \<times> int) option \<times> log_call \<Rightarrow> 'a mp_logger \<times> scratch \<Rightarrow> 'a mp_logger \<times> scratch" where
  "ring_put e q = (admit_record (fst e) (snd e) (fst q), snd q)"

definition ring_take :: "'a mp_logger \<times> scratch \<Rightarrow> record_view \<times> 'a mp_logger \<times> scratch" where
  "ring_take q = apfst view_of (take_record q)"

lemmas ring_defs = ring_inv_def ring_capacity_def ring_contents_def ring_allowed_def ring_entry_def ring_put_def
  ring_take_def

lemma queue_view_nonempty: "queue_view l \<noteq> [] \<longleftrightarrow> queue_count l \<noteq> 0"
  by (metis length_0_conv length_queue_view unat_eq_0)

interpretation ring: bounded_queue ring_inv ring_capacity ring_contents ring_allowed ring_entry ring_put ring_take
proof
  fix q :: "'a mp_logger \<times> scratch" and e :: "(int \<times> int) option \<times> log_call"
  obtain l sc where q: "q = (l, sc)" by (cases q)
  assume inv: "ring_inv q"
  then have ring: "ring_ok l" and sc: "wf_scratch (logger_config l) sc" by (simp_all add: ring_defs q)
  show "length (ring_contents q) \<le> ring_capacity q"
    using ring by (simp add: ring_defs q ring_ok_def Let_def)
  show "ring_inv (ring_put e q) \<and> ring_contents (ring_put e q) = ring_contents q @ [ring_entry e q] \<and>
      ring_capacity (ring_put e q) = ring_capacity q"
    if "ring_allowed e q" "length (ring_contents q) < ring_capacity q"
    using admit_record_ring [OF ring, of "snd e" "fst e"] that sc by (simp add: ring_defs q)
  assume "ring_contents q \<noteq> []"
  then have some: "queue_count l \<noteq> 0" by (simp add: ring_defs q queue_view_nonempty)
  obtain r l' sc' where take: "take_record (l, sc) = (r, l', sc')" by (metis prod_cases3)
  from take_record_ring [OF ring sc some take]
  show "ring_inv (snd (ring_take q)) \<and> fst (ring_take q) = hd (ring_contents q) \<and>
      ring_contents (snd (ring_take q)) = tl (ring_contents q) \<and> ring_capacity (snd (ring_take q)) = ring_capacity q"
    by (simp add: ring_defs q take)
qed

section \<open>Runs of the queue\<close>

text \<open>
  A sequence of log calls and takes of the worker, in the order in which they get hold of the
  queue, with the outcome of each.
\<close>

datatype ring_event = Log_Event "(int \<times> int) option" log_call | Take_Event

datatype ring_outcome = Logged mp_log_status_t | Took mp_log_record | Idle

fun ring_run :: "ring_event list \<Rightarrow> 'a mp_logger \<times> scratch \<Rightarrow> ring_outcome list \<times> 'a mp_logger \<times> scratch" where
  "ring_run [] q = ([], q)"
| "ring_run (Log_Event now call # evs) q =
     (case enqueue_call now call (fst q) of (status, l) \<Rightarrow>
        apfst ((#) (Logged status)) (ring_run evs (l, snd q)))"
| "ring_run (Take_Event # evs) q =
     (if queue_count (fst q) = 0 then apfst ((#) Idle) (ring_run evs q)
      else case take_record q of (r, q') \<Rightarrow> apfst ((#) (Took r)) (ring_run evs q'))"

text \<open>The records of the accepted calls, numbered from \<open>seq + 1\<close>, and the records taken.\<close>

fun accepted_views :: "mp_logger_config \<Rightarrow> uint64_t \<Rightarrow> ring_event list \<Rightarrow> ring_outcome list \<Rightarrow> record_view list" where
  "accepted_views c seq (Log_Event now call # evs) (Logged MP_LOG_STATUS_OK # outs) =
     call_view c (seq + 1) now call # accepted_views c (seq + 1) evs outs"
| "accepted_views c seq (ev # evs) (out # outs) = accepted_views c seq evs outs"
| "accepted_views c seq evs outs = []"

fun taken_views :: "ring_outcome list \<Rightarrow> record_view list" where
  "taken_views [] = []"
| "taken_views (Took r # outs) = view_of r # taken_views outs"
| "taken_views (out # outs) = taken_views outs"

lemma accepted_views_skip [simp]:
  "status \<noteq> MP_LOG_STATUS_OK \<Longrightarrow>
   accepted_views c seq (Log_Event now call # evs) (Logged status # outs) = accepted_views c seq evs outs"
  by (cases status) simp_all

lemma enqueue_call_cases:
  obtains
    (invalid) status where "mp_logger_validate_fields (Some (logger_config l)) (call_fields_ptr call) (call_field_count call) = status"
      "status \<noteq> MP_LOG_STATUS_OK" "enqueue_call now call l = (status, l)"
  | (stopped) "mp_logger_validate_fields (Some (logger_config l)) (call_fields_ptr call) (call_field_count call) = MP_LOG_STATUS_OK"
      "shutdown_requested l" "enqueue_call now call l = (MP_LOG_STATUS_NOT_RUNNING, l)"
  | (busy) "mp_logger_validate_fields (Some (logger_config l)) (call_fields_ptr call) (call_field_count call) = MP_LOG_STATUS_OK"
      "\<not> shutdown_requested l" "queue_mutex l"
      "enqueue_call now call l = (MP_LOG_STATUS_BUSY, l\<lparr>dropped_busy_total := dropped_busy_total l + 1\<rparr>)"
  | (full) "mp_logger_validate_fields (Some (logger_config l)) (call_fields_ptr call) (call_field_count call) = MP_LOG_STATUS_OK"
      "\<not> shutdown_requested l" "\<not> queue_mutex l" "queue_count l \<ge> buffer_capacity (logger_config l)"
      "enqueue_call now call l = (MP_LOG_STATUS_QUEUE_FULL, l\<lparr>dropped_full_total := dropped_full_total l + 1\<rparr>)"
  | (accepted) "mp_logger_validate_fields (Some (logger_config l)) (call_fields_ptr call) (call_field_count call) = MP_LOG_STATUS_OK"
      "\<not> shutdown_requested l" "\<not> queue_mutex l" "queue_count l < buffer_capacity (logger_config l)"
      "enqueue_call now call l = (MP_LOG_STATUS_OK, admit_record now call l)"
proof -
  let ?ok = "mp_logger_validate_fields (Some (logger_config l)) (call_fields_ptr call) (call_field_count call) = MP_LOG_STATUS_OK"
  consider "\<not> ?ok" | "?ok" "shutdown_requested l" | "?ok" "\<not> shutdown_requested l" "queue_mutex l"
    | "?ok" "\<not> shutdown_requested l" "\<not> queue_mutex l" "queue_count l \<ge> buffer_capacity (logger_config l)"
    | "?ok" "\<not> shutdown_requested l" "\<not> queue_mutex l" "queue_count l < buffer_capacity (logger_config l)"
    using not_le by blast
  then show thesis
  proof cases
    case 1
    then show thesis by (intro invalid) (simp_all add: enqueue_call_def Let_def)
  next
    case 2
    then show thesis by (intro stopped) (simp_all add: enqueue_call_def)
  next
    case 3
    then show thesis by (intro busy) (simp_all add: enqueue_call_def)
  next
    case 4
    then show thesis by (intro full) (simp_all add: enqueue_call_def)
  next
    case 5
    then show thesis by (intro accepted) (simp_all add: enqueue_call_def leD)
  qed
qed

lemma ring_ok_counters [simp]:
  "ring_ok (l\<lparr>dropped_busy_total := n\<rparr>) = ring_ok l"
  "ring_ok (l\<lparr>dropped_full_total := n\<rparr>) = ring_ok l"
  "queue_view (l\<lparr>dropped_busy_total := n\<rparr>) = queue_view l"
  "queue_view (l\<lparr>dropped_full_total := n\<rparr>) = queue_view l"
  by (simp_all add: ring_ok_def queue_view_def ring_index_def Let_def)

text \<open>One call: the queue grows by the record of the call exactly when the status is \<open>OK\<close>.\<close>

lemma enqueue_call_step:
  assumes inv: "ring_inv (l, sc)" and readable: "fields_readable (call_fields_ptr call) (call_field_count call)"
    and eq: "enqueue_call now call l = (status, l')"
  shows "ring_inv (l', sc) \<and> logger_config l' = logger_config l \<and>
    (if status = MP_LOG_STATUS_OK
     then queue_view l' = queue_view l @ [call_view (logger_config l) (queued_records_total l + 1) now call] \<and>
       queued_records_total l' = queued_records_total l + 1
     else queue_view l' = queue_view l \<and> queued_records_total l' = queued_records_total l)"
proof (cases rule: enqueue_call_cases [of l call now])
  case accepted
  then have "ring_allowed (now, call) (l, sc)" "length (ring_contents (l, sc)) < ring_capacity (l, sc)"
    using readable by (simp_all add: ring_defs call_ok_def word_less_nat_alt)
  from ring.enq_law [OF inv this] accepted eq show ?thesis by (auto simp: ring_defs)
qed (use inv eq in \<open>auto simp: ring_inv_def\<close>)

text \<open>The readability of the arguments is all a caller has to see to.\<close>

fun event_readable :: "ring_event \<Rightarrow> bool" where
  "event_readable (Log_Event now call) = fields_readable (call_fields_ptr call) (call_field_count call)"
| "event_readable Take_Event = True"

lemma ring_run_fifo:
  "ring_inv q \<Longrightarrow> list_all event_readable evs \<Longrightarrow> ring_run evs q = (outs, q') \<Longrightarrow>
   ring_inv q' \<and> length outs = length evs \<and>
   taken_views outs @ ring_contents q' =
     ring_contents q @ accepted_views (logger_config (fst q)) (queued_records_total (fst q)) evs outs"
proof (induction evs q arbitrary: outs q' rule: ring_run.induct)
  case (1 q)
  then show ?case by simp
next
  case (2 now call evs q)
  obtain status l where e: "enqueue_call now call (fst q) = (status, l)" by (metis surj_pair)
  obtain outs2 where outs: "outs = Logged status # outs2" "ring_run evs (l, snd q) = (outs2, q')"
    using 2(4) by (cases "ring_run evs (l, snd q)") (auto simp: e)
  from 2(2) e have step: "ring_inv (l, snd q) \<and> logger_config l = logger_config (fst q) \<and>
    (if status = MP_LOG_STATUS_OK
     then queue_view l = queue_view (fst q) @ [call_view (logger_config (fst q)) (queued_records_total (fst q) + 1) now call] \<and>
       queued_records_total l = queued_records_total (fst q) + 1
     else queue_view l = queue_view (fst q) \<and> queued_records_total l = queued_records_total (fst q))"
    using 2(3) by (intro enqueue_call_step [of "fst q" "snd q"]) simp_all
  with 2(1) [OF e [symmetric] _ _ outs(2)] 2(3) show ?case
    by (cases "status = MP_LOG_STATUS_OK") (auto simp: outs(1) ring_contents_def)
next
  case (3 evs q)
  show ?case
  proof (cases "queue_count (fst q) = 0")
    case True
    then obtain outs2 where "outs = Idle # outs2" "ring_run evs q = (outs2, q')"
      using 3(5) by (cases "ring_run evs q") auto
    with 3(1) [OF True 3(3)] 3(4) show ?thesis by simp
  next
    case False
    obtain r q2 where take: "take_record q = (r, q2)" by (metis surj_pair)
    then obtain outs2 where outs: "outs = Took r # outs2" "ring_run evs q2 = (outs2, q')"
      using 3(5) False by (cases "ring_run evs q2") auto
    have some: "ring_contents q \<noteq> []" using False by (simp add: ring_contents_def queue_view_nonempty)
    from ring.deq_law [OF 3(3) this] have q2: "ring_inv q2" "view_of r = hd (ring_contents q)" "ring_contents q2 = tl (ring_contents q)"
      by (simp_all add: ring_take_def take)
    have same: "logger_config (fst q2) = logger_config (fst q)" "queued_records_total (fst q2) = queued_records_total (fst q)"
      using take by (auto simp: take_record_def split: prod.splits)
    from 3(2) [OF False take [symmetric] q2(1) _ outs(2)] 3(4) show ?thesis
      using q2 same some by (auto simp: outs(1) append_eq_Cons_conv Cons_eq_append_conv)
  qed
qed

lemma accepted_sequence:
  "map view_sequence_id (accepted_views c seq evs outs) =
   map (\<lambda>i. seq + of_nat (i + 1)) [0..<length (accepted_views c seq evs outs)]"
proof (induction c seq evs outs rule: accepted_views.induct)
  case (1 c seq now call evs outs)
  then show ?case
    by (simp add: call_view_def map_upt_Suc add.assoc add.commute del: upt_Suc)
qed simp_all

section \<open>Properties\<close>

text \<open>
  C7: the complete behaviour of a log call. A missing logger or message, invalid fields, a
  stopped logger, a mutex held by another thread and a full queue have a status each; the last
  two count a drop and nothing else changes. Otherwise the call is \<open>OK\<close> and appends its
  record to the queue under the next sequence number, and the ring stays well formed.
\<close>

theorem enqueue_record_contract:
  assumes ring: "ring_ok l" and readable: "fields_readable fields_ptr count"
  shows "\<exists>status l'. mp_logger_enqueue_record now (Some l) lvl msg ctx fields_ptr count = (status, Some l') \<and> ring_ok l' \<and>
    (case msg of
       None \<Rightarrow> status = MP_LOG_STATUS_INVALID_ARGUMENT \<and> l' = l
     | Some m \<Rightarrow>
         if mp_logger_validate_fields (Some (logger_config l)) fields_ptr count \<noteq> MP_LOG_STATUS_OK
         then status = mp_logger_validate_fields (Some (logger_config l)) fields_ptr count \<and> l' = l
         else if shutdown_requested l then status = MP_LOG_STATUS_NOT_RUNNING \<and> l' = l
         else if queue_mutex l
         then status = MP_LOG_STATUS_BUSY \<and> l' = l\<lparr>dropped_busy_total := dropped_busy_total l + 1\<rparr>
         else if length (queue_view l) = unat (buffer_capacity (logger_config l))
         then status = MP_LOG_STATUS_QUEUE_FULL \<and> l' = l\<lparr>dropped_full_total := dropped_full_total l + 1\<rparr>
         else status = MP_LOG_STATUS_OK \<and> queued_records_total l' = queued_records_total l + 1 \<and>
           queue_view l' = queue_view l @
             [\<lparr>view_sequence_id = queued_records_total l + 1, view_millis = mp_logger_now_millis now, view_level = lvl,
               view_message = take (unat (message_capacity (logger_config l)) - 1) (cstr m),
               view_context = take (unat (context_capacity (logger_config l)) - 1) (ostr ctx),
               view_fields = map field_view (call_fields fields_ptr count)\<rparr>])"
proof (cases msg)
  case None
  then show ?thesis using ring by (simp add: mp_logger_enqueue_record_def)
next
  case (Some m)
  define call where "call = \<lparr>call_level = lvl, call_message = m, call_context = ctx, call_fields_ptr = fields_ptr,
    call_field_count = count\<rparr>"
  obtain status l' where e: "enqueue_call now call l = (status, l')" by (metis surj_pair)
  have r: "mp_logger_enqueue_record now (Some l) lvl msg ctx fields_ptr count = (status, Some l')"
    using e by (simp add: mp_logger_enqueue_record_def Some call_def)
  have inv: "ring_inv (l, fresh_scratch (logger_config l))" using ring by (simp add: ring_inv_def)
  have readable': "fields_readable (call_fields_ptr call) (call_field_count call)" using readable by (simp add: call_def)
  note step = enqueue_call_step [OF inv readable' e]
  have count: "queue_count l \<ge> buffer_capacity (logger_config l) \<longleftrightarrow>
      length (queue_view l) = unat (buffer_capacity (logger_config l))"
    using ring by (auto simp: word_le_nat_alt ring_ok_def Let_def)
  have fields: "call_fields_ptr call = fields_ptr" "call_field_count call = count"
    by (simp_all add: call_def)
  have ring': "ring_ok l'" using step by (simp add: ring_inv_def)
  show ?thesis
  proof (cases rule: enqueue_call_cases [of l call now, unfolded fields count])
    case 5
    then have "status = MP_LOG_STATUS_OK" "length (queue_view l) \<noteq> unat (buffer_capacity (logger_config l))"
      using e count by (auto simp: not_le [symmetric])
    then show ?thesis
      using 5(1-3) step ring' r [unfolded Some] unfolding Some option.case
      by (intro exI [of _ status] exI [of _ l']) (simp add: call_view_def call_def)
  qed (use e ring' r [unfolded Some] in \<open>simp_all add: Some\<close>)
qed

text \<open>
  C2: the ring is a bounded FIFO queue. Whatever the order in which log calls and the worker get
  hold of the queue, the records that the worker has taken, followed by those still waiting, are
  the records that were waiting at first followed by those of the calls that returned
  \<open>OK\<close>, in the order of the calls: none is lost, repeated, reordered or changed, and they are
  numbered one after the other. Never more than \<open>buffer_capacity\<close> records wait.
\<close>

theorem ring_run_history:
  assumes "ring_ok l" and "wf_scratch (logger_config l) sc" and "list_all event_readable evs"
    and "ring_run evs (l, sc) = (outs, l', sc')"
  shows "ring_ok l' \<and> length (queue_view l') \<le> unat (buffer_capacity (logger_config l')) \<and>
    (let accepted = accepted_views (logger_config l) (queued_records_total l) evs outs in
       taken_views outs @ queue_view l' = queue_view l @ accepted \<and>
       map view_sequence_id accepted = map (\<lambda>i. queued_records_total l + of_nat (i + 1)) [0..<length accepted])"
proof -
  have "ring_inv (l, sc)" using assms(1,2) by (simp add: ring_inv_def)
  from ring_run_fifo [OF this assms(3,4)] show ?thesis
    using ring.within [of "(l', sc')"] accepted_sequence
    by (auto simp: ring_inv_def ring_contents_def ring_capacity_def Let_def)
qed

text \<open>A logger with the storage that \<open>mp_logger_allocate_buffers\<close> gives it.\<close>

definition ready_logger :: "mp_logger_config \<Rightarrow> 'a mp_logger" where
  "ready_logger c = (configured_logger c)\<lparr>slots := replicate (unat (buffer_capacity c)) (fresh_slot c)\<rparr>"

lemma ready_logger_simps [simp]:
  "logger_config (ready_logger c) = normalize_config c" "queue_count (ready_logger c) = 0"
  "shutdown_requested (ready_logger c) = False" "queue_mutex (ready_logger c) = False"
  "queued_records_total (ready_logger c) = 0" "streams (ready_logger c) = []"
  by (simp_all add: ready_logger_def configured_logger_def zeroed_logger_def)

lemma normalize_capacities [simp]:
  "buffer_capacity (normalize_config c) = buffer_capacity c" "message_capacity (normalize_config c) = message_capacity c"
  "context_capacity (normalize_config c) = context_capacity c" "field_capacity (normalize_config c) = field_capacity c"
  "field_key_capacity (normalize_config c) = field_key_capacity c"
  "field_value_capacity (normalize_config c) = field_value_capacity c"
  by (simp_all add: normalize_config_def)

lemma fresh_normalize [simp]: "fresh_slot (normalize_config c) = fresh_slot c"
  by (simp add: fresh_slot_def)

lemma ring_ok_ready: "capacities_ok c \<Longrightarrow> ring_ok (ready_logger c)"
proof -
  assume caps: "capacities_ok c"
  then have "0 < unat (buffer_capacity c)" using capacities_pos(1) by (simp add: word_pos_unat)
  moreover have "wf_slot (normalize_config c) (fresh_slot c)" using wf_fresh(1) [of "normalize_config c"] by simp
  ultimately show ?thesis
    using caps by (simp add: ring_ok_def Let_def ring_index_def capacities_ok_def list_all_iff)
      (simp add: ready_logger_def configured_logger_def zeroed_logger_def)
qed

lemma defaults_capacities: "capacities_ok mp_logger_config_init_defaults"
  by (simp add: capacities_ok_def mp_logger_config_init_defaults_def)

theorem enqueue_record_contract_witness:
  "fst (mp_logger_enqueue_record None (Some (ready_logger mp_logger_config_init_defaults :: unit mp_logger))
     MP_LOG_LEVEL_INFO (Some ''hi'') None None 0) = MP_LOG_STATUS_OK"
proof -
  have "buffer_capacity mp_logger_config_init_defaults = 1024" by (simp add: mp_logger_config_init_defaults_def)
  moreover have "ring_ok (ready_logger mp_logger_config_init_defaults :: unit mp_logger)"
    by (rule ring_ok_ready [OF defaults_capacities])
  ultimately show ?thesis
    using enqueue_record_contract [where l = "ready_logger mp_logger_config_init_defaults :: unit mp_logger" and
        fields_ptr = None and count = 0 and now = None and lvl = MP_LOG_LEVEL_INFO and msg = "Some ''hi''" and ctx = None]
    by (auto simp: fields_readable_def mp_logger_validate_fields_def)
qed

theorem ring_run_history_witness:
  "taken_views (fst (ring_run [Log_Event None \<lparr>call_level = MP_LOG_LEVEL_INFO, call_message = ''hi'',
       call_context = None, call_fields_ptr = None, call_field_count = 0\<rparr>, Take_Event]
     (ready_logger mp_logger_config_init_defaults :: unit mp_logger, fresh_scratch (normalize_config mp_logger_config_init_defaults)))) =
   [\<lparr>view_sequence_id = 1, view_millis = 0, view_level = MP_LOG_LEVEL_INFO, view_message = ''hi'', view_context = '''',
     view_fields = []\<rparr>]"
proof -
  let ?d = mp_logger_config_init_defaults
  let ?call = "\<lparr>call_level = MP_LOG_LEVEL_INFO, call_message = ''hi'', call_context = None, call_fields_ptr = None,
    call_field_count = 0\<rparr>"
  let ?l = "ready_logger ?d :: unit mp_logger" and ?sc = "fresh_scratch (normalize_config ?d)"
  have cap: "buffer_capacity ?d = 1024" "message_capacity ?d = 512"
    by (simp_all add: mp_logger_config_init_defaults_def)
  have e: "enqueue_call None ?call ?l = (MP_LOG_STATUS_OK, admit_record None ?call ?l)"
    by (simp add: enqueue_call_def mp_logger_validate_fields_def cap)
  obtain r l' sc' where take: "take_record (admit_record None ?call ?l, ?sc) = (r, l', sc')" by (metis prod_cases3)
  then have run: "ring_run [Log_Event None ?call, Take_Event] (?l, ?sc) =
      ([Logged MP_LOG_STATUS_OK, Took r], l', sc')" and zero: "queue_count l' = 0"
    by (auto simp: e take_record_def split: prod.splits)
  then have "queue_view l' = []" "queue_view ?l = []" using queue_view_nonempty by fastforce+
  then show ?thesis
    using ring_run_history [OF ring_ok_ready [OF defaults_capacities] _ _ run] unfolding run fst_conv
    by (simp add: fields_readable_def Let_def call_view_def cap cstr_Cons ostr_def call_fields_def mp_logger_now_millis_def)
qed

end
