(* ===== verification/Logger_Sinks.thy ===== *)
theory Logger_Sinks
  imports Logger_State "HOL-Library.Sublist"
begin

text \<open>
  The sinks of \<open>src/mp_logger_streams.c\<close>: the paths of the log files, the backup log, the
  file and UDP streams with their callbacks, and the construction and destruction of the
  built-in streams. The contract of a write callback is the locale \<open>log_sink\<close>; what a stream
  owns is followed through creation and destruction by \<open>owns\<close> and \<open>acquired\<close>.
\<close>

section \<open>Paths\<close>

abbreviation (input) MP_LOGGER_UDP_PORT_TEXT_CAPACITY :: nat where "MP_LOGGER_UDP_PORT_TEXT_CAPACITY \<equiv> 16"
abbreviation (input) MP_LOGGER_UDP_ENDPOINT_EXTRA_CAPACITY :: nat where
  "MP_LOGGER_UDP_ENDPOINT_EXTRA_CAPACITY \<equiv> 16"

text \<open>The buffer and the offset behind the component; the pointers are those of the caller's arrays.\<close>

definition mp_logger_copy_component :: "nat \<Rightarrow> cbuf \<Rightarrow> cbuf \<times> nat \<Rightarrow> bool \<times> cbuf \<times> nat" where
  "mp_logger_copy_component capacity v st =
     (case st of (buffer, offset) \<Rightarrow>
        if offset + strlen v \<ge> capacity then (False, buffer, offset)
        else (True, overwrite buffer offset (cstr v), offset + strlen v))"

text \<open>A chain of components joined by \<open>&&\<close>.\<close>

fun copy_components :: "nat \<Rightarrow> cbuf list \<Rightarrow> cbuf \<times> nat \<Rightarrow> bool \<times> cbuf \<times> nat" where
  "copy_components capacity [] st = (True, st)"
| "copy_components capacity (v # vs) st =
     (case mp_logger_copy_component capacity v st of
        (ok, st') \<Rightarrow> if ok then copy_components capacity vs st' else (False, st'))"

definition mp_logger_make_stream_path :: "cbuf \<Rightarrow> nat \<Rightarrow> cbuf \<Rightarrow> cbuf \<Rightarrow> cbuf \<Rightarrow> bool \<times> cbuf" where
  "mp_logger_make_stream_path buffer capacity directory name_prefix run_text =
     (if strcmp_eq directory ''.'' then
        if strlen name_prefix + 1 + strlen run_text + strlen ''.log'' \<ge> capacity then (False, buffer[0 := NUL])
        else (case copy_components capacity [name_prefix, ''.'', run_text, ''.log''] (buffer, 0) of
                (ok, b, offset) \<Rightarrow> if ok then (True, b[offset := NUL]) else (False, b[0 := NUL]))
      else
        if strlen directory + 1 + strlen name_prefix + 1 + strlen run_text + strlen ''.log'' \<ge> capacity
        then (False, buffer[0 := NUL])
        else (case copy_components capacity [directory, ''/'', name_prefix, ''.'', run_text, ''.log''] (buffer, 0) of
                (ok, b, offset) \<Rightarrow> if ok then (True, b[offset := NUL]) else (False, b[0 := NUL])))"

definition mp_logger_ensure_directory :: "cbuf option \<Rightarrow> 'a os \<Rightarrow> bool \<times> 'a os" where
  "mp_logger_ensure_directory path os =
     (case path of
        None \<Rightarrow> (True, os)
      | Some p \<Rightarrow>
          if cstr p = [] \<or> strcmp_eq p ''.'' then (True, os)
          else (case os_stat p os of
             (Some kind, os) \<Rightarrow> (kind = Directory, os)
           | (None, os) \<Rightarrow>
               (case os_mkdir p os of
                  (Mkdir_Ok, os) \<Rightarrow> (True, os)
                | (Mkdir_Exists, os) \<Rightarrow>
                    (case os_stat p os of
                       (Some kind, os) \<Rightarrow> (kind = Directory, os)
                     | (None, os) \<Rightarrow> (False, os))
                | (Mkdir_Error, os) \<Rightarrow> (False, os))))"

section \<open>The backup log\<close>

text \<open>\<open>sizeof(name_prefix)\<close> bytes on the stack, trimmed and sanitized.\<close>

definition clean_prefix :: "cbuf \<Rightarrow> cbuf" where
  "clean_prefix p =
     mp_logger_sanitize_file_component
       (mp_logger_copy_trimmed (zeros MP_LOGGER_NAME_CAPACITY) MP_LOGGER_NAME_CAPACITY (Some p))"

definition mp_logger_backup_open :: "'a mp_logger \<Rightarrow> 'a os \<Rightarrow> mp_log_status_t \<times> 'a mp_logger \<times> 'a os" where
  "mp_logger_backup_open logger os =
     (case mp_logger_ensure_directory (Some (log_directory (logger_config logger))) os of (ok, os) \<Rightarrow>
        if \<not> ok then (MP_LOG_STATUS_IO_ERROR, logger, os)
        else case mp_logger_make_stream_path (backup_path logger) MP_LOGGER_PATH_CAPACITY
                (log_directory (logger_config logger)) (clean_prefix (backup_file_name_prefix (logger_config logger)))
                (run_suffix logger) of (made, path) \<Rightarrow>
          let logger = logger\<lparr>backup_path := path\<rparr> in
          if \<not> made then (MP_LOG_STATUS_IO_ERROR, logger, os)
          else case os_open_append path os of (fd, os) \<Rightarrow>
            (if fd = None then MP_LOG_STATUS_IO_ERROR else MP_LOG_STATUS_OK, logger\<lparr>backup_fd := fd\<rparr>, os))"

definition mp_logger_backup_close :: "'a mp_logger \<Rightarrow> 'a os \<Rightarrow> 'a mp_logger \<times> 'a os" where
  "mp_logger_backup_close logger os =
     (case backup_fd logger of
        None \<Rightarrow> (logger, os)
      | Some fd \<Rightarrow> (logger\<lparr>backup_fd := None\<rparr>, os_close fd os))"

definition backup_line :: "string \<Rightarrow> cbuf \<Rightarrow> cbuf \<Rightarrow> string" where
  "backup_line timestamp severity msg =
     timestamp @ '' level='' @ cstr severity @ '' subsystem=mp_logger message='' @ [CHR 0x22] @ cstr msg @
     [CHR 0x22, CHR 0x0A]"

definition mp_logger_backup_write :: "'a mp_logger \<Rightarrow> cbuf \<Rightarrow> cbuf \<Rightarrow> 'a os \<Rightarrow> 'a os" where
  "mp_logger_backup_write logger severity msg os =
     (case backup_fd logger of
        None \<Rightarrow> os
      | Some fd \<Rightarrow>
          (case clock_realtime os of (now, os) \<Rightarrow>
             let timestamp = mp_logger_format_timestamp (mp_logger_now_millis now)
                   (zeros MP_LOGGER_TIMESTAMP_CAPACITY) MP_LOGGER_TIMESTAMP_CAPACITY;
                 line = snprintf (zeros MP_LOGGER_BACKUP_LINE_CAPACITY) MP_LOGGER_BACKUP_LINE_CAPACITY
                   (backup_line (cstr timestamp) severity msg)
             in snd (os_write fd (cstr line) os)))"

section \<open>File and UDP streams\<close>

text \<open>The states that a \<open>stream_context\<close> points at, with the heap block they occupy.\<close>

record mp_file_stream_state =
  file_handle :: "file_handle option"
  file_path :: cbuf
  close_on_destroy :: bool
  file_block :: nat

record mp_udp_stream_state =
  socket_fd :: nat
  socket_address :: string
  endpoint :: cbuf
  udp_block :: nat

definition mp_logger_write_file_stream :: "mp_file_stream_state option \<Rightarrow> 'a stream_write_fn" where
  "mp_logger_write_file_stream state_ptr record formatted_entry formatted_entry_length os =
     (case state_ptr of
        None \<Rightarrow> (MP_LOG_STATUS_INVALID_ARGUMENT, os)
      | Some state \<Rightarrow>
          (case file_handle state of
             None \<Rightarrow> (MP_LOG_STATUS_INVALID_ARGUMENT, os)
           | Some f \<Rightarrow>
               (case os_fwrite f (cstr formatted_entry) os of (_, os) \<Rightarrow>
                case os_fwrite f [CHR 0x0A] os of (_, os) \<Rightarrow>
                case os_fflush f os of (ok, os) \<Rightarrow>
                  (if ok then MP_LOG_STATUS_OK else MP_LOG_STATUS_IO_ERROR, os))))"

definition mp_logger_destroy_file_stream :: "mp_file_stream_state option \<Rightarrow> 'a os \<Rightarrow> 'a os" where
  "mp_logger_destroy_file_stream state_ptr os =
     (case state_ptr of
        None \<Rightarrow> os
      | Some state \<Rightarrow>
          os_free (Some (file_block state))
            (case file_handle state of
               Some f \<Rightarrow> if close_on_destroy state then os_fclose f os else os
             | None \<Rightarrow> os))"

definition mp_logger_write_udp_stream :: "mp_udp_stream_state option \<Rightarrow> 'a stream_write_fn" where
  "mp_logger_write_udp_stream state_ptr record formatted_entry formatted_entry_length os =
     (case state_ptr of
        None \<Rightarrow> (MP_LOG_STATUS_INVALID_ARGUMENT, os)
      | Some state \<Rightarrow>
          (case os_sendto (socket_fd state) (take formatted_entry_length formatted_entry) (socket_address state) os of
             (sent, os) \<Rightarrow>
               (case sent of
                  None \<Rightarrow> (MP_LOG_STATUS_IO_ERROR, os)
                | Some n \<Rightarrow> (if n \<noteq> formatted_entry_length then MP_LOG_STATUS_IO_ERROR else MP_LOG_STATUS_OK, os))))"

definition mp_logger_destroy_udp_stream :: "mp_udp_stream_state option \<Rightarrow> 'a os \<Rightarrow> 'a os" where
  "mp_logger_destroy_udp_stream state_ptr os =
     (case state_ptr of
        None \<Rightarrow> os
      | Some state \<Rightarrow> os_free (Some (udp_block state)) (os_close (socket_fd state) os))"

text \<open>The stream that a successful constructor fills in.\<close>

definition make_stream ::
    "string \<Rightarrow> mp_log_level_t \<Rightarrow> mp_log_level_t \<Rightarrow> 'a stream_write_fn \<Rightarrow> 'a stream_destroy_fn \<Rightarrow> 'a mp_logger_stream" where
  "make_stream n lo hi w d =
     \<lparr>stream_name = mp_logger_copy_trimmed (zeros MP_LOGGER_NAME_CAPACITY) MP_LOGGER_NAME_CAPACITY (Some n),
      minimum_level = lo, maximum_level = hi, stream_write = Some w, stream_destroy = Some d\<rparr>"

definition mp_logger_make_stdio_stream ::
    "string \<Rightarrow> file_handle \<Rightarrow> mp_log_level_t \<Rightarrow> mp_log_level_t \<Rightarrow> 'a os \<Rightarrow>
     mp_log_status_t \<times> 'a mp_logger_stream option \<times> 'a os" where
  "mp_logger_make_stdio_stream n f lo hi os =
     (case os_calloc 1 272 os of
        (None, os) \<Rightarrow> (MP_LOG_STATUS_IO_ERROR, None, os)
      | (Some block, os) \<Rightarrow>
          let state = \<lparr>file_handle = Some f,
                file_path = mp_logger_copy_trimmed (zeros MP_LOGGER_PATH_CAPACITY) MP_LOGGER_PATH_CAPACITY (Some n),
                close_on_destroy = False, file_block = block\<rparr>
          in (MP_LOG_STATUS_OK,
              Some (make_stream n lo hi (mp_logger_write_file_stream (Some state))
                (mp_logger_destroy_file_stream (Some state))), os))"

definition mp_logger_make_file_stream ::
    "'a mp_logger \<Rightarrow> 'a os \<Rightarrow> mp_log_status_t \<times> 'a mp_logger_stream option \<times> 'a os" where
  "mp_logger_make_file_stream logger os =
     (let c = logger_config logger in
      case mp_logger_ensure_directory (Some (log_directory c)) os of (ok, os) \<Rightarrow>
        if \<not> ok then (MP_LOG_STATUS_IO_ERROR, None, os)
        else case os_calloc 1 272 os of
          (None, os) \<Rightarrow> (MP_LOG_STATUS_IO_ERROR, None, os)
        | (Some block, os) \<Rightarrow>
            (case mp_logger_make_stream_path (zeros MP_LOGGER_PATH_CAPACITY) MP_LOGGER_PATH_CAPACITY
                (log_directory c) (clean_prefix (file_name_prefix c)) (run_suffix logger) of (made, path) \<Rightarrow>
               if \<not> made then (MP_LOG_STATUS_IO_ERROR, None, os_free (Some block) os)
               else case os_open_append path os of
                 (None, os) \<Rightarrow> (MP_LOG_STATUS_IO_ERROR, None, os_free (Some block) os)
               | (Some i, os) \<Rightarrow>
                   let state = \<lparr>file_handle = Some (Opened i), file_path = path, close_on_destroy = True,
                         file_block = block\<rparr>
                   in (MP_LOG_STATUS_OK,
                       Some (make_stream ''file'' (file_min_level c) (file_max_level c)
                         (mp_logger_write_file_stream (Some state)) (mp_logger_destroy_file_stream (Some state))), os)))"

definition mp_logger_make_udp_stream ::
    "'a mp_logger \<Rightarrow> 'a os \<Rightarrow> mp_log_status_t \<times> 'a mp_logger_stream option \<times> 'a os" where
  "mp_logger_make_udp_stream logger os =
     (let c = logger_config logger;
          port_text = snprintf (zeros MP_LOGGER_UDP_PORT_TEXT_CAPACITY) MP_LOGGER_UDP_PORT_TEXT_CAPACITY
            (show_nat (unat (udp_port c)))
      in case os_getaddrinfo (udp_host c) port_text os of
           (None, os) \<Rightarrow> (MP_LOG_STATUS_IO_ERROR, None, os)
         | (Some (addresses, address), os) \<Rightarrow>
             (case os_socket os of
                (None, os) \<Rightarrow> (MP_LOG_STATUS_IO_ERROR, None, os_free (Some addresses) os)
              | (Some fd, os) \<Rightarrow>
                  (case os_calloc 1 288 os of
                     (None, os) \<Rightarrow> (MP_LOG_STATUS_IO_ERROR, None, os_free (Some addresses) (os_close fd os))
                   | (Some block, os) \<Rightarrow>
                       let ep_capacity = MP_LOGGER_HOST_CAPACITY + MP_LOGGER_UDP_ENDPOINT_EXTRA_CAPACITY;
                           state = \<lparr>socket_fd = fd, socket_address = address,
                             endpoint = snprintf (zeros ep_capacity) ep_capacity
                               (cstr (udp_host c) @ '':'' @ show_nat (unat (udp_port c))),
                             udp_block = block\<rparr>
                       in (MP_LOG_STATUS_OK,
                           Some (make_stream ''udp'' (udp_min_level c) (udp_max_level c)
                             (mp_logger_write_udp_stream (Some state)) (mp_logger_destroy_udp_stream (Some state))),
                           os_free (Some addresses) os))))"

section \<open>The built-in streams\<close>

definition make_builtin_stream ::
    "cbuf \<Rightarrow> 'a mp_logger \<Rightarrow> 'a os \<Rightarrow> (mp_log_status_t \<times> 'a mp_logger_stream option \<times> 'a os) option" where
  "make_builtin_stream n logger os =
     (let c = logger_config logger in
      if strcmp_eq n ''stdout''
      then Some (mp_logger_make_stdio_stream ''stdout'' Stdout (stdout_min_level c) (stdout_max_level c) os)
      else if strcmp_eq n ''stderr''
      then Some (mp_logger_make_stdio_stream ''stderr'' Stderr (stderr_min_level c) (stderr_max_level c) os)
      else if strcmp_eq n ''file'' then Some (mp_logger_make_file_stream logger os)
      else if strcmp_eq n ''udp'' then Some (mp_logger_make_udp_stream logger os)
      else None)"

definition destroy_stream :: "'a mp_logger_stream \<Rightarrow> 'a os \<Rightarrow> 'a os" where
  "destroy_stream s os = (case stream_destroy s of None \<Rightarrow> os | Some d \<Rightarrow> d os)"

fun build_streams_loop :: "cbuf list \<Rightarrow> 'a mp_logger \<Rightarrow> 'a os \<Rightarrow> mp_log_status_t \<times> 'a mp_logger \<times> 'a os" where
  "build_streams_loop [] logger os = (MP_LOG_STATUS_OK, logger, os)"
| "build_streams_loop (n # names) logger os =
     (case make_builtin_stream n logger os of
        None \<Rightarrow> (MP_LOG_STATUS_CONFIG_ERROR, logger, os)
      | Some (status, None, os) \<Rightarrow>
          build_streams_loop names logger
            (mp_logger_backup_write logger ''WARNING'' ''builtin stream initialization failed'' os)
      | Some (status, Some stream, os) \<Rightarrow>
          (case mp_logger_add_owned_stream (Some logger) (Some stream) of
             (MP_LOG_STATUS_OK, Some logger) \<Rightarrow> build_streams_loop names logger os
           | (status, _) \<Rightarrow> (status, logger, destroy_stream stream os)))"

definition mp_logger_build_builtin_streams :: "'a mp_logger \<Rightarrow> 'a os \<Rightarrow> mp_log_status_t \<times> 'a mp_logger \<times> 'a os" where
  "mp_logger_build_builtin_streams logger os =
     (case mp_logger_split_stream_list (Some (active_streams (logger_config logger)))
         (replicate MP_LOGGER_MAX_STREAMS (zeros MP_LOGGER_STREAM_NAME_CAPACITY)) MP_LOGGER_MAX_STREAMS of
        (ok, names, name_count) \<Rightarrow>
          if \<not> ok then (MP_LOG_STATUS_CONFIG_ERROR, logger, os)
          else build_streams_loop (take name_count names) logger os)"

fun destroy_streams_loop :: "'a mp_logger_stream list \<Rightarrow> 'a os \<Rightarrow> 'a os" where
  "destroy_streams_loop [] os = os"
| "destroy_streams_loop (s # ss) os = destroy_streams_loop ss (destroy_stream s os)"

definition mp_logger_destroy_streams :: "'a mp_logger \<Rightarrow> 'a os \<Rightarrow> 'a mp_logger \<times> 'a os" where
  "mp_logger_destroy_streams logger os =
     (logger\<lparr>streams := [], enabled_level_mask := 0\<rparr>, destroy_streams_loop (streams logger) os)"

section \<open>Paths and lines\<close>

definition stream_path :: "string \<Rightarrow> string \<Rightarrow> string \<Rightarrow> string" where
  "stream_path directory name_prefix run_text =
     (if directory = ''.'' then [] else directory @ ''/'') @ name_prefix @ ''.'' @ run_text @ ''.log''"

lemma overwrite_append:
  assumes "pos + length a + length b \<le> length dest"
  shows "overwrite (overwrite dest pos a) (pos + length a) b = overwrite dest pos (a @ b)"
  using assms by (simp add: overwrite_def add.assoc add.commute [of "length b"])

lemma copy_components_spec:
  assumes "offset + length (concat (map cstr vs)) < capacity" and "length buffer = capacity"
  shows "copy_components capacity vs (buffer, offset) =
    (True, overwrite buffer offset (concat (map cstr vs)), offset + length (concat (map cstr vs)))"
  using assms
proof (induction vs arbitrary: buffer offset)
  case Nil
  then show ?case by simp
next
  case (Cons v vs)
  have step: "mp_logger_copy_component capacity v (buffer, offset) =
      (True, overwrite buffer offset (cstr v), offset + strlen v)"
    using Cons.prems by (simp add: mp_logger_copy_component_def strlen_def)
  have "offset + length (cstr v) + length (concat (map cstr vs)) < capacity"
    using Cons.prems by simp
  moreover have "length (overwrite buffer offset (cstr v)) = capacity"
    using Cons.prems by simp
  ultimately show ?case
    using Cons.IH [of "offset + length (cstr v)" "overwrite buffer offset (cstr v)"] Cons.prems
    by (simp add: step strlen_def overwrite_append add.assoc)
qed

lemma make_stream_path_spec:
  assumes "length buffer = capacity" and "0 < capacity"
    and "mp_logger_make_stream_path buffer capacity directory name_prefix run_text = (ok, path)"
  shows "ok \<longleftrightarrow> length (stream_path (cstr directory) (cstr name_prefix) (cstr run_text)) < capacity"
    and "length path = capacity"
    and "cstr path = (if ok then stream_path (cstr directory) (cstr name_prefix) (cstr run_text) else [])"
proof -
  have chain: "(case copy_components capacity vs (buffer, 0) of
      (ok, b, offset) \<Rightarrow> if ok then (True, b[offset := NUL]) else (False, b[0 := NUL])) =
      (True, overwrite buffer 0 (concat (map cstr vs) @ [NUL]))"
    if "length (concat (map cstr vs)) < capacity" for vs
    using that copy_components_spec [of 0 vs capacity buffer] assms(1) by (simp add: overwrite_terminate)
  let ?p = "stream_path (cstr directory) (cstr name_prefix) (cstr run_text)"
  have lit: "cstr ''.'' = ''.''" "cstr ''/'' = ''/''" "cstr ''.log'' = ''.log''" by (simp_all add: cstr_Cons)
  have r: "(ok, path) = (if length ?p < capacity then (True, overwrite buffer 0 (?p @ [NUL])) else (False, buffer[0 := NUL]))"
  proof (cases "strcmp_eq directory ''.''")
    case True
    then show ?thesis
      using assms(3) chain [of "[name_prefix, ''.'', run_text, ''.log'']"]
      by (auto simp: mp_logger_make_stream_path_def stream_path_def strlen_def strcmp_eq_def lit)
  next
    case False
    then show ?thesis
      using assms(3) chain [of "[directory, ''/'', name_prefix, ''.'', run_text, ''.log'']"]
      by (auto simp: mp_logger_make_stream_path_def stream_path_def strlen_def strcmp_eq_def lit)
  qed
  have "NUL \<notin> set ?p" by (auto simp: stream_path_def)
  with r assms(1,2) show "ok \<longleftrightarrow> length ?p < capacity" "length path = capacity" "cstr path = (if ok then ?p else [])"
    by (cases buffer; auto simp: cstr_overwrite_0 cstr_Cons split: if_split_asm)+
qed

lemma clean_prefix_safe: "list_all file_safe (cstr (clean_prefix p))"
  by (auto simp: clean_prefix_def list_all_iff dest: sanitize_safe)

lemma clean_prefix_length: "length (cstr (clean_prefix p)) \<le> 63"
  by (simp add: clean_prefix_def cstr_sanitize cstr_copy_trimmed)




section \<open>Write callbacks\<close>

text \<open>
  The contract of a write callback: as long as what it writes to is live it keeps being live,
  nothing is acquired or released, and the status is \<open>OK\<close> or \<open>IO_ERROR\<close>.
\<close>

locale log_sink =
  fixes emit :: "'a stream_write_fn" and ready :: "'a os \<Rightarrow> bool"
  assumes emit_keeps: "ready os \<Longrightarrow> keeps_resources os (snd (emit r b n os))"
    and ready_keeps: "ready os \<Longrightarrow> os_resources os' = os_resources os \<Longrightarrow> ready os'"
    and emit_status: "ready os \<Longrightarrow> fst (emit r b n os) \<in> {MP_LOG_STATUS_OK, MP_LOG_STATUS_IO_ERROR}"
begin

lemma ready_after: "ready os \<Longrightarrow> ready (snd (emit r b n os))"
  using emit_keeps ready_keeps by (fastforce simp: keeps_resources_def)

text \<open>Any number of records one after the other.\<close>

lemma emit_all_keeps:
  "ready os \<Longrightarrow> keeps_resources os (fold (\<lambda>(r, b, n) os. snd (emit r b n os)) entries os)"
proof (induction entries arbitrary: os)
  case Nil
  then show ?case by simp
next
  case (Cons e es)
  obtain r b n where e: "e = (r, b, n)" by (metis prod_cases3)
  show ?case
    using Cons.IH [OF ready_after [OF Cons.prems]] keeps_trans emit_keeps [OF Cons.prems]
    by (fastforce simp: e)
qed

end

definition file_ready :: "mp_file_stream_state \<Rightarrow> 'a os \<Rightarrow> bool" where
  "file_ready state os \<longleftrightarrow>
     (case file_handle state of
        None \<Rightarrow> False
      | Some f \<Rightarrow> (\<forall>i. f = Opened i \<longrightarrow> (\<exists>path. os_resources os i = Some (Open_File path))))"

definition udp_ready :: "mp_udp_stream_state \<Rightarrow> 'a os \<Rightarrow> bool" where
  "udp_ready state os \<longleftrightarrow> os_resources os (socket_fd state) = Some Udp_Socket"

lemma keeps_fwriteI:
  assumes "\<forall>i. f = Opened i \<longrightarrow> (\<exists>path. os_resources os i = Some (Open_File path))" and "os_fwrite f bytes os = (n, os')"
  shows "keeps_resources os os'" and "\<forall>i. f = Opened i \<longrightarrow> (\<exists>path. os_resources os' i = Some (Open_File path))"
  using keeps_fwrite [OF assms(1), of bytes] assms by (auto simp: keeps_resources_def)

lemma write_file_stream_keeps:
  assumes "file_ready state os"
  shows "keeps_resources os (snd (mp_logger_write_file_stream (Some state) r b n os))"
    and "fst (mp_logger_write_file_stream (Some state) r b n os) \<in> {MP_LOG_STATUS_OK, MP_LOG_STATUS_IO_ERROR}"
proof -
  obtain f where f: "file_handle state = Some f" "\<forall>i. f = Opened i \<longrightarrow> (\<exists>path. os_resources os i = Some (Open_File path))"
    using assms by (auto simp: file_ready_def split: option.splits)
  obtain n1 os1 where w1: "os_fwrite f (cstr b) os = (n1, os1)" by (metis surj_pair)
  note k1 = keeps_fwriteI [OF f(2) w1]
  obtain n2 os2 where w2: "os_fwrite f [CHR 0x0A] os1 = (n2, os2)" by (metis surj_pair)
  note k2 = keeps_fwriteI [OF k1(2) w2]
  obtain ok os3 where w3: "os_fflush f os2 = (ok, os3)" by (metis surj_pair)
  have "handle_live f os2" using k2(2) by (auto simp: handle_live_def split: file_handle.split)
  then have "keeps_resources os2 os3" using keeps_fflush [of f os2] w3 by simp
  then have "keeps_resources os os3" using k1(1) k2(1) keeps_trans by blast
  then show "keeps_resources os (snd (mp_logger_write_file_stream (Some state) r b n os))"
    "fst (mp_logger_write_file_stream (Some state) r b n os) \<in> {MP_LOG_STATUS_OK, MP_LOG_STATUS_IO_ERROR}"
    by (simp_all add: mp_logger_write_file_stream_def f(1) w1 w2 w3)
qed

lemma write_udp_stream_keeps:
  assumes "udp_ready state os"
  shows "keeps_resources os (snd (mp_logger_write_udp_stream (Some state) r b n os))"
    and "fst (mp_logger_write_udp_stream (Some state) r b n os) \<in> {MP_LOG_STATUS_OK, MP_LOG_STATUS_IO_ERROR}"
  using keeps_sendto [of os "socket_fd state" "take n b" "socket_address state"] assms
  by (auto simp: mp_logger_write_udp_stream_def udp_ready_def split: prod.split option.split)

interpretation file_sink: log_sink "mp_logger_write_file_stream (Some state)" "file_ready state" for state
  by (rule log_sink.intro)
    (simp_all add: write_file_stream_keeps(1) write_file_stream_keeps(2) [simplified], simp add: file_ready_def split: option.splits)

interpretation udp_sink: log_sink "mp_logger_write_udp_stream (Some state)" "udp_ready state" for state
  by (rule log_sink.intro)
    (simp_all add: write_udp_stream_keeps(1) write_udp_stream_keeps(2) [simplified], simp add: udp_ready_def)

text \<open>The callbacks of streams keep the resources as long as those of \<open>os\<close> are live.\<close>

definition streams_keep :: "'a os \<Rightarrow> 'a mp_logger_stream list \<Rightarrow> bool" where
  "streams_keep os ss \<longleftrightarrow>
     (\<forall>s \<in> set ss. \<forall>w os' r b n. stream_write s = Some w \<longrightarrow> extends_os os os' \<longrightarrow>
        keeps_resources os' (snd (w r b n os')))"

lemma streams_keep_simps [simp]:
  "streams_keep os []" "streams_keep os (ss @ ss') \<longleftrightarrow> streams_keep os ss \<and> streams_keep os ss'"
  by (simp_all add: streams_keep_def ball_Un)

lemma streams_keep_extends: "streams_keep os ss \<Longrightarrow> extends_os os os' \<Longrightarrow> streams_keep os' ss"
  using extends_trans unfolding streams_keep_def by blast

section \<open>What the constructors acquire\<close>

lemma keeps_ensure_directory:
  assumes "mp_logger_ensure_directory path os = (ok, os')"
  shows "keeps_resources os os'"
proof (cases path)
  case None
  then show ?thesis using assms by (simp add: mp_logger_ensure_directory_def)
next
  case (Some p)
  obtain k os1 where s1: "os_stat p os = (k, os1)" by (metis surj_pair)
  obtain m os2 where s2: "os_mkdir p os1 = (m, os2)" by (metis surj_pair)
  obtain k3 os3 where s3: "os_stat p os2 = (k3, os3)" by (metis surj_pair)
  have "keeps_resources os os1" "keeps_resources os os2" "keeps_resources os os3"
    using keeps_stat [OF s1] keeps_mkdir [OF s2] keeps_stat [OF s3] keeps_trans by blast+
  then show ?thesis
    using assms by (auto simp: mp_logger_ensure_directory_def Some s1 s2 s3 split: if_splits option.splits mkdir_result.splits)
qed

text \<open>The outcome of a constructor of a stream.\<close>

definition built :: "'a os \<Rightarrow> mp_log_status_t \<times> 'a mp_logger_stream option \<times> 'a os \<Rightarrow> bool" where
  "built os r \<longleftrightarrow>
     (case r of
        (status, None, os') \<Rightarrow> status \<noteq> MP_LOG_STATUS_OK \<and> acquired {} os os'
      | (status, Some s, os') \<Rightarrow>
          status = MP_LOG_STATUS_OK \<and> stream_write s \<noteq> None \<and> streams_keep os' [s] \<and>
          (\<exists>R. acquired R os os' \<and> owns R (destroy_stream s)))"

lemma make_stream_simps [simp]:
  "stream_write (make_stream n lo hi w d) = Some w" "destroy_stream (make_stream n lo hi w d) = d"
  "minimum_level (make_stream n lo hi w d) = lo" "maximum_level (make_stream n lo hi w d) = hi"
  by (simp_all add: make_stream_def destroy_stream_def fun_eq_iff)

lemma keep_file_stream:
  assumes "file_ready state os"
  shows "streams_keep os [make_stream n lo hi (mp_logger_write_file_stream (Some state)) d]"
proof -
  have "file_ready state os'" if "extends_os os os'" for os'
    using assms extendsD [OF that] by (fastforce simp: file_ready_def split: option.splits)
  then show ?thesis by (auto simp: streams_keep_def intro: write_file_stream_keeps)
qed

lemma keep_udp_stream:
  assumes "udp_ready state os"
  shows "streams_keep os [make_stream n lo hi (mp_logger_write_udp_stream (Some state)) d]"
  using assms extendsD by (fastforce simp: streams_keep_def udp_ready_def intro: write_udp_stream_keeps)

lemma owns_stdio_stream:
  "close_on_destroy state = False \<Longrightarrow> owns {file_block state} (mp_logger_destroy_file_stream (Some state))"
proof -
  assume "close_on_destroy state = False"
  then have "mp_logger_destroy_file_stream (Some state) = (os_free (Some (file_block state)) :: 'a os \<Rightarrow> 'a os)"
    by (simp add: mp_logger_destroy_file_stream_def fun_eq_iff split: option.split)
  then show "owns {file_block state} (mp_logger_destroy_file_stream (Some state) :: 'a os \<Rightarrow> 'a os)"
    by (simp only: owns_free)
qed

lemma owns_file_stream:
  "close_on_destroy state \<Longrightarrow> file_handle state = Some (Opened i) \<Longrightarrow> i \<noteq> file_block state \<Longrightarrow>
   owns {i, file_block state} (mp_logger_destroy_file_stream (Some state))"
proof -
  assume st: "close_on_destroy state" "file_handle state = Some (Opened i)" and "i \<noteq> file_block state"
  then have "owns ({i} \<union> {file_block state}) (\<lambda>os :: 'a os. os_free (Some (file_block state)) (os_close i os))"
    by (intro owns_comp owns_close owns_free) simp
  moreover have "mp_logger_destroy_file_stream (Some state) = (\<lambda>os :: 'a os. os_free (Some (file_block state)) (os_close i os))"
    using st by (simp add: mp_logger_destroy_file_stream_def os_fclose_def fun_eq_iff)
  ultimately show "owns {i, file_block state} (mp_logger_destroy_file_stream (Some state) :: 'a os \<Rightarrow> 'a os)"
    by (simp add: insert_commute)
qed

lemma owns_udp_stream:
  "socket_fd state \<noteq> udp_block state \<Longrightarrow>
   owns {socket_fd state, udp_block state} (mp_logger_destroy_udp_stream (Some state))"
proof -
  assume "socket_fd state \<noteq> udp_block state"
  then have "owns ({socket_fd state} \<union> {udp_block state}) (\<lambda>os :: 'a os. os_free (Some (udp_block state)) (os_close (socket_fd state) os))"
    by (intro owns_comp owns_close owns_free) simp
  moreover have "mp_logger_destroy_udp_stream (Some state) = (\<lambda>os :: 'a os. os_free (Some (udp_block state)) (os_close (socket_fd state) os))"
    by (simp add: mp_logger_destroy_udp_stream_def fun_eq_iff)
  ultimately show "owns {socket_fd state, udp_block state} (mp_logger_destroy_udp_stream (Some state) :: 'a os \<Rightarrow> 'a os)"
    by (simp add: insert_commute)
qed

lemma built_stdio: "os_wf os \<Longrightarrow> f \<in> {Stdout, Stderr} \<Longrightarrow> built os (mp_logger_make_stdio_stream n f lo hi os)"
proof -
  assume wf: "os_wf os" and f: "f \<in> {Stdout, Stderr}"
  obtain p os1 where c: "os_calloc 1 272 os = (p, os1)" by (metis surj_pair)
  note a = calloc_acquired [OF wf c]
  show ?thesis
  proof (cases p)
    case None
    then show ?thesis
      using a wf acquired_keeps [OF acquired_refl [OF wf]] by (simp add: built_def mp_logger_make_stdio_stream_def c)
  next
    case (Some i)
    define state where "state = \<lparr>file_handle = Some f,
      file_path = mp_logger_copy_trimmed (zeros MP_LOGGER_PATH_CAPACITY) MP_LOGGER_PATH_CAPACITY (Some n),
      close_on_destroy = False, file_block = i\<rparr>"
    have "owns {i} (mp_logger_destroy_file_stream (Some state))"
      using owns_stdio_stream [of state] by (simp add: state_def)
    moreover have "acquired {i} os os1" using a Some by simp
    moreover have "file_ready state os1"
      using f by (auto simp: file_ready_def state_def)
    ultimately show ?thesis
      using keep_file_stream [of state os1]
      unfolding built_def mp_logger_make_stdio_stream_def c Some Let_def prod.case option.case state_def [symmetric]
      by auto
  qed
qed

lemma built_file: "os_wf os \<Longrightarrow> built os (mp_logger_make_file_stream l os)"
proof -
  assume wf: "os_wf os"
  let ?c = "logger_config l"
  obtain ok os1 where d: "mp_logger_ensure_directory (Some (log_directory ?c)) os = (ok, os1)" by (metis surj_pair)
  have a1: "acquired {} os os1" using acquired_keeps [OF acquired_refl [OF wf] keeps_ensure_directory [OF d]] .
  then have wf1: "os_wf os1" by (simp add: acquired_def)
  obtain p os2 where c: "os_calloc 1 272 os1 = (p, os2)" by (metis surj_pair)
  obtain made path where path: "mp_logger_make_stream_path (zeros MP_LOGGER_PATH_CAPACITY) MP_LOGGER_PATH_CAPACITY
      (log_directory ?c) (clean_prefix (file_name_prefix ?c)) (run_suffix l) = (made, path)" by (metis surj_pair)
  obtain q os3 where o: "os_open_append path os2 = (q, os3)" by (metis surj_pair)
  show ?thesis
  proof (cases p)
    case None
    then show ?thesis
      using a1 calloc_acquired [OF wf1 c] acquired_keeps [OF a1] d c
      by (auto simp: built_def mp_logger_make_file_stream_def Let_def)
  next
    case (Some block)
    then have "acquired {block} os1 os2" using calloc_acquired [OF wf1 c] by simp
    then have a2: "acquired {block} os os2" using acquired_trans [OF a1] by simp
    then have wf2: "os_wf os2" by (simp add: acquired_def)
    note open_q = open_acquired [OF wf2 o]
    have freed: "acquired {} os (os_free (Some block) os2)"
      using acquired_release [OF a2] by (simp add: os_free_def)
    show ?thesis
    proof (cases q)
      case None
      then have "acquired {block} os os3" using acquired_keeps [OF a2] open_q by simp
      then have "acquired {} os (os_free (Some block) os3)"
        using acquired_release [of block "{}"] by (simp add: os_free_def)
      then show ?thesis
        using a1 freed None \<open>p = Some block\<close> d c path o
        by (auto simp: built_def mp_logger_make_file_stream_def Let_def)
    next
      case (Some i)
      then have "acquired {i} os2 os3" using open_q by simp
      then have a3: "acquired {i, block} os os3" "i \<noteq> block"
        using acquired_trans [OF a2] by (auto simp: insert_commute)
      define state where "state = \<lparr>file_handle = Some (Opened i), file_path = path, close_on_destroy = True, file_block = block\<rparr>"
      have "owns {i, block} (mp_logger_destroy_file_stream (Some state))"
        using owns_file_stream [of state i] a3(2) by (simp add: state_def)
      moreover have "file_ready state os3" using open_q Some by (auto simp: file_ready_def state_def)
      ultimately show ?thesis
        using a1 a3(1) freed Some \<open>p = Some block\<close> d c path o keep_file_stream [of state os3]
        by (auto simp: built_def mp_logger_make_file_stream_def Let_def simp flip: state_def)
    qed
  qed
qed

lemma built_udp: "os_wf os \<Longrightarrow> built os (mp_logger_make_udp_stream l os)"
proof -
  assume wf: "os_wf os"
  let ?c = "logger_config l"
  let ?port = "snprintf (zeros MP_LOGGER_UDP_PORT_TEXT_CAPACITY) MP_LOGGER_UDP_PORT_TEXT_CAPACITY (show_nat (unat (udp_port ?c)))"
  obtain p os1 where g: "os_getaddrinfo (udp_host ?c) ?port os = (p, os1)" by (metis surj_pair)
  show ?thesis
  proof (cases p)
    case None
    then show ?thesis
      using getaddrinfo_acquired [OF wf g] acquired_keeps [OF acquired_refl [OF wf]] g
      by (simp add: built_def mp_logger_make_udp_stream_def Let_def)
  next
    case p: (Some x)
    obtain a address where x: "x = (a, address)" by (cases x)
    then have a1: "acquired {a} os os1" using getaddrinfo_acquired [OF wf g] p by simp
    then have wf1: "os_wf os1" by (simp add: acquired_def)
    obtain q os2 where s: "os_socket os1 = (q, os2)" by (metis surj_pair)
    show ?thesis
    proof (cases q)
      case None
      then have "acquired {a} os os2" using acquired_keeps [OF a1] socket_acquired [OF wf1 s] by simp
      then have "acquired {} os (os_free (Some a) os2)" using acquired_release [of a "{}"] by (simp add: os_free_def)
      then show ?thesis
        using None p x g s by (simp add: built_def mp_logger_make_udp_stream_def Let_def)
    next
      case q: (Some fd)
      then have "acquired {fd} os1 os2" using socket_acquired [OF wf1 s] by simp
      then have a2: "acquired {a, fd} os os2" "a \<noteq> fd" using acquired_trans [OF a1] by auto
      then have wf2: "os_wf os2" by (simp add: acquired_def)
      obtain r os3 where c: "os_calloc 1 288 os2 = (r, os3)" by (metis surj_pair)
      show ?thesis
      proof (cases r)
        case None
        then have "acquired {a, fd} os os3" using acquired_keeps [OF a2(1)] calloc_acquired [OF wf2 c] by simp
        then have "acquired {a} os (os_close fd os3)"
          using acquired_owns [where R = "{fd}" and S = "{a}", OF _ _ owns_close] a2(2) by (simp add: insert_commute)
        then have "acquired {} os (os_free (Some a) (os_close fd os3))"
          using acquired_release [of a "{}"] by (simp add: os_free_def)
        then show ?thesis
          using None p q x g s c by (simp add: built_def mp_logger_make_udp_stream_def Let_def)
      next
        case r: (Some block)
        then have "acquired {block} os2 os3" using calloc_acquired [OF wf2 c] by simp
        then have a3: "acquired {a, fd, block} os os3" "block \<noteq> a" "block \<noteq> fd"
          using acquired_trans [OF a2(1), of "{block}" os3] by (auto simp: insert_commute)
        then have "acquired {fd, block} os (os_free (Some a) os3)"
          using acquired_release [of a "{fd, block}" os os3] a2(2) by (auto simp: os_free_def)
        moreover define state where "state = \<lparr>socket_fd = fd, socket_address = address,
          endpoint = snprintf (zeros (MP_LOGGER_HOST_CAPACITY + MP_LOGGER_UDP_ENDPOINT_EXTRA_CAPACITY))
            (MP_LOGGER_HOST_CAPACITY + MP_LOGGER_UDP_ENDPOINT_EXTRA_CAPACITY)
            (cstr (udp_host ?c) @ '':'' @ show_nat (unat (udp_port ?c))), udp_block = block\<rparr>"
        moreover have "owns {fd, block} (mp_logger_destroy_udp_stream (Some state))"
          using owns_udp_stream [of state] a3(3) by (simp add: state_def)
        moreover have "os_resources os2 fd = Some Udp_Socket" using socket_acquired [OF wf1 s] q by simp
        then have "os_resources os3 fd = Some Udp_Socket"
          using extendsD [OF extends_acquired [OF \<open>acquired {block} os2 os3\<close>]] by blast
        then have "udp_ready state (os_free (Some a) os3)"
          using a2(2) by (simp add: udp_ready_def state_def os_free_def release_def)
        ultimately show ?thesis
          using p q r x g s c keep_udp_stream [of state "os_free (Some a) os3"]
          by (auto simp: built_def mp_logger_make_udp_stream_def Let_def simp flip: state_def)
      qed
    qed
  qed
qed

lemma built_builtin: "os_wf os \<Longrightarrow> make_builtin_stream n l os = Some r \<Longrightarrow> built os r"
  using built_stdio [of os Stdout] built_stdio [of os Stderr] built_file [of os l] built_udp [of os l] by (auto simp: make_builtin_stream_def Let_def split: if_splits)

section \<open>The table of built-in streams\<close>

definition backup_ready :: "'a mp_logger \<Rightarrow> 'a os \<Rightarrow> bool" where
  "backup_ready l os \<longleftrightarrow> (\<forall>fd. backup_fd l = Some fd \<longrightarrow> (\<exists>path. os_resources os fd = Some (Open_File path)))"

lemma keeps_backup_write:
  assumes "backup_ready l os"
  shows "keeps_resources os (mp_logger_backup_write l severity msg os)"
proof (cases "backup_fd l")
  case None
  then show ?thesis by (simp add: mp_logger_backup_write_def)
next
  case (Some fd)
  obtain now os1 where c: "clock_realtime os = (now, os1)" by (metis surj_pair)
  then have k: "keeps_resources os os1" using keeps_simple(1) [of os] by simp
  moreover obtain path where "os_resources os1 fd = Some (Open_File path)"
    using assms k by (auto simp: backup_ready_def Some keeps_resources_def)
  then have "keeps_resources os1 (snd (os_write fd bytes os1))" for bytes
    by (rule keeps_write)
  ultimately show ?thesis
    by (auto simp: mp_logger_backup_write_def Some c Let_def intro: keeps_trans)
qed

lemma backup_ready_acquired: "backup_ready l os \<Longrightarrow> acquired R os os' \<Longrightarrow> backup_ready l os'"
  unfolding backup_ready_def acquired_def by (metis option.distinct(1))

lemma destroy_streams_snoc: "destroy_streams_loop (ss @ [s]) = (\<lambda>os. destroy_stream s (destroy_streams_loop ss os))"
proof -
  have "destroy_streams_loop (ss @ [s]) os = destroy_stream s (destroy_streams_loop ss os)" for os
    by (induction ss arbitrary: os) simp_all
  then show ?thesis by (rule ext)
qed

lemma make_builtin_stream_name:
  assumes "make_builtin_stream n l os = Some (status, Some s, os')"
  shows "cstr (stream_name s) = cstr n \<and> apply_config_to_stream (logger_config l) s = s"
proof -
  have lit: "trim ''stdout'' = ''stdout''" "trim ''stderr'' = ''stderr''"
      "trim ''file'' = ''file''" "trim ''udp'' = ''udp''"
      "cstr ''stdout'' = ''stdout''" "cstr ''stderr'' = ''stderr''" "cstr ''file'' = ''file''" "cstr ''udp'' = ''udp''"
    by (simp_all add: trim_def cstr_Cons isspace_def char_code_def)
  show ?thesis
    using assms
    by (auto simp: make_builtin_stream_def mp_logger_make_stdio_stream_def mp_logger_make_file_stream_def
        mp_logger_make_udp_stream_def make_stream_def apply_config_to_stream_def strcmp_eq_def cstr_copy_trimmed lit Let_def
        split: if_splits prod.splits option.splits)
qed

text \<open>
  What the loop over the names keeps: a well-formed table whose streams carry the thresholds of
  the config, the ownership of everything acquired so far, and the rest of the logger.
\<close>

definition table_built :: "'a os \<Rightarrow> 'a mp_logger \<Rightarrow> 'a os \<Rightarrow> bool" where
  "table_built os0 l os \<longleftrightarrow>
     table_ok l \<and> backup_ready l os \<and>
     list_all (\<lambda>s. apply_config_to_stream (logger_config l) s = s) (streams l) \<and>
     streams_keep os (streams l) \<and>
     (\<exists>R. acquired R os0 os \<and> owns R (destroy_streams_loop (streams l)))"

definition same_but_streams :: "'a mp_logger \<Rightarrow> 'a mp_logger \<Rightarrow> bool" where
  "same_but_streams l l' \<longleftrightarrow>
     l'\<lparr>streams := streams l, enabled_level_mask := enabled_level_mask l\<rparr> = l"

lemma same_but_streams_refl [simp]: "same_but_streams l l"
  by (simp add: same_but_streams_def)

lemma same_but_streams_trans: "same_but_streams l m \<Longrightarrow> same_but_streams m n \<Longrightarrow> same_but_streams l n"
  by (cases l; cases m; cases n) (simp add: same_but_streams_def)

lemma add_built_stream:
  assumes built: "table_built os0 l os" and s: "stream_write s \<noteq> None" "acquired S os os'" "owns S (destroy_stream s)"
      "apply_config_to_stream (logger_config l) s = s" "streams_keep os' [s]"
    and add: "mp_logger_add_owned_stream (Some l) (Some s) = (status, Some l')"
  shows "if status = MP_LOG_STATUS_OK
    then table_built os0 l' os' \<and> streams l' = streams l @ [s] \<and> same_but_streams l l'
    else l' = l \<and> table_built os0 l (destroy_stream s os') \<and>
      status \<in> {MP_LOG_STATUS_INVALID_ARGUMENT, MP_LOG_STATUS_LIMIT_EXCEEDED, MP_LOG_STATUS_CONFIG_ERROR}"
proof -
  obtain R where R: "acquired R os0 os" "owns R (destroy_streams_loop (streams l))"
    using built by (auto simp: table_built_def)
  have RS: "acquired (R \<union> S) os0 os'" "R \<inter> S = {}" using acquired_trans [OF R(1) s(2)] by auto
  have l: "table_ok l" "backup_ready l os'" "list_all (\<lambda>s. apply_config_to_stream (logger_config l) s = s) (streams l)"
    using built backup_ready_acquired [OF _ s(2)] by (simp_all add: table_built_def)
  have undo: "acquired {} os (destroy_stream s os')"
    using acquired_owns [of S "{}" os os' "destroy_stream s"] s by simp
  then have "acquired R os0 (destroy_stream s os')"
    using acquired_trans [OF R(1), of "{}"] by simp
  moreover have "backup_ready l (destroy_stream s os')"
    using built backup_ready_acquired [OF _ undo] by (simp add: table_built_def)
  moreover have keep: "streams_keep os (streams l)" using built by (simp add: table_built_def)
  moreover note streams_keep_extends [OF keep extends_acquired [OF undo]]
  ultimately have failed: "table_built os0 l (destroy_stream s os')"
    using l R(2) by (auto simp: table_built_def)
  have keep': "streams_keep os' (streams l @ [s])"
    using streams_keep_extends [OF keep extends_acquired [OF s(2)]] s(5) by simp
  have snoc: "owns (R \<union> S) (destroy_streams_loop (streams l @ [s]))"
    using owns_comp [OF R(2) s(3) RS(2)] by (simp add: destroy_streams_snoc)
  have "table_ok l'" by (rule table_ok_add [OF l(1) add])
  then show ?thesis
    using add RS(1) snoc failed l s(1,4) keep'
    by (cases rule: add_owned_stream_cases [of s l])
      (auto simp: table_built_def same_but_streams_def backup_ready_def)
qed

definition builtin_names :: "string set" where
  "builtin_names = {''stdout'', ''stderr'', ''file'', ''udp''}"

lemma make_builtin_stream_known: "make_builtin_stream n l os = None \<longleftrightarrow> cstr n \<notin> builtin_names"
  by (auto simp: make_builtin_stream_def strcmp_eq_def builtin_names_def cstr_Cons Let_def)

lemma build_streams_loop_spec:
  assumes "table_built os0 l os" and "build_streams_loop names l os = (status, l', os')"
  shows "table_built os0 l' os' \<and> same_but_streams l l' \<and>
    (\<exists>new. streams l' = streams l @ new \<and> subseq (map (\<lambda>s. cstr (stream_name s)) new) (map cstr names)) \<and>
    (status = MP_LOG_STATUS_OK \<longrightarrow> cstr ` set names \<subseteq> builtin_names)"
  using assms
proof (induction names arbitrary: l os)
  case Nil
  then show ?case by auto
next
  case (Cons n names)
  have wf: "os_wf os" using Cons.prems(1) by (auto simp: table_built_def acquired_def)
  show ?case
  proof (cases "make_builtin_stream n l os")
    case None
    then show ?thesis using Cons.prems by (auto intro: exI [of _ "[]"])
  next
    case (Some r)
    have known: "cstr n \<in> builtin_names" using Some make_builtin_stream_known [of n l os] by auto
    obtain st sp os1 where r: "r = (st, sp, os1)" by (metis prod_cases3)
    note b = built_builtin [OF wf Some, unfolded built_def r]
    show ?thesis
    proof (cases sp)
      case None
      then have os1: "acquired {} os os1" using b by simp
      let ?os2 = "mp_logger_backup_write l ''WARNING'' ''builtin stream initialization failed'' os1"
      have "backup_ready l os1" using backup_ready_acquired [OF _ os1] Cons.prems(1) by (simp add: table_built_def)
      then have "acquired {} os ?os2" by (intro acquired_keeps [OF os1] keeps_backup_write)
      then have os2: "acquired {} os ?os2" .
      obtain R where R: "acquired R os0 os" "owns R (destroy_streams_loop (streams l))"
        using Cons.prems(1) by (auto simp: table_built_def)
      have "acquired R os0 ?os2" using acquired_trans [OF R(1) os2] by simp
      then have "table_built os0 l ?os2"
        using Cons.prems(1) R(2) backup_ready_acquired [OF _ os2] streams_keep_extends [OF _ extends_acquired [OF os2]]
        by (auto simp: table_built_def)
      from Cons.IH [OF this] Cons.prems(2) show ?thesis
        using known by (auto simp: Some r None intro: list_emb_Cons)
    next
      case s: (Some s)
      then obtain S where S: "stream_write s \<noteq> None" "acquired S os os1" "owns S (destroy_stream s)"
        and keep: "streams_keep os1 [s]" using b by auto
      have name: "cstr (stream_name s) = cstr n" "apply_config_to_stream (logger_config l) s = s"
        using make_builtin_stream_name [of n l os st s os1] Some by (simp_all add: r s)
      obtain st2 l2 where add: "mp_logger_add_owned_stream (Some l) (Some s) = (st2, Some l2)"
        by (cases rule: add_owned_stream_cases [of s l]) simp_all
      note step = add_built_stream [OF Cons.prems(1) S name(2) keep add]
      show ?thesis
      proof (cases "st2 = MP_LOG_STATUS_OK")
        case True
        then have step': "table_built os0 l2 os1" "streams l2 = streams l @ [s]" "same_but_streams l l2" using step by simp_all
        then obtain new where "table_built os0 l' os'" "same_but_streams l2 l'" "streams l' = streams l2 @ new"
            "subseq (map (\<lambda>s. cstr (stream_name s)) new) (map cstr names)"
            "status = MP_LOG_STATUS_OK \<longrightarrow> cstr ` set names \<subseteq> builtin_names"
          using Cons.IH [OF step'(1)] Cons.prems(2) by (auto simp: Some r s add True)
        then show ?thesis
          using step' name(1) known same_but_streams_trans by (auto intro!: exI [of _ "s # new"])
      next
        case False
        then have "status = st2" "l' = l" "os' = destroy_stream s os1"
          using Cons.prems(2) by (auto simp: Some r s add split: mp_log_status_t.splits)
        then show ?thesis using step False by (auto intro: exI [of _ "[]"])
      qed
    qed
  qed
qed

lemma build_builtin_streams_built:
  assumes "os_wf os" and "table_ok l" and "streams l = []" and "backup_ready l os"
    and "wf_array MP_LOGGER_ACTIVE_STREAMS_CAPACITY (active_streams (logger_config l))"
    and "mp_logger_build_builtin_streams l os = (status, l', os')"
  shows "table_built os l' os' \<and> same_but_streams l l' \<and>
    subseq (map (\<lambda>s. cstr (stream_name s)) (streams l')) (stream_names (trim (cstr (active_streams (logger_config l))))) \<and>
    (status = MP_LOG_STATUS_OK \<longrightarrow>
       set (stream_names (trim (cstr (active_streams (logger_config l))))) \<subseteq> builtin_names)"
proof -
  let ?a = "active_streams (logger_config l)"
  have start: "table_built os l os"
    using assms by (auto simp: table_built_def owns_def intro!: exI [of _ "{}"])
  have wf: "wf_names 8 (replicate 8 (zeros 32))" by (simp add: wf_names_def list_all_iff)
  have short: "strlen ?a < MP_LOGGER_ACTIVE_STREAMS_CAPACITY" using assms(5) by (rule strlen_less_array)
  obtain ok names n where split: "mp_logger_split_stream_list (Some ?a) (replicate 8 (zeros 32)) 8 = (ok, names, n)"
    by (metis prod_cases3)
  have ok: "ok \<longrightarrow> map cstr (take n names) = stream_names (trim (cstr ?a))"
    using split_stream_list_spec [OF wf short] split by simp
  show ?thesis
  proof (cases ok)
    case False
    then show ?thesis using assms(6) start assms(3) by (auto simp: mp_logger_build_builtin_streams_def split)
  next
    case True
    then have "build_streams_loop (take n names) l os = (status, l', os')"
      using assms(6) by (simp add: mp_logger_build_builtin_streams_def split)
    from build_streams_loop_spec [OF start this] assms(3) ok True show ?thesis
      by (auto simp flip: set_map)
  qed
qed

lemma same_but_streams_config: "same_but_streams l l' \<Longrightarrow> logger_config l' = logger_config l"
  by (cases l; cases l') (simp add: same_but_streams_def)

section \<open>Properties\<close>

text \<open>
  The path of a log file is \<open>directory/prefix.suffix.log\<close>, or \<open>prefix.suffix.log\<close> when
  the directory is ".". The path is made exactly when it fits the array, which keeps its size
  and holds the path or, after a failure, the empty string.
\<close>

theorem make_stream_path_exact:
  assumes "length buffer = capacity" and "0 < capacity"
  shows "\<exists>path. mp_logger_make_stream_path buffer capacity directory name_prefix run_text =
      (length (stream_path (cstr directory) (cstr name_prefix) (cstr run_text)) < capacity, path) \<and>
    length path = capacity \<and>
    cstr path =
      (if length (stream_path (cstr directory) (cstr name_prefix) (cstr run_text)) < capacity
       then stream_path (cstr directory) (cstr name_prefix) (cstr run_text) else [])"
proof -
  obtain ok path where r: "mp_logger_make_stream_path buffer capacity directory name_prefix run_text = (ok, path)"
    by (metis surj_pair)
  from make_stream_path_spec [OF assms r] show ?thesis by (auto simp: r)
qed

theorem make_stream_path_exact_witness:
  "\<exists>path. mp_logger_make_stream_path (zeros 256) 256 ''logs'' ''svc'' ''20240101T000000Z'' = (True, path) \<and>
    cstr path = ''logs/svc.20240101T000000Z.log''"
  using make_stream_path_exact [of "zeros 256" 256 "''logs''" "''svc''" "''20240101T000000Z''"]
  by (auto simp: stream_path_def cstr_Cons)

text \<open>
  The built-in streams are those of the \<open>active_streams\<close> list, in its order, less the ones
  whose construction failed. The table is well formed and each stream has the thresholds of the
  config; \<open>OK\<close> means that every listed name is a built-in one. Whatever calls of the system
  fail on the way, nothing else of the logger changes, and what was acquired is owned by the
  streams of the table: destroying them releases exactly that.
\<close>

theorem build_builtin_streams_spec:
  assumes "os_wf os" and "table_ok l" and "streams l = []" and "backup_ready l os"
    and "wf_array MP_LOGGER_ACTIVE_STREAMS_CAPACITY (active_streams (logger_config l))"
  shows "case mp_logger_build_builtin_streams l os of (status, l', os') \<Rightarrow>
    table_ok l' \<and> same_but_streams l l' \<and>
    subseq (map (\<lambda>s. cstr (stream_name s)) (streams l')) (stream_names (trim (cstr (active_streams (logger_config l))))) \<and>
    list_all (\<lambda>s. apply_config_to_stream (logger_config l) s = s) (streams l') \<and>
    (status = MP_LOG_STATUS_OK \<longrightarrow>
       set (stream_names (trim (cstr (active_streams (logger_config l))))) \<subseteq> builtin_names) \<and>
    (\<exists>R. acquired R os os' \<and> owns R (snd \<circ> mp_logger_destroy_streams l'))"
proof -
  obtain status l' os' where r: "mp_logger_build_builtin_streams l os = (status, l', os')" by (metis prod_cases3)
  note built = build_builtin_streams_built [OF assms r]
  moreover have "snd \<circ> mp_logger_destroy_streams l' = destroy_streams_loop (streams l')"
    by (simp add: mp_logger_destroy_streams_def fun_eq_iff)
  moreover have "logger_config l' = logger_config l" using built same_but_streams_config by blast
  ultimately show ?thesis
    by (simp add: r table_built_def)
qed

text \<open>An operating system in which every call works.\<close>

definition sound_os :: "unit os" where
  "sound_os = \<lparr>os_ticks = 0, os_fault = (\<lambda>_. None), os_now = (\<lambda>_. None), os_paths = (\<lambda>_. None),
     os_resolve = (\<lambda>host port. host @ '':'' @ port), os_output = (\<lambda>_. []), os_datagrams = [],
     os_resources = (\<lambda>_. None), os_next = 0, os_misuse = False, application = ()\<rparr>"

lemma os_wf_sound [simp]: "os_wf sound_os"
  by (simp add: os_wf_def sound_os_def)

theorem build_builtin_streams_spec_witness:
  "table_ok (fst (snd (mp_logger_build_builtin_streams (configured_logger mp_logger_config_init_defaults) sound_os)))"
proof -
  let ?l = "configured_logger mp_logger_config_init_defaults :: unit mp_logger"
  have "wf_config (logger_config ?l)"
    using config_inv_defaults by (simp add: config_inv_def wf_normalize)
  then have "wf_array 128 (active_streams (logger_config ?l))" by (simp add: wf_config_def)
  moreover have "backup_ready ?l sound_os"
    by (simp add: backup_ready_def configured_logger_def zeroed_logger_def)
  ultimately show ?thesis
    using build_builtin_streams_spec [of sound_os ?l] by (auto split: prod.splits)
qed

text \<open>What a \<open>FILE *\<close> writes to, and the part of the bytes that a call accepts.\<close>

definition handle_output :: "file_handle \<Rightarrow> 'a os \<Rightarrow> file_output option" where
  "handle_output f os =
     (case f of
        Stdout \<Rightarrow> Some Stdout_Output
      | Stderr \<Rightarrow> Some Stderr_Output
      | Opened i \<Rightarrow> (case os_resources os i of Some (Open_File path) \<Rightarrow> Some (File_Output path) | _ \<Rightarrow> None))"

definition accepted_part :: "nat option \<Rightarrow> string \<Rightarrow> string" where
  "accepted_part fault bytes = (case fault of None \<Rightarrow> bytes | Some n \<Rightarrow> take n bytes)"

lemma fwrite_output:
  assumes "handle_output f os = Some out"
  shows "os_fwrite f bytes os =
    (length (accepted_part (os_fault os (os_ticks os)) bytes),
     os\<lparr>os_ticks := Suc (os_ticks os),
        os_output := (os_output os)(out := os_output os out @ accepted_part (os_fault os (os_ticks os)) bytes)\<rparr>)"
  using assms
  by (auto simp: handle_output_def os_fwrite_def os_write_def os_append_def os_call_def accepted_part_def Let_def
      split: file_handle.splits option.splits resource.splits)

lemma write_file_stream_effect:
  assumes "file_handle state = Some f" and "handle_output f os = Some out"
    and "mp_logger_write_file_stream (Some state) r line n os = (status, os')"
  shows "status = (if os_fault os (os_ticks os + 2) = None then MP_LOG_STATUS_OK else MP_LOG_STATUS_IO_ERROR)"
    and "os_output os' = (os_output os)(out := os_output os out @ accepted_part (os_fault os (os_ticks os)) (cstr line) @
      accepted_part (os_fault os (os_ticks os + 1)) [CHR 0x0A])"
    and "os_fault os' = os_fault os" and "os_resources os' = os_resources os"
proof -
  have again: "handle_output f (os\<lparr>os_ticks := t, os_output := out'\<rparr>) = Some out" for t out'
    using assms(2) by (simp add: handle_output_def split: file_handle.splits)
  show "status = (if os_fault os (os_ticks os + 2) = None then MP_LOG_STATUS_OK else MP_LOG_STATUS_IO_ERROR)"
    "os_output os' = (os_output os)(out := os_output os out @ accepted_part (os_fault os (os_ticks os)) (cstr line) @
      accepted_part (os_fault os (os_ticks os + 1)) [CHR 0x0A])"
    "os_fault os' = os_fault os" "os_resources os' = os_resources os"
    using assms(3)
    by (auto simp: mp_logger_write_file_stream_def assms(1) fwrite_output [OF assms(2)] fwrite_output [OF again]
        os_fflush_def os_call_def fun_eq_iff)
qed

text \<open>
  C28: the file stream hands the line and a newline to its file and then flushes it. The status
  is that of the flush alone: it is \<open>OK\<close> also when one of the writes was cut short, so a
  line can be missing from the file although its write was reported as a success.
\<close>

theorem write_file_stream_spec:
  assumes "file_handle state = Some f" and "handle_output f os = Some out"
  shows "case mp_logger_write_file_stream (Some state) r line n os of (status, os') \<Rightarrow>
    status = (if os_fault os (os_ticks os + 2) = None then MP_LOG_STATUS_OK else MP_LOG_STATUS_IO_ERROR) \<and>
    os_output os' = (os_output os)(out := os_output os out @ accepted_part (os_fault os (os_ticks os)) (cstr line) @
      accepted_part (os_fault os (os_ticks os + 1)) [CHR 0x0A])"
  using write_file_stream_effect [OF assms] by (auto split: prod.split)

theorem write_file_stream_spec_witness:
  "case mp_logger_write_file_stream
      (Some \<lparr>file_handle = Some Stdout, file_path = [], close_on_destroy = False, file_block = 0\<rparr>)
      sample_record ''line'' 4 (sound_os\<lparr>os_fault := (\<lambda>t. if t = 0 then Some 0 else None)\<rparr>) of (status, os') \<Rightarrow>
    status = MP_LOG_STATUS_OK \<and> os_output os' Stdout_Output = [CHR 0x0A]"
  using write_file_stream_spec [where f = Stdout and out = Stdout_Output and r = sample_record and line = "''line''" and n = 4
      and state = "\<lparr>file_handle = Some Stdout, file_path = [], close_on_destroy = False, file_block = 0\<rparr>"
      and os = "sound_os\<lparr>os_fault := (\<lambda>t. if t = 0 then Some 0 else None)\<rparr>"]
  by (auto simp: handle_output_def accepted_part_def sound_os_def split: prod.splits)



end
