(* ===== verification/Logger_Worker.thy ===== *)
theory Logger_Worker
  imports Logger_Queue Logger_Sinks
begin

text \<open>
  The worker thread of \<open>src/mp_logger.c\<close>: its scratch buffers, the warnings about dropped
  records, the rendering of a record and its delivery to the streams, and the drain of the
  queue. The worker runs here from one wait on the condition variable to the next; what other
  threads do in between is in \<open>Logger_Threads\<close>.
\<close>

section \<open>Dropped records\<close>

definition dropped_busy_message :: "uint64_t \<Rightarrow> string" where
  "dropped_busy_message n = ''log call contention dropped records total='' @ show_uint64 n"

definition dropped_full_message :: "uint64_t \<Rightarrow> string" where
  "dropped_full_message n = ''buffer saturation dropped records total='' @ show_uint64 n"

text \<open>The totals last seen by the worker, for busy and full.\<close>

definition mp_logger_flush_drop_counters ::
    "'a mp_logger \<Rightarrow> uint64_t \<times> uint64_t \<Rightarrow> 'a os \<Rightarrow> (uint64_t \<times> uint64_t) \<times> 'a os" where
  "mp_logger_flush_drop_counters logger seen os =
     (case seen of (last_busy, last_full) \<Rightarrow>
        let (last_busy, os) =
              (if dropped_busy_total logger > last_busy
               then (dropped_busy_total logger,
                     mp_logger_backup_write logger ''WARNING''
                       (snprintf (zeros MP_LOGGER_DROP_MESSAGE_CAPACITY) MP_LOGGER_DROP_MESSAGE_CAPACITY
                         (dropped_busy_message (dropped_busy_total logger))) os)
               else (last_busy, os));
            (last_full, os) =
              (if dropped_full_total logger > last_full
               then (dropped_full_total logger,
                     mp_logger_backup_write logger ''WARNING''
                       (snprintf (zeros MP_LOGGER_DROP_MESSAGE_CAPACITY) MP_LOGGER_DROP_MESSAGE_CAPACITY
                         (dropped_full_message (dropped_full_total logger))) os)
               else (last_full, os))
        in ((last_busy, last_full), os))"

section \<open>Delivery\<close>

record worker =
  worker_scratch :: scratch
  render_buffer :: cbuf
  worker_last :: "uint64_t \<times> uint64_t"
  worker_blocks :: "nat option list"

definition write_failure_message :: "'a mp_logger_stream \<Rightarrow> mp_log_status_t \<Rightarrow> string" where
  "write_failure_message s status =
     ''stream='' @ cstr (stream_name s) @ '' write failure status='' @ mp_log_status_name status"

text \<open>The loop over the streams; every registered stream has a callback.\<close>

fun dispatch_loop ::
    "'a mp_logger \<Rightarrow> mp_log_record \<Rightarrow> cbuf \<Rightarrow> nat \<Rightarrow> 'a mp_logger_stream list \<Rightarrow> 'a os \<Rightarrow> 'a os" where
  "dispatch_loop logger record line n [] os = os"
| "dispatch_loop logger record line n (s # ss) os =
     (if \<not> mp_logger_level_in_range (level record) (minimum_level s) (maximum_level s)
      then dispatch_loop logger record line n ss os
      else case stream_write s of
             None \<Rightarrow> dispatch_loop logger record line n ss os
           | Some w \<Rightarrow>
               (case w record line n os of (status, os) \<Rightarrow>
                  dispatch_loop logger record line n ss
                    (if status \<noteq> MP_LOG_STATUS_OK
                     then mp_logger_backup_write logger ''ERROR''
                       (snprintf (zeros MP_LOGGER_STREAM_ERROR_MESSAGE_CAPACITY) MP_LOGGER_STREAM_ERROR_MESSAGE_CAPACITY
                         (write_failure_message s status)) os
                     else os)))"

definition deliver_record :: "'a mp_logger \<Rightarrow> mp_log_record \<Rightarrow> worker \<Rightarrow> 'a os \<Rightarrow> worker \<times> 'a os" where
  "deliver_record logger record w os =
     (case mp_logger_render_record (Some (logger_config logger)) (Some record) (render_buffer w)
         (render_capacity logger) of
        (line, n) \<Rightarrow> (w\<lparr>render_buffer := line\<rparr>, dispatch_loop logger record line n (streams logger) os))"

text \<open>One turn of the loop of the worker when a record is waiting.\<close>

definition worker_round :: "'a mp_logger \<times> worker \<times> 'a os \<Rightarrow> 'a mp_logger \<times> worker \<times> 'a os" where
  "worker_round st =
     (case st of (logger, w, os) \<Rightarrow>
        case take_record (logger, worker_scratch w) of (record, logger, sc) \<Rightarrow>
        case mp_logger_flush_drop_counters logger (worker_last w) os of (seen, os) \<Rightarrow>
        case deliver_record logger record (w\<lparr>worker_scratch := sc, worker_last := seen\<rparr>) os of (w, os) \<Rightarrow>
          (logger\<lparr>processed_records_total := processed_records_total logger + 1\<rparr>, w, os))"

lemma take_record_count:
  "take_record (l, sc) = (r, l', sc') \<Longrightarrow>
   l' = l\<lparr>queue_head := (queue_head l + 1) mod buffer_capacity (logger_config l), queue_count := queue_count l - 1\<rparr>"
  by (auto simp: take_record_def split: prod.splits)

lemma worker_round_count: "queue_count (fst (worker_round (l, w, os))) = queue_count l - 1"
  by (auto simp: worker_round_def split: prod.split dest!: take_record_count)

text \<open>The loop until the queue is empty; then the worker exits or waits.\<close>

function worker_drain :: "'a mp_logger \<times> worker \<times> 'a os \<Rightarrow> bool \<times> 'a mp_logger \<times> worker \<times> 'a os" where
  "worker_drain st =
     (if queue_count (fst st) = 0 then (shutdown_requested (fst st), st) else worker_drain (worker_round st))"
  by pat_completeness auto
termination
proof (relation "measure (\<lambda>st. unat (queue_count (fst st)))")
  fix st :: "'a mp_logger \<times> worker \<times> 'a os"
  assume some: "queue_count (fst st) \<noteq> 0"
  obtain l w os where st: "st = (l, w, os)" by (metis prod_cases3)
  have "unat (queue_count l - 1) < unat (queue_count l)"
    using some by (simp add: st unat_minus_one unat_gt_0)
  then show "(worker_round st, st) \<in> measure (\<lambda>st. unat (queue_count (fst st)))"
    by (simp add: st worker_round_count)
qed simp

declare worker_drain.simps [simp del]

section \<open>The thread\<close>

text \<open>
  The buffers of the worker: the sizes are \<open>size_t\<close> products, 24 is the size of a field. A
  failed allocation frees the others, warns and ends the thread.
\<close>

fun calloc_all :: "(size_t \<times> nat) list \<Rightarrow> 'a os \<Rightarrow> nat option list \<times> 'a os" where
  "calloc_all [] os = ([], os)"
| "calloc_all ((n, elem_size) # sizes) os =
     (case os_calloc n elem_size os of (p, os) \<Rightarrow>
        case calloc_all sizes os of (ps, os) \<Rightarrow> (p # ps, os))"

fun free_all :: "nat option list \<Rightarrow> 'a os \<Rightarrow> 'a os" where
  "free_all [] os = os"
| "free_all (p # ps) os = free_all ps (os_free p os)"

definition new_scratch :: "mp_logger_config \<Rightarrow> scratch" where
  "new_scratch c = \<lparr>scratch_message = zeros (unat (message_capacity c)),
     scratch_context = zeros (unat (context_capacity c)),
     scratch_fields = replicate (unat (field_capacity c)) zero_field,
     scratch_keys = zeros (unat (field_capacity c * field_key_capacity c)),
     scratch_strings = zeros (unat (field_capacity c * field_value_capacity c))\<rparr>"

definition worker_start :: "'a mp_logger \<Rightarrow> 'a os \<Rightarrow> worker option \<times> 'a os" where
  "worker_start logger os =
     (let c = logger_config logger in
      case calloc_all [(message_capacity c, 1), (context_capacity c, 1), (field_capacity c, 24),
          (field_capacity c * field_key_capacity c, 1), (field_capacity c * field_value_capacity c, 1),
          (render_capacity logger, 1)] os of
        (blocks, os) \<Rightarrow>
          if None \<in> set blocks
          then (None, free_all blocks
                 (mp_logger_backup_write logger ''ERROR'' ''worker thread could not allocate local buffers'' os))
          else (Some \<lparr>worker_scratch = new_scratch c, render_buffer = zeros (unat (render_capacity logger)),
                  worker_last = (0, 0), worker_blocks = blocks\<rparr>, os))"

definition worker_finish :: "'a mp_logger \<Rightarrow> worker \<Rightarrow> 'a os \<Rightarrow> 'a os" where
  "worker_finish logger w os =
     free_all (worker_blocks w) (snd (mp_logger_flush_drop_counters logger (worker_last w) os))"

text \<open>The thread up to its first wait (\<open>Some w\<close>) or its end (\<open>None\<close>).\<close>

definition mp_logger_worker_main ::
    "'a mp_logger \<Rightarrow> 'a os \<Rightarrow> 'a mp_logger \<times> worker option \<times> 'a os" where
  "mp_logger_worker_main logger os =
     (case worker_start logger os of
        (None, os) \<Rightarrow> (logger, None, os)
      | (Some w, os) \<Rightarrow>
          (case worker_drain (logger, w, os) of (finished, logger, w, os) \<Rightarrow>
             if finished then (logger, None, worker_finish logger w os) else (logger, Some w, os)))"

section \<open>The length of a line\<close>

text \<open>With all its escapes a line is at most six times the bound of a plain one.\<close>

lemma length_json_escape: "length (json_escape s) \<le> 6 * length s"
  by (induction s) (auto simp: json_char_def show_hex4_def)

lemma length_text_escape: "length (text_escape s) \<le> 6 * length s"
  by (induction s) (auto simp: text_char_def)

lemma length_value_escaped:
  assumes "value_fits capacity v" and "\<And>s. length (escape s) \<le> 6 * length s"
  shows "length (value_text escape v) \<le> 6 * unat capacity + 24"
proof (cases v)
  case (MP_LOG_FIELD_STRING s)
  then show ?thesis using assms(1) assms(2) [of "ostr s"] by (simp add: string_fits_def)
qed (auto intro!: trans_le_add2 le_trans [OF length_show_int64] le_trans [OF length_show_uint64] length_show_g17)

lemma record_fits_field:
  assumes "record_fits c r" and "f \<in> set (fields_of r)"
  shows "length (ostr (field_key f)) < unat (field_key_capacity c)" and "value_fits (field_value_capacity c) (field_value f)"
  using assms by (auto simp: record_fits_def list_all_iff string_fits_def)

lemma length_json_line_escaped:
  assumes fits: "record_fits c r"
  shows "length (json_line c r) \<le> 6 * render_bound c"
proof -
  define separator where "separator = (if pretty_output c then '', '' else '','')"
  define colon where "colon = (if pretty_output c then '': '' else '':'')"
  have sep: "length separator \<le> 2" "length colon \<le> 2" by (simp_all add: separator_def colon_def)
  let ?size = "\<lambda>m. length (member_text colon m) + length separator"
  let ?fields = "map (\<lambda>f. (json_escape (ostr (field_key f)), value_text json_escape (field_value f))) (fields_of r)"
  let ?fc = "unat (field_capacity c)" and ?kc = "unat (field_key_capacity c)" and ?vc = "unat (field_value_capacity c)"
  define F where "F = ?fc * (?kc + ?vc + 64)"
  have bound: "render_bound c = unat (message_capacity c) + unat (context_capacity c) + F + 384"
    by (simp add: render_bound_def F_def)
  have "(\<Sum>m\<leftarrow>?fields. ?size m) \<le> 6 * F"
  proof -
    have "?size (json_escape (ostr (field_key f)), value_text json_escape (field_value f)) \<le> 6 * (?kc + ?vc + 64)"
      if f: "f \<in> set (fields_of r)" for f
      using record_fits_field(1) [OF fits f] length_json_escape [of "ostr (field_key f)"]
        length_value_escaped [OF record_fits_field(2) [OF fits f] length_json_escape] sep
      by (simp add: member_text_def del: length_concat)
    then have "(\<Sum>m\<leftarrow>?fields. ?size m) \<le> ?fc * (6 * (?kc + ?vc + 64))"
      using fits by (simp only: map_map comp_def) (intro sum_list_bound, simp_all add: record_fits_def)
    then show ?thesis unfolding F_def by (simp only: mult.left_commute [of ?fc])
  qed
  moreover have "(\<Sum>m\<leftarrow>take 6 (json_members c r). ?size m) \<le> 6 * length (ostr (message r)) + 1400"
  proof -
    have "length (json_escape (timestamp_of r)) \<le> 180" "length (json_escape (mp_log_level_name (level r))) \<le> 42"
      "length (json_escape (cstr (service_name c))) \<le> 378" "length (json_escape (cstr (environment_name c))) \<le> 378"
      using length_json_escape [of "timestamp_of r"] length_json_escape [of "mp_log_level_name (level r)"]
        length_json_escape [of "cstr (service_name c)"] length_json_escape [of "cstr (environment_name c)"]
        length_timestamp_of [of r] length_level_name [of "level r"] length_config_strings [of c] fits
      unfolding record_fits_def by linarith+
    then show ?thesis
      using length_json_escape [of "ostr (message r)"] length_show_uint64 [of "sequence_id r"] sep
      by (simp add: json_members_def member_text_def del: length_concat)
  qed
  moreover let ?ctx = "if has_context r then [(''context'', quoted (json_escape (ostr (context_text r))))] else []"
  have "(\<Sum>m\<leftarrow>?ctx. ?size m) \<le> 6 * length (ostr (context_text r)) + 15"
    using length_json_escape [of "ostr (context_text r)"] sep by (simp add: member_text_def del: length_concat)
  moreover have "length (ostr (message r)) < unat (message_capacity c)"
    "length (ostr (context_text r)) < unat (context_capacity c)"
    using fits by (simp_all add: record_fits_def string_fits_def)
  moreover have "(\<Sum>m\<leftarrow>json_members c r. ?size m) =
      (\<Sum>m\<leftarrow>take 6 (json_members c r). ?size m) + (\<Sum>m\<leftarrow>?ctx. ?size m) + (\<Sum>m\<leftarrow>?fields. ?size m)"
  proof -
    have "json_members c r = take 6 (json_members c r) @ ?ctx @ ?fields" by (simp add: json_members_def)
    then show ?thesis by (metis (no_types, lifting) add.assoc map_append sum_list_append)
  qed
  moreover have arith: "A \<le> 6 * m + 1400 \<Longrightarrow> B \<le> 6 * x + 15 \<Longrightarrow> C \<le> 6 * F \<Longrightarrow> m < mc \<Longrightarrow> x < cc \<Longrightarrow>
      A + B + C + 2 \<le> 6 * (mc + cc + F + 384)" for A B C m x mc cc :: nat
    by simp
  ultimately have "(\<Sum>m\<leftarrow>json_members c r. ?size m) + 2 \<le> 6 * render_bound c"
    unfolding bound by (metis (no_types, lifting))
  moreover have "length (json_line c r) \<le> (\<Sum>m\<leftarrow>json_members c r. ?size m) + 2"
    using length_join_with [of separator "map (member_text colon) (json_members c r)"]
    by (simp add: json_line_def Let_def comp_def flip: separator_def colon_def)
  ultimately show ?thesis by simp
qed

lemma length_text_line_escaped:
  assumes fits: "record_fits c r"
  shows "length (text_line c r) \<le> 6 * render_bound c"
proof -
  let ?field = "\<lambda>f. '' '' @ ostr (field_key f) @ ''='' @ value_text text_escape (field_value f)"
  let ?fc = "unat (field_capacity c)" and ?kc = "unat (field_key_capacity c)" and ?vc = "unat (field_value_capacity c)"
  have "(\<Sum>f\<leftarrow>fields_of r. length (?field f)) \<le> ?fc * (6 * (?kc + ?vc + 64))"
  proof (rule sum_list_bound)
    show "length (?field f) \<le> 6 * (?kc + ?vc + 64)" if f: "f \<in> set (fields_of r)" for f
      using record_fits_field(1) [OF fits f]
        length_value_escaped [OF record_fits_field(2) [OF fits f] length_text_escape]
      by simp
  qed (use fits in \<open>simp add: record_fits_def\<close>)
  moreover have "?fc * (6 * (?kc + ?vc + 64)) = 6 * (?fc * (?kc + ?vc + 64))" by simp
  ultimately have fields_part: "length (concat (map ?field (fields_of r))) \<le> 6 * (?fc * (?kc + ?vc + 64))"
    by (simp only: length_concat map_map comp_def)
  have ctx: "length (if has_context r then '' context='' @ quoted (text_escape (ostr (context_text r))) else []) \<le>
      6 * length (ostr (context_text r)) + 11"
    using length_text_escape [of "ostr (context_text r)"] by (simp add: quoted_def del: length_concat)
  have "length (text_escape (cstr (service_name c))) \<le> 378" "length (text_escape (cstr (environment_name c))) \<le> 378"
    using length_text_escape [of "cstr (service_name c)"] length_text_escape [of "cstr (environment_name c)"]
      length_config_strings [of c] fits unfolding record_fits_def by linarith+
  moreover have "length (ostr (message r)) < unat (message_capacity c)"
    "length (ostr (context_text r)) < unat (context_capacity c)"
    using fits by (simp_all add: record_fits_def string_fits_def)
  ultimately show ?thesis
    using fields_part ctx length_timestamp_of [of r] length_level_name [of "level r"]
      length_show_uint64 [of "sequence_id r"] length_text_escape [of "ostr (message r)"]
    unfolding text_line_def render_bound_def length_append length_quoted by simp
qed

lemma length_record_line: "record_fits c r \<Longrightarrow> length (record_line c r) \<le> 6 * render_bound c"
  by (simp add: record_line_def length_json_line_escaped length_text_line_escaped)

section \<open>What reaches an output\<close>

text \<open>
  A step that leaves an output alone, and the oracle and the live resources with it. The other
  streams, whatever they are, are only assumed to leave the output of the one looked at alone.
\<close>

definition leaves :: "file_output \<Rightarrow> 'a os \<Rightarrow> 'a os \<Rightarrow> bool" where
  "leaves out os os' \<longleftrightarrow>
     os_output os' out = os_output os out \<and> os_fault os' = os_fault os \<and> os_resources os' = os_resources os"

definition stream_leaves :: "file_output \<Rightarrow> 'a mp_logger_stream \<Rightarrow> bool" where
  "stream_leaves out s \<longleftrightarrow>
     (\<forall>w r b n os. stream_write s = Some w \<longrightarrow> leaves out os (snd (w r b n os)))"

definition backup_leaves :: "file_output \<Rightarrow> 'a mp_logger \<Rightarrow> 'a os \<Rightarrow> bool" where
  "backup_leaves out l os \<longleftrightarrow>
     (\<forall>fd path. backup_fd l = Some fd \<longrightarrow> os_resources os fd = Some (Open_File path) \<longrightarrow> File_Output path \<noteq> out)"

lemma leaves_refl [simp]: "leaves out os os"
  by (simp add: leaves_def)

lemma leaves_trans: "leaves out os os1 \<Longrightarrow> leaves out os1 os2 \<Longrightarrow> leaves out os os2"
  by (simp add: leaves_def)

lemma backup_write_leaves:
  assumes "backup_leaves out l os"
  shows "leaves out os (mp_logger_backup_write l severity msg os)"
proof (cases "backup_fd l")
  case None
  then show ?thesis by (simp add: mp_logger_backup_write_def)
next
  case (Some fd)
  obtain now os1 where c: "clock_realtime os = (now, os1)" by (metis surj_pair)
  then have os1: "os1 = os\<lparr>os_ticks := Suc (os_ticks os)\<rparr>" by (simp add: clock_realtime_def os_call_def)
  have "leaves out os (snd (os_write fd bytes os1))" for bytes
    using assms by (auto simp: os1 leaves_def backup_leaves_def Some os_write_def os_append_def os_call_def Let_def
        split: option.split resource.split)
  then show ?thesis by (simp add: mp_logger_backup_write_def Some c Let_def)
qed

lemma backup_leaves_step: "backup_leaves out l os \<Longrightarrow> leaves out os os' \<Longrightarrow> backup_leaves out l os'"
  by (simp add: backup_leaves_def leaves_def)

lemma flush_drop_leaves:
  assumes "backup_leaves out l os" and "mp_logger_flush_drop_counters l seen os = (seen', os')"
  shows "leaves out os os'"
proof -
  have "leaves out os (mp_logger_backup_write l sev1 m1 os)"
    "leaves out os (mp_logger_backup_write l sev2 m2 (mp_logger_backup_write l sev1 m1 os))"
    "leaves out os (mp_logger_backup_write l sev2 m2 os)" for sev1 m1 sev2 m2
    using backup_write_leaves backup_leaves_step leaves_trans assms(1) by metis+
  then show ?thesis
    using assms(2) by (auto simp: mp_logger_flush_drop_counters_def Let_def split: if_splits prod.splits)
qed

lemma dispatch_leaves:
  assumes "backup_leaves out l os" and "list_all (stream_leaves out) ss"
  shows "leaves out os (dispatch_loop l r line n ss os)"
  using assms
proof (induction ss arbitrary: os)
  case Nil
  then show ?case by simp
next
  case (Cons s ss)
  show ?case
  proof (cases "mp_logger_level_in_range (level r) (minimum_level s) (maximum_level s) \<and> stream_write s \<noteq> None")
    case False
    then show ?thesis using Cons by auto
  next
    case True
    then obtain w where w: "stream_write s = Some w" by blast
    obtain status os1 where r: "w r line n os = (status, os1)" by (metis surj_pair)
    have "leaves out os (snd (w r line n os))" using Cons.prems(2) w by (simp add: stream_leaves_def)
    then have os1: "leaves out os os1" by (simp add: r)
    let ?os2 = "if status \<noteq> MP_LOG_STATUS_OK then mp_logger_backup_write l ''ERROR''
      (snprintf (zeros MP_LOGGER_STREAM_ERROR_MESSAGE_CAPACITY) MP_LOGGER_STREAM_ERROR_MESSAGE_CAPACITY
        (write_failure_message s status)) os1 else os1"
    have os2: "leaves out os ?os2"
      using backup_write_leaves [OF backup_leaves_step [OF Cons.prems(1) os1]] leaves_trans [OF os1] os1 by auto
    have "dispatch_loop l r line n (s # ss) os = dispatch_loop l r line n ss ?os2"
      using True by (simp add: w r)
    then show ?thesis
      using Cons.IH [OF backup_leaves_step [OF Cons.prems(1) os2]] Cons.prems(2) leaves_trans [OF os2] by simp
  qed
qed

text \<open>The stream looked at: it writes to an open file or a standard stream.\<close>

definition writes_to :: "file_output \<Rightarrow> 'a mp_logger_stream \<Rightarrow> 'a os \<Rightarrow> bool" where
  "writes_to out s os \<longleftrightarrow>
     (\<exists>state f. stream_write s = Some (mp_logger_write_file_stream (Some state)) \<and> file_handle state = Some f \<and>
        handle_output f os = Some out)"

definition appends_line :: "file_output \<Rightarrow> string \<Rightarrow> 'a os \<Rightarrow> 'a os \<Rightarrow> bool" where
  "appends_line out line os os' \<longleftrightarrow>
     os_output os' out = os_output os out @ line \<and> os_fault os' = os_fault os \<and> os_resources os' = os_resources os"

lemma writes_to_step: "writes_to out s os \<Longrightarrow> os_resources os' = os_resources os \<Longrightarrow> writes_to out s os'"
  by (simp add: writes_to_def handle_output_def cong: file_handle.case_cong)

lemma dispatch_append:
  "dispatch_loop l r line n (ss1 @ ss2) os = dispatch_loop l r line n ss2 (dispatch_loop l r line n ss1 os)"
proof (induction ss1 arbitrary: os)
  case Nil
  then show ?case by simp
next
  case (Cons s ss)
  then show ?case by (simp split: option.split prod.split)
qed

lemma dispatch_line:
  assumes "writes_to out s os" and "os_fault os = (\<lambda>_. None)" and "backup_leaves out l os"
    and "list_all (stream_leaves out) ss1" and "list_all (stream_leaves out) ss2"
  shows "appends_line out
    (if mp_logger_level_in_range (level r) (minimum_level s) (maximum_level s) then cstr line @ [CHR 0x0A] else [])
    os (dispatch_loop l r line n (ss1 @ s # ss2) os)"
proof -
  let ?os1 = "dispatch_loop l r line n ss1 os"
  have os1: "leaves out os ?os1" by (rule dispatch_leaves [OF assms(3,4)])
  obtain state f where s: "stream_write s = Some (mp_logger_write_file_stream (Some state))" "file_handle state = Some f"
      "handle_output f ?os1 = Some out"
    using writes_to_step [OF assms(1), of ?os1] os1 by (auto simp: leaves_def writes_to_def)
  obtain status os2 where w: "mp_logger_write_file_stream (Some state) r line n ?os1 = (status, os2)" by (metis surj_pair)
  note effect = write_file_stream_effect [OF s(2,3) w]
  have fault: "os_fault ?os1 = (\<lambda>_. None)" using os1 assms(2) by (simp add: leaves_def)
  then have os2: "status = MP_LOG_STATUS_OK" "os_output os2 out = os_output ?os1 out @ cstr line @ [CHR 0x0A]"
      "os_fault os2 = os_fault ?os1" "os_resources os2 = os_resources ?os1"
    using effect by (simp_all add: accepted_part_def)
  have b1: "backup_leaves out l ?os1" by (rule backup_leaves_step [OF assms(3) os1])
  then have b2: "backup_leaves out l os2" using os2(4) by (simp add: backup_leaves_def)
  have "leaves out ?os1 (dispatch_loop l r line n ss2 ?os1)" "leaves out os2 (dispatch_loop l r line n ss2 os2)"
    using dispatch_leaves b1 b2 assms(5) by blast+
  then show ?thesis
    using os1 os2 by (simp add: dispatch_append s(1) w appends_line_def leaves_def)
qed

section \<open>The drain\<close>

text \<open>The state of the logger and the worker between two turns.\<close>

definition worker_ready :: "'a mp_logger \<Rightarrow> worker \<Rightarrow> bool" where
  "worker_ready l w \<longleftrightarrow>
     ring_inv (l, worker_scratch w) \<and> wf_config (logger_config l) \<and>
     render_capacity l = mp_logger_render_capacity (logger_config l) \<and>
     length (render_buffer w) = unat (render_capacity l) \<and> 6 * render_bound (logger_config l) < 2 ^ 64 - 1"

text \<open>What the drain leaves of the logger.\<close>

definition same_settings :: "'a mp_logger \<Rightarrow> 'a mp_logger \<Rightarrow> bool" where
  "same_settings l l' \<longleftrightarrow>
     l'\<lparr>queue_head := queue_head l, queue_count := queue_count l, processed_records_total := processed_records_total l\<rparr> = l"

lemma same_settingsD:
  assumes "same_settings l l'"
  shows "logger_config l' = logger_config l" "streams l' = streams l" "backup_fd l' = backup_fd l"
    "shutdown_requested l' = shutdown_requested l" "render_capacity l' = render_capacity l"
    "queued_records_total l' = queued_records_total l" "storage_blocks l' = storage_blocks l"
    "dropped_busy_total l' = dropped_busy_total l" "dropped_full_total l' = dropped_full_total l"
    "enabled_level_mask l' = enabled_level_mask l" "worker_started l' = worker_started l"
  using assms by (cases l; cases l'; simp add: same_settings_def)+

lemma same_settings_refl [simp]: "same_settings l l"
  by (simp add: same_settings_def)

lemma same_settings_trans: "same_settings l m \<Longrightarrow> same_settings m n \<Longrightarrow> same_settings l n"
  by (cases l; cases m; cases n) (simp add: same_settings_def)

lemma filled_record_fits:
  assumes filled: "filled_slot c slot" and wf: "wf_config c" and caps: "capacities_ok c"
    and texts: "ostr (message r) = cstr (message_buffer slot)" "ostr (context_text r) = cstr (context_buffer slot)"
    and len: "length (fields_of r) \<le> unat (field_capacity c)" and valid: "list_all (valid_field c) (fields_of r)"
  shows "record_fits c r"
proof -
  have "0 < unat (field_value_capacity c)"
    using capacities_pos(5) [OF caps] by (simp add: word_pos_unat)
  then have fits: "string_fits (field_key_capacity c) (field_key f) \<and> value_fits (field_value_capacity c) (field_value f)"
    if "valid_field c f" for f
    using that by (cases "field_value f") (auto simp: valid_field_def string_fits_def ostr_def)
  show ?thesis
    using filled wf len texts valid fits
    by (auto simp: record_fits_def string_fits_def filled_slot_def strlen_def list_all_iff)
qed

lemma taken_record_fits:
  assumes ring: "ring_ok l" and some: "queue_count l \<noteq> 0" and wf: "wf_config (logger_config l)"
    and view: "view_of r = hd (queue_view l)" and valid: "list_all (valid_field (logger_config l)) (fields_of r)"
  shows "record_fits (logger_config l) r"
proof -
  let ?c = "logger_config l" and ?slot = "slots l ! ring_index l 0"
  have pos: "0 < unat (queue_count l)" using some by (simp add: unat_gt_0)
  then have filled: "filled_slot ?c ?slot" using ring by (auto simp: ring_ok_def Let_def)
  have "hd (queue_view l) = slot_view ?slot"
    using pos by (simp add: queue_view_def hd_map upt_conv_Cons)
  then have r: "ostr (message r) = cstr (message_buffer ?slot)" "ostr (context_text r) = cstr (context_buffer ?slot)"
      "map field_view (fields_of r) = map field_view (take (slot_field_count ?slot) (slot_fields ?slot))"
    using view by (simp_all add: view_of_def slot_view_def)
  have len: "length (fields_of r) \<le> unat (field_capacity ?c)"
    using filled r(3) [THEN arg_cong [where f = length]] by (simp add: filled_slot_def min.coboundedI2)
  have "capacities_ok ?c" using ring by (simp add: ring_ok_def Let_def)
  from filled_record_fits [OF filled wf this r(1,2) len valid] show ?thesis .
qed

text \<open>One turn: the head of the queue is taken, rendered and delivered.\<close>

definition delivered_text :: "mp_logger_config \<Rightarrow> 'a mp_logger_stream \<Rightarrow> mp_log_record \<Rightarrow> string" where
  "delivered_text c s r =
     (if mp_logger_level_in_range (level r) (minimum_level s) (maximum_level s)
      then take (unat (mp_logger_render_capacity c) - 1) (record_line c r) @ [CHR 0x0A] else [])"

lemma worker_round_cases:
  assumes ready: "worker_ready l w" and some: "queue_count l \<noteq> 0"
  obtains r l' sc w' seen os1 line n where
    "take_record (l, worker_scratch w) = (r, l', sc)"
    "mp_logger_flush_drop_counters l' (worker_last w) os = (seen, os1)"
    "worker_round (l, w, os) = (l'\<lparr>processed_records_total := processed_records_total l + 1\<rparr>, w',
       dispatch_loop l' r line n (streams l) os1)"
    "worker_ready (l'\<lparr>processed_records_total := processed_records_total l + 1\<rparr>) w'"
    "worker_blocks w' = worker_blocks w" "same_settings l l'"
    "view_of r = hd (queue_view l)" "queue_view l' = tl (queue_view l)" "record_fits (logger_config l) r"
    "cstr line = take (unat (mp_logger_render_capacity (logger_config l)) - 1) (record_line (logger_config l) r)"
proof -
  let ?c = "logger_config l"
  have ring: "ring_ok l" "wf_scratch ?c (worker_scratch w)" and wf: "wf_config ?c"
    and cap: "render_capacity l = mp_logger_render_capacity ?c" "length (render_buffer w) = unat (render_capacity l)"
      "6 * render_bound ?c < 2 ^ 64 - 1"
    using ready by (simp_all add: worker_ready_def ring_inv_def)
  obtain r l' sc where take: "take_record (l, worker_scratch w) = (r, l', sc)" by (metis prod_cases3)
  note spec = take_record_ring [OF ring some take]
  have settings: "same_settings l l'" "processed_records_total l' = processed_records_total l"
    by (simp_all add: take_record_count [OF take] same_settings_def)
  have fits: "record_fits ?c r" by (rule taken_record_fits [OF ring(1) some wf spec(4,6)])
  have bound: "unat (mp_logger_render_capacity ?c) = render_bound ?c" "0 < render_bound ?c"
    using cap(3) by (simp_all add: unat_render_capacity render_bound_def)
  then have pos: "0 < mp_logger_render_capacity ?c" by (simp add: word_pos_unat)
  have short: "length (record_line ?c r) < 2 ^ 64 - 1" using length_record_line [OF fits] cap(3) by simp
  obtain seen os1 where flush: "mp_logger_flush_drop_counters l' (worker_last w) os = (seen, os1)" by (metis surj_pair)
  let ?t = "take (unat (mp_logger_render_capacity ?c) - 1) (record_line ?c r)"
  define line where "line = overwrite (render_buffer w) 0 (?t @ [NUL])"
  define n where "n = min (unat (mp_logger_render_capacity ?c) - 1) (length (record_line ?c r))"
  have render: "mp_logger_render_record (Some ?c) (Some r) (render_buffer w) (mp_logger_render_capacity ?c) = (line, n)"
    using render_record_eq [OF pos _ short, of "render_buffer w"] cap by (simp add: line_def n_def)
  have "NUL \<notin> set ?t" by (meson NUL_notin_record_line in_set_takeD)
  then have cstring: "cstr line = ?t" by (simp add: line_def cstr_overwrite_0)
  have "length (?t @ [NUL]) \<le> length (render_buffer w)" using cap bound by simp
  then have line_len: "length line = unat (render_capacity l)" unfolding line_def using cap(2) by (subst length_overwrite) simp_all
  define w' where "w' = w\<lparr>worker_scratch := sc, worker_last := seen, render_buffer := line\<rparr>"
  have round: "worker_round (l, w, os) = (l'\<lparr>processed_records_total := processed_records_total l + 1\<rparr>, w',
      dispatch_loop l' r line n (streams l) os1)"
    using render settings same_settingsD [OF settings(1)] cap(1)
    by (simp add: worker_round_def take flush deliver_record_def w'_def spec(3))
  have ready': "worker_ready (l'\<lparr>processed_records_total := processed_records_total l + 1\<rparr>) w'"
    using spec(1,2) same_settingsD [OF settings(1)] wf cap line_len
    by (simp add: worker_ready_def ring_inv_def w'_def ring_ok_def ring_index_def Let_def)
  show thesis
    by (rule that [OF take flush round ready' _ settings(1) spec(4,5) fits cstring]) (simp add: w'_def)
qed

lemma queue_view_processed [simp]: "queue_view (l\<lparr>processed_records_total := n\<rparr>) = queue_view l"
  by (simp add: queue_view_def ring_index_def)

text \<open>The drain ends with an empty queue, and has processed every record that was waiting.\<close>

lemma worker_drain_ends:
  assumes "worker_ready l w"
  shows "\<exists>l' w' os'. worker_drain (l, w, os) = (shutdown_requested l, l', w', os') \<and> queue_count l' = 0 \<and>
    worker_ready l' w' \<and> worker_blocks w' = worker_blocks w \<and> same_settings l l' \<and>
    processed_records_total l' = processed_records_total l + queue_count l"
  using assms
proof (induction "unat (queue_count l)" arbitrary: l w os rule: less_induct)
  case less
  show ?case
  proof (cases "queue_count l = 0")
    case True
    then show ?thesis using less.prems by (simp add: worker_drain.simps)
  next
    case False
    obtain r l1 sc w1 seen os1 line n where step: "take_record (l, worker_scratch w) = (r, l1, sc)"
        "worker_round (l, w, os) = (l1\<lparr>processed_records_total := processed_records_total l + 1\<rparr>, w1,
          dispatch_loop l1 r line n (streams l) os1)"
        "worker_ready (l1\<lparr>processed_records_total := processed_records_total l + 1\<rparr>) w1"
        "worker_blocks w1 = worker_blocks w" "same_settings l l1"
      using worker_round_cases [OF less.prems False] by metis
    let ?l2 = "l1\<lparr>processed_records_total := processed_records_total l + 1\<rparr>"
    have count: "queue_count ?l2 = queue_count l - 1" by (simp add: take_record_count [OF step(1)])
    then have "unat (queue_count ?l2) < unat (queue_count l)" using False by (simp add: unat_minus_one unat_gt_0)
    from less.hyps [OF this step(3)] obtain l' w' os' where
      drain: "worker_drain (?l2, w1, dispatch_loop l1 r line n (streams l) os1) = (shutdown_requested ?l2, l', w', os')"
        "queue_count l' = 0" "worker_ready l' w'" "worker_blocks w' = worker_blocks w1" "same_settings ?l2 l'"
        "processed_records_total l' = processed_records_total ?l2 + queue_count ?l2"
      by metis
    have "same_settings l ?l2" using step(5) by (cases l; cases l1) (simp add: same_settings_def)
    then have "same_settings l l'" using drain(5) same_settings_trans by blast
    moreover have "worker_drain (l, w, os) = (shutdown_requested l, l', w', os')"
      using drain(1) False step(2) same_settingsD [OF step(5)] by (subst worker_drain.simps) simp
    ultimately show ?thesis using drain step(4) count by simp
  qed
qed

text \<open>What one output has received in the end.\<close>

lemma worker_drain_output:
  assumes "worker_ready l w" and "streams l = ss1 @ s # ss2" and "writes_to out s os" and "os_fault os = (\<lambda>_. None)"
    and "backup_leaves out l os" and "list_all (stream_leaves out) ss1" and "list_all (stream_leaves out) ss2"
    and "worker_drain (l, w, os) = (finished, l', w', os')"
  shows "\<exists>rs. map view_of rs = queue_view l \<and>
    appends_line out (concat (map (delivered_text (logger_config l) s) rs)) os os'"
  using assms
proof (induction "unat (queue_count l)" arbitrary: l w os rule: less_induct)
  case less
  show ?case
  proof (cases "queue_count l = 0")
    case True
    then have "os' = os" "queue_view l = []"
      using less.prems(8) queue_view_nonempty [of l] by (auto simp: worker_drain.simps)
    then show ?thesis by (simp add: appends_line_def)
  next
    case False
    obtain r l1 sc w1 seen os1 line n where step: "take_record (l, worker_scratch w) = (r, l1, sc)"
        "mp_logger_flush_drop_counters l1 (worker_last w) os = (seen, os1)"
        "worker_round (l, w, os) = (l1\<lparr>processed_records_total := processed_records_total l + 1\<rparr>, w1,
          dispatch_loop l1 r line n (streams l) os1)"
        "worker_ready (l1\<lparr>processed_records_total := processed_records_total l + 1\<rparr>) w1" "same_settings l l1"
        "view_of r = hd (queue_view l)" "queue_view l1 = tl (queue_view l)"
        "cstr line = take (unat (mp_logger_render_capacity (logger_config l)) - 1) (record_line (logger_config l) r)"
      using worker_round_cases [OF less.prems(1) False] by metis
    note same = same_settingsD [OF step(5)]
    let ?l2 = "l1\<lparr>processed_records_total := processed_records_total l + 1\<rparr>"
    let ?os2 = "dispatch_loop l1 r line n (streams l) os1"
    have b: "backup_leaves out l1 os" using less.prems(5) same(3) by (simp add: backup_leaves_def)
    have os1: "leaves out os os1" by (rule flush_drop_leaves [OF b step(2)])
    have "writes_to out s os1" using writes_to_step [OF less.prems(3)] os1 by (simp add: leaves_def)
    then have line: "appends_line out (delivered_text (logger_config l) s r) os ?os2"
      using dispatch_line [of out s os1 l1 ss1 ss2 r line n] backup_leaves_step [OF b os1] os1 less.prems(2,4,6,7) step(8)
      by (auto simp: appends_line_def leaves_def delivered_text_def split: if_splits)
    have os2: "os_fault ?os2 = (\<lambda>_. None)" "os_resources ?os2 = os_resources os"
      using line less.prems(4) by (simp_all add: appends_line_def)
    have "queue_count ?l2 = queue_count l - 1" by (simp add: take_record_count [OF step(1)])
    then have "unat (queue_count ?l2) < unat (queue_count l)" using False by (simp add: unat_minus_one unat_gt_0)
    moreover have "worker_drain (?l2, w1, ?os2) = (finished, l', w', os')"
      using less.prems(8) False step(3) by (subst (asm) worker_drain.simps) simp
    moreover have "backup_leaves out ?l2 ?os2" using b os2(2) by (simp add: backup_leaves_def)
    ultimately obtain rs where rs: "map view_of rs = queue_view ?l2"
        "appends_line out (concat (map (delivered_text (logger_config ?l2) s) rs)) ?os2 os'"
      using less.hyps [OF _ step(4) _ writes_to_step [OF less.prems(3) os2(2)] os2(1) _ less.prems(6,7)] less.prems(2) same(2)
      by auto
    have "queue_view l \<noteq> []" using False by (simp add: queue_view_nonempty)
    then have "map view_of (r # rs) = queue_view l" using rs(1) step(6,7) by simp
    moreover have "appends_line out (concat (map (delivered_text (logger_config l) s) (r # rs))) os os'"
      using line rs(2) same(1) by (simp add: appends_line_def)
    ultimately show ?thesis by blast
  qed
qed

section \<open>The buffers of the thread\<close>

definition live_blocks :: "nat option list \<Rightarrow> nat set" where
  "live_blocks ps = {i. Some i \<in> set ps}"

lemma live_blocks_simps [simp]:
  "live_blocks [] = {}" "live_blocks (None # ps) = live_blocks ps" "live_blocks (Some i # ps) = insert i (live_blocks ps)"
  by (auto simp: live_blocks_def)

fun apart_blocks :: "nat option list \<Rightarrow> bool" where
  "apart_blocks [] = True"
| "apart_blocks (None # ps) = apart_blocks ps"
| "apart_blocks (Some i # ps) = (i \<notin> live_blocks ps \<and> apart_blocks ps)"

lemma calloc_all_acquired:
  "os_wf os \<Longrightarrow> calloc_all sizes os = (ps, os') \<Longrightarrow> acquired (live_blocks ps) os os' \<and> apart_blocks ps"
proof (induction sizes os arbitrary: ps os' rule: calloc_all.induct)
  case (1 os)
  then show ?case by auto
next
  case (2 n elem_size sizes os)
  obtain p os1 where c: "os_calloc n elem_size os = (p, os1)" by (metis surj_pair)
  obtain qs os2 where r: "calloc_all sizes os1 = (qs, os2)" by (metis surj_pair)
  have ps: "ps = p # qs" "os' = os2" using 2(3) c r by auto
  note a = calloc_acquired [OF 2(2) c]
  show ?case
  proof (cases p)
    case None
    then have "acquired {} os os1" using a acquired_keeps [OF acquired_refl [OF 2(2)]] by simp
    moreover from this have "os_wf os1" by (simp add: acquired_def)
    note 2(1) [OF c [symmetric] this r]
    ultimately show ?thesis using acquired_trans by (fastforce simp: ps None)
  next
    case (Some i)
    then have i: "acquired {i} os os1" using a by simp
    then have "os_wf os1" by (simp add: acquired_def)
    from 2(1) [OF c [symmetric] this r] acquired_trans [OF i] show ?thesis
      by (auto simp: ps Some)
  qed
qed

lemma owns_free_all: "apart_blocks ps \<Longrightarrow> owns (live_blocks ps) (free_all ps :: 'a os \<Rightarrow> 'a os)"
proof (induction ps rule: apart_blocks.induct)
  case 1
  then show ?case by (simp add: owns_def)
next
  case (2 ps)
  then show ?case by (simp add: os_free_def owns_def)
next
  case (3 i ps)
  then have "owns ({i} \<union> live_blocks ps) (\<lambda>os :: 'a os. free_all ps (os_free (Some i) os))"
    using owns_comp [OF owns_free, of "live_blocks ps" "free_all ps" i] by simp
  then show ?case by (simp add: owns_def)
qed

lemma acquired_free_all:
  assumes "acquired (live_blocks ps) os0 os" and "apart_blocks ps"
  shows "acquired {} os0 (free_all ps os)"
  using assms(1) by (intro acquired_owns [OF _ _ owns_free_all [OF assms(2)]]) simp_all

lemma backup_ready_extends: "backup_ready l os \<Longrightarrow> extends_os os os' \<Longrightarrow> backup_ready l os'"
  unfolding backup_ready_def by (metis extendsD)

lemma dispatch_keeps:
  assumes "backup_ready l os0" and "streams_keep os0 ss" and "extends_os os0 os"
  shows "keeps_resources os (dispatch_loop l r line n ss os)"
  using assms(2,3)
proof (induction ss arbitrary: os)
  case Nil
  then show ?case by simp
next
  case (Cons s ss)
  have ss: "streams_keep os0 ss" using Cons.prems(1) by (simp add: streams_keep_def)
  show ?case
  proof (cases "mp_logger_level_in_range (level r) (minimum_level s) (maximum_level s) \<and> stream_write s \<noteq> None")
    case False
    then show ?thesis using Cons.IH [OF ss Cons.prems(2)] by auto
  next
    case True
    then obtain w where w: "stream_write s = Some w" by blast
    obtain status os1 where r: "w r line n os = (status, os1)" by (metis surj_pair)
    have "keeps_resources os (snd (w r line n os))"
      using Cons.prems w by (simp add: streams_keep_def)
    then have os1: "keeps_resources os os1" by (simp add: r)
    then have e1: "extends_os os0 os1" by (rule extends_keeps [OF Cons.prems(2)])
    define os2 where "os2 = (if status \<noteq> MP_LOG_STATUS_OK then mp_logger_backup_write l ''ERROR''
      (snprintf (zeros MP_LOGGER_STREAM_ERROR_MESSAGE_CAPACITY) MP_LOGGER_STREAM_ERROR_MESSAGE_CAPACITY
        (write_failure_message s status)) os1 else os1)"
    have os2: "keeps_resources os os2"
      using keeps_trans [OF os1 keeps_backup_write [OF backup_ready_extends [OF assms(1) e1]]] os1 by (simp add: os2_def)
    have "dispatch_loop l r line n (s # ss) os = dispatch_loop l r line n ss os2"
      using True by (simp add: w r os2_def)
    then show ?thesis
      using Cons.IH [OF ss extends_keeps [OF Cons.prems(2) os2]] keeps_trans [OF os2] by simp
  qed
qed

lemma flush_drop_keeps:
  assumes "backup_ready l os" and "mp_logger_flush_drop_counters l seen os = (seen', os')"
  shows "keeps_resources os os'"
proof -
  note k = keeps_backup_write [OF assms(1)]
  have "backup_ready l (mp_logger_backup_write l sev1 m1 os)" for sev1 m1
    using backup_ready_extends [OF assms(1)] extends_keeps [OF extends_refl k] by blast
  from keeps_backup_write [OF this] k keeps_trans
  have "keeps_resources os (mp_logger_backup_write l sev2 m2 (mp_logger_backup_write l sev1 m1 os))" for sev1 m1 sev2 m2
    by blast
  with k show ?thesis
    using assms(2) by (auto simp: mp_logger_flush_drop_counters_def Let_def split: if_splits prod.splits)
qed

lemma worker_drain_keeps:
  assumes "worker_ready l w" and "backup_ready l os0" and "streams_keep os0 (streams l)" and "extends_os os0 os"
    and "worker_drain (l, w, os) = (finished, l', w', os')"
  shows "keeps_resources os os'"
  using assms
proof (induction "unat (queue_count l)" arbitrary: l w os rule: less_induct)
  case less
  show ?case
  proof (cases "queue_count l = 0")
    case True
    then show ?thesis using less.prems(5) by (simp add: worker_drain.simps)
  next
    case False
    obtain r l1 sc w1 seen os1 line n where step: "take_record (l, worker_scratch w) = (r, l1, sc)"
        "mp_logger_flush_drop_counters l1 (worker_last w) os = (seen, os1)"
        "worker_round (l, w, os) = (l1\<lparr>processed_records_total := processed_records_total l + 1\<rparr>, w1,
          dispatch_loop l1 r line n (streams l) os1)"
        "worker_ready (l1\<lparr>processed_records_total := processed_records_total l + 1\<rparr>) w1" "same_settings l l1"
      using worker_round_cases [OF less.prems(1) False] by metis
    note same = same_settingsD [OF step(5)]
    let ?l2 = "l1\<lparr>processed_records_total := processed_records_total l + 1\<rparr>"
    let ?os2 = "dispatch_loop l1 r line n (streams l) os1"
    have b0: "backup_ready l1 os0" "backup_ready ?l2 os0" using less.prems(2) same(3) by (simp_all add: backup_ready_def)
    have k1: "keeps_resources os os1"
      by (rule flush_drop_keeps [OF backup_ready_extends [OF b0(1) less.prems(4)] step(2)])
    then have "keeps_resources os1 ?os2"
      by (intro dispatch_keeps [OF b0(1) less.prems(3)] extends_keeps [OF less.prems(4)])
    then have k2: "keeps_resources os ?os2" using k1 keeps_trans by blast
    have "queue_count ?l2 = queue_count l - 1" by (simp add: take_record_count [OF step(1)])
    then have "unat (queue_count ?l2) < unat (queue_count l)" using False by (simp add: unat_minus_one unat_gt_0)
    moreover have "worker_drain (?l2, w1, ?os2) = (finished, l', w', os')"
      using less.prems(5) False step(3) by (subst (asm) worker_drain.simps) simp
    ultimately have "keeps_resources ?os2 os'"
      using less.hyps [OF _ step(4) b0(2) _ extends_keeps [OF less.prems(4) k2]] less.prems(3) same(2) by simp
    then show ?thesis using k2 keeps_trans by blast
  qed
qed

text \<open>The logger that a worker can run on; the sizes of its buffers do not overflow.\<close>

definition logger_ready :: "'a mp_logger \<Rightarrow> bool" where
  "logger_ready l \<longleftrightarrow>
     ring_ok l \<and> wf_config (logger_config l) \<and> render_capacity l = mp_logger_render_capacity (logger_config l) \<and>
     6 * render_bound (logger_config l) < 2 ^ 64 - 1"

lemma field_storage_bound:
  "unat (field_capacity c) * unat (field_key_capacity c) \<le> render_bound c"
  "unat (field_capacity c) * unat (field_value_capacity c) \<le> render_bound c"
  by (simp_all add: render_bound_def add_mult_distrib2)

lemma unat_size_mult: "unat (a :: size_t) * unat b < 2 ^ 64 \<Longrightarrow> unat (a * b) = unat a * unat b"
  by (simp add: unat_word_ariths)

lemma wf_new_scratch: "render_bound c < 2 ^ 64 \<Longrightarrow> wf_scratch c (new_scratch c)"
  using field_storage_bound [of c]
  by (simp add: wf_scratch_def storage_ok_def new_scratch_def unat_size_mult)

declare calloc_all.simps [simp del]

lemma worker_start_spec:
  assumes wf: "os_wf os" and b: "backup_ready l os" and start: "worker_start l os = (p, os')"
  shows "case p of
      None \<Rightarrow> acquired {} os os'
    | Some w \<Rightarrow> acquired (live_blocks (worker_blocks w)) os os' \<and> apart_blocks (worker_blocks w) \<and>
        (logger_ready l \<longrightarrow> worker_ready l w)"
proof -
  let ?c = "logger_config l"
  let ?sizes = "[(message_capacity ?c, 1), (context_capacity ?c, 1), (field_capacity ?c, 24),
    (field_capacity ?c * field_key_capacity ?c, 1), (field_capacity ?c * field_value_capacity ?c, 1), (render_capacity l, 1)]"
  obtain blocks os1 where c: "calloc_all ?sizes os = (blocks, os1)" by (metis surj_pair)
  note a = calloc_all_acquired [OF wf c]
  show ?thesis
  proof (cases "None \<in> set blocks")
    case True
    then have r: "p = None" "os' = free_all blocks (mp_logger_backup_write l ''ERROR'' ''worker thread could not allocate local buffers'' os1)"
      using start by (simp_all add: worker_start_def Let_def c [unfolded One_nat_def])
    have "backup_ready l os1" using backup_ready_acquired [OF b] a by blast
    then have "acquired (live_blocks blocks) os (mp_logger_backup_write l ''ERROR'' ''worker thread could not allocate local buffers'' os1)"
      using a acquired_keeps keeps_backup_write by blast
    then have "acquired {} os os'"
      using a unfolding r(2) by (simp add: acquired_free_all)
    then show ?thesis by (simp add: r(1))
  next
    case False
    then have "p = Some \<lparr>worker_scratch = new_scratch ?c, render_buffer = zeros (unat (render_capacity l)),
        worker_last = (0, 0), worker_blocks = blocks\<rparr>" "os' = os1"
      using start by (simp_all add: worker_start_def Let_def c [unfolded One_nat_def])
    then show ?thesis
      using a by (auto simp: worker_ready_def logger_ready_def ring_inv_def intro: wf_new_scratch)
  qed
qed

lemma worker_main_spec:
  assumes "os_wf os" and "logger_ready l" and "backup_ready l os" and "streams_keep os (streams l)"
    and "shutdown_requested l"
  shows "\<exists>l' os'. mp_logger_worker_main l os = (l', None, os') \<and> acquired {} os os' \<and> same_settings l l' \<and>
    (if fst (worker_start l os) = None then l' = l
     else queue_view l' = [] \<and> processed_records_total l' = processed_records_total l + queue_count l)"
proof -
  obtain p os1 where start: "worker_start l os = (p, os1)" by (metis surj_pair)
  note s = worker_start_spec [OF assms(1,3) start]
  show ?thesis
  proof (cases p)
    case None
    then show ?thesis using s by (simp add: mp_logger_worker_main_def start)
  next
    case (Some w)
    then have a1: "acquired (live_blocks (worker_blocks w)) os os1" "apart_blocks (worker_blocks w)" "worker_ready l w"
      using s assms(2) by simp_all
    obtain l' w' os2 where drain: "worker_drain (l, w, os1) = (True, l', w', os2)" "queue_count l' = 0"
        "worker_blocks w' = worker_blocks w" "same_settings l l'"
        "processed_records_total l' = processed_records_total l + queue_count l"
      using worker_drain_ends [OF a1(3), of os1] assms(5) by metis
    have e1: "extends_os os os1" by (rule extends_acquired [OF a1(1)])
    have k2: "keeps_resources os1 os2" by (rule worker_drain_keeps [OF a1(3) assms(3,4) e1 drain(1)])
    obtain seen os3 where f: "mp_logger_flush_drop_counters l' (worker_last w') os2 = (seen, os3)" by (metis surj_pair)
    have "backup_ready l' os2"
      using backup_ready_extends [OF assms(3) extends_keeps [OF e1 k2]] same_settingsD(3) [OF drain(4)]
      by (simp add: backup_ready_def)
    then have "keeps_resources os2 os3" using flush_drop_keeps f by blast
    then have "acquired (live_blocks (worker_blocks w)) os os3"
      using a1(1) k2 acquired_keeps by blast
    then have "acquired {} os (free_all (worker_blocks w) os3)"
      by (rule acquired_free_all [OF _ a1(2)])
    moreover have "queue_view l' = []" using drain(2) queue_view_nonempty by blast
    moreover have "mp_logger_worker_main l os = (l', None, free_all (worker_blocks w) os3)"
      by (simp add: mp_logger_worker_main_def start Some drain(1,3) worker_finish_def f)
    ultimately show ?thesis using drain(4,5) by (simp add: start Some)
  qed
qed

section \<open>The characters of a delivered line\<close>

lemma valid_key_not_iscntrl: "valid_key k \<Longrightarrow> list_all (\<lambda>c. \<not> iscntrl c) k"
  by (auto simp: valid_key_def key_char_def list_all_iff ctype_defs iscntrl_def char_code_def)

text \<open>What a byte of a line may be: JSON lines leave \<open>DEL\<close> alone, text lines escape it.\<close>

definition line_char :: "mp_logger_config \<Rightarrow> char \<Rightarrow> bool" where
  "line_char config c \<longleftrightarrow> (if format config = MP_LOG_FORMAT_JSON then 0x20 \<le> char_code c else \<not> iscntrl c)"

lemma record_line_chars:
  assumes "list_all (valid_field config) (fields_of r)"
  shows "list_all (line_char config) (record_line config r)"
proof (cases "format config = MP_LOG_FORMAT_JSON")
  case True
  then show ?thesis
    using json_line_visible [of config r] by (simp add: record_line_def line_char_def visible_def list_all_iff)
next
  case False
  have "list_all (\<lambda>c. \<not> iscntrl c) (text_line config r)"
    by (rule text_line_chars)
      (use assms in \<open>auto simp: list_all_iff [of "valid_field config"] valid_field_def intro!: valid_key_not_iscntrl\<close>)
  with False show ?thesis by (simp add: record_line_def line_char_def list_all_iff)
qed

section \<open>Properties\<close>

text \<open>
  C1: the worker empties the queue and then stops, or waits when no shutdown was requested. Each
  record that was waiting is rendered once and, in queue order, its line is appended to the
  output of every stream that writes to a file or a standard stream and accepts its level. The
  other streams may fail or succeed as they like, as long as they leave that output alone.
\<close>

theorem worker_drain_delivers:
  assumes "worker_ready l w" and "streams l = ss1 @ s # ss2" and "writes_to out s os" and "os_fault os = (\<lambda>_. None)"
    and "backup_leaves out l os" and "list_all (stream_leaves out) (ss1 @ ss2)"
  shows "\<exists>l' w' os' rs. worker_drain (l, w, os) = (shutdown_requested l, l', w', os') \<and>
    queue_view l' = [] \<and> processed_records_total l' = processed_records_total l + queue_count l \<and>
    map view_of rs = queue_view l \<and>
    os_output os' out = os_output os out @
      concat (map (\<lambda>r. if mp_logger_level_in_range (level r) (minimum_level s) (maximum_level s)
        then take (unat (mp_logger_render_capacity (logger_config l)) - 1) (record_line (logger_config l) r) @ [CHR 0x0A]
        else []) rs)"
proof -
  obtain l' w' os' where drain: "worker_drain (l, w, os) = (shutdown_requested l, l', w', os')" "queue_count l' = 0"
      "processed_records_total l' = processed_records_total l + queue_count l"
    using worker_drain_ends [OF assms(1)] by metis
  have "list_all (stream_leaves out) ss1" "list_all (stream_leaves out) ss2" using assms(6) by simp_all
  from worker_drain_output [OF assms(1-5) this drain(1)] obtain rs where
      "map view_of rs = queue_view l" "os_output os' out = os_output os out @ concat (map (delivered_text (logger_config l) s) rs)"
    by (auto simp: appends_line_def)
  moreover have "queue_view l' = []" using drain(2) queue_view_nonempty by blast
  ultimately show ?thesis using drain(1,3) unfolding delivered_text_def by blast
qed

text \<open>
  C15: the worker thread of a logger that is shutting down ends, whatever calls of the system
  fail. Everything it allocated is released, nothing is used after its release, and unless its
  buffers could not be allocated the queue is empty at its end and every record was processed.
\<close>

theorem worker_main_ends:
  assumes "os_wf os" and "logger_ready l" and "backup_ready l os" and "streams_keep os (streams l)"
    and "shutdown_requested l"
  shows "\<exists>l' os'. mp_logger_worker_main l os = (l', None, os') \<and> acquired {} os os' \<and> same_settings l l' \<and>
    (if fst (worker_start l os) = None then l' = l
     else queue_view l' = [] \<and> processed_records_total l' = processed_records_total l + queue_count l)"
  by (rule worker_main_spec [OF assms])

text \<open>
  C29: dropped records are reported once: the worker writes a warning with the whole text of the
  total exactly when a drop counter has grown since it was last seen, and asking again at once
  writes nothing.
\<close>

theorem drop_counters_reported:
  shows "case mp_logger_flush_drop_counters l (busy, full) os of (seen, os') \<Rightarrow>
    seen = (max busy (dropped_busy_total l), max full (dropped_full_total l)) \<and>
    mp_logger_flush_drop_counters l seen os' = (seen, os') \<and>
    (\<exists>m1 m2. cstr m1 = dropped_busy_message (dropped_busy_total l) \<and> cstr m2 = dropped_full_message (dropped_full_total l) \<and>
      os' =
        (let os1 = if busy < dropped_busy_total l then mp_logger_backup_write l ''WARNING'' m1 os else os
         in if full < dropped_full_total l then mp_logger_backup_write l ''WARNING'' m2 os1 else os1))"
proof -
  have nul: "NUL \<notin> set (show_uint64 n)" for n
    using show_nat_digits [of "unat n"] by (auto simp: show_uint64_def list_all_iff dest: bspec)
  have msgs: "cstr (snprintf (zeros 128) 128 (dropped_busy_message n)) = dropped_busy_message n"
    "cstr (snprintf (zeros 128) 128 (dropped_full_message n)) = dropped_full_message n" for n
    using length_show_uint64 [of n] nul [of n]
    by (simp_all add: cstr_snprintf dropped_busy_message_def dropped_full_message_def)
  show ?thesis
    using msgs by (auto simp: mp_logger_flush_drop_counters_def Let_def max_def not_less intro: exI)
qed

text \<open>A logger with the default config, one stream on stdout, and one record waiting.\<close>

definition stdout_state :: mp_file_stream_state where
  "stdout_state = \<lparr>file_handle = Some Stdout, file_path = zeros MP_LOGGER_PATH_CAPACITY, close_on_destroy = False,
     file_block = 0\<rparr>"

definition stdout_stream :: "'a mp_logger_stream" where
  "stdout_stream =
     make_stream ''stdout'' MP_LOG_LEVEL_TRACE MP_LOG_LEVEL_INFO (mp_logger_write_file_stream (Some stdout_state))
       (mp_logger_destroy_file_stream (Some stdout_state))"

definition hello_call :: log_call where
  "hello_call = \<lparr>call_level = MP_LOG_LEVEL_INFO, call_message = ''hello'', call_context = None,
     call_fields_ptr = None, call_field_count = 0\<rparr>"

definition idle_logger :: "unit mp_logger" where
  "idle_logger = (ready_logger mp_logger_config_init_defaults)\<lparr>streams := [stdout_stream],
     render_capacity := mp_logger_render_capacity mp_logger_config_init_defaults\<rparr>"

lemma ring_ok_settings [simp]:
  "ring_ok (l\<lparr>streams := ss\<rparr>) = ring_ok l" "ring_ok (l\<lparr>render_capacity := n\<rparr>) = ring_ok l"
  "ring_ok (l\<lparr>shutdown_requested := b\<rparr>) = ring_ok l"
  "queue_view (l\<lparr>streams := ss\<rparr>) = queue_view l" "queue_view (l\<lparr>render_capacity := n\<rparr>) = queue_view l"
  "queue_view (l\<lparr>shutdown_requested := b\<rparr>) = queue_view l"
  by (simp_all add: ring_ok_def queue_view_def ring_index_def Let_def)

lemma render_bounds_normalize [simp]:
  "render_bound (normalize_config c) = render_bound c"
  "mp_logger_render_capacity (normalize_config c) = mp_logger_render_capacity c"
  by (simp_all add: render_bound_def mp_logger_render_capacity_def)

lemma default_render_bound [simp]: "render_bound mp_logger_config_init_defaults = 3712"
  by (simp add: render_bound_def mp_logger_config_init_defaults_def)

lemma idle_logger_ready: "logger_ready idle_logger"
  using ring_ok_ready [OF defaults_capacities] config_inv_defaults
  by (simp add: logger_ready_def idle_logger_def config_inv_def wf_normalize)

lemma stdout_stream_writes: "writes_to Stdout_Output stdout_stream os"
  by (auto simp: writes_to_def stdout_stream_def stdout_state_def handle_output_def intro!: exI [of _ stdout_state])

theorem worker_drain_delivers_witness:
  "\<exists>w l' w' os' r. worker_drain (admit_record None hello_call idle_logger, w, sound_os) = (False, l', w', os') \<and>
    ostr (message r) = ''hello'' \<and>
    os_output os' Stdout_Output = take 3711 (record_line (normalize_config mp_logger_config_init_defaults) r) @ [CHR 0x0A]"
proof -
  let ?c = "normalize_config mp_logger_config_init_defaults"
  define l where "l = admit_record None hello_call idle_logger"
  define w where "w = \<lparr>worker_scratch = new_scratch ?c, render_buffer = zeros 3712, worker_last = (0, 0), worker_blocks = []\<rparr>"
  have idle: "ring_ok idle_logger" "logger_config idle_logger = ?c" "queue_count idle_logger = 0"
      "queued_records_total idle_logger = 0" "streams idle_logger = [stdout_stream]"
      "render_capacity idle_logger = mp_logger_render_capacity ?c" "shutdown_requested idle_logger = False"
      "backup_fd idle_logger = None"
    using idle_logger_ready
    by (simp_all add: logger_ready_def, simp_all add: idle_logger_def)
      (simp add: ready_logger_def configured_logger_def zeroed_logger_def)
  have cap: "buffer_capacity ?c = 1024" "message_capacity ?c = 512" by (simp_all add: mp_logger_config_init_defaults_def)
  have call: "call_ok hello_call ?c"
    by (simp add: call_ok_def hello_call_def fields_readable_def mp_logger_validate_fields_def)
  have admitted: "ring_ok l" "queue_view l = queue_view idle_logger @ [call_view ?c 1 None hello_call]"
    using admit_record_ring [OF idle(1), of hello_call None] idle call cap by (simp_all add: l_def)
  have "queue_view idle_logger = []" using queue_view_nonempty idle(3) by blast
  then have view: "queue_view l = [call_view ?c 1 None hello_call]" by (simp add: admitted(2))
  have l: "logger_config l = ?c" "streams l = [] @ stdout_stream # []" "render_capacity l = mp_logger_render_capacity ?c"
      "shutdown_requested l = False" "backup_fd l = None"
    using idle by (simp_all add: l_def) (simp_all add: admit_record_def Let_def)
  have bound: "unat (mp_logger_render_capacity ?c) = 3712" by (simp add: unat_render_capacity)
  have "wf_config ?c" using config_inv_defaults by (simp add: config_inv_def wf_normalize)
  then have ready: "worker_ready l w"
    using admitted(1) l bound wf_new_scratch [of ?c] by (simp add: worker_ready_def ring_inv_def w_def)
  have none: "os_fault sound_os = (\<lambda>_. None)" "os_output sound_os Stdout_Output = []" by (simp_all add: sound_os_def)
  have "backup_leaves Stdout_Output l sound_os" by (simp add: backup_leaves_def)
  from worker_drain_delivers [OF ready l(2) stdout_stream_writes none(1) this] obtain l' w' os' rs where
      r: "worker_drain (l, w, sound_os) = (shutdown_requested l, l', w', os')" "map view_of rs = queue_view l"
        "os_output os' Stdout_Output = os_output sound_os Stdout_Output @ concat (map (\<lambda>r. if mp_logger_level_in_range (level r)
          (minimum_level (stdout_stream :: unit mp_logger_stream)) (maximum_level (stdout_stream :: unit mp_logger_stream))
          then take (unat (mp_logger_render_capacity (logger_config l)) - 1) (record_line (logger_config l) r) @ [CHR 0x0A] else []) rs)"
    by auto
  from r(2) view obtain x where x: "rs = [x]" "view_of x = call_view ?c 1 None hello_call" by auto
  then have "level x = MP_LOG_LEVEL_INFO" "ostr (message x) = ''hello''"
    using cap(2) by (simp_all add: view_of_def call_view_def hello_call_def cstr_Cons)
  moreover have "minimum_level (stdout_stream :: unit mp_logger_stream) = MP_LOG_LEVEL_TRACE"
      "maximum_level (stdout_stream :: unit mp_logger_stream) = MP_LOG_LEVEL_INFO"
    by (simp_all add: stdout_stream_def)
  ultimately have "os_output os' Stdout_Output = take 3711 (record_line ?c x) @ [CHR 0x0A]" "ostr (message x) = ''hello''"
    using r(3) x(1) by (simp_all add: mp_logger_level_in_range_def l(1) bound [simplified] none(2))
  moreover have "worker_drain (l, w, sound_os) = (False, l', w', os')" using r(1) l(4) by simp
  ultimately show ?thesis unfolding l_def by blast
qed

theorem worker_main_ends_witness:
  "\<exists>l' os'. mp_logger_worker_main (idle_logger\<lparr>shutdown_requested := True\<rparr>) sound_os = (l', None, os') \<and>
    os_resources os' = (\<lambda>_. None)"
proof -
  have keep: "streams_keep sound_os [stdout_stream]"
    using write_file_stream_keeps(1) [of stdout_state]
    by (auto simp: streams_keep_def stdout_stream_def file_ready_def stdout_state_def)
  have "logger_ready (idle_logger\<lparr>shutdown_requested := True\<rparr>)"
    using idle_logger_ready by (simp add: logger_ready_def)
  moreover have "streams idle_logger = [stdout_stream]" by (simp add: idle_logger_def)
  moreover have "backup_ready (idle_logger\<lparr>shutdown_requested := True\<rparr>) sound_os"
    by (simp add: backup_ready_def idle_logger_def ready_logger_def configured_logger_def zeroed_logger_def)
  ultimately have "\<exists>l' os'. mp_logger_worker_main (idle_logger\<lparr>shutdown_requested := True\<rparr>) sound_os = (l', None, os') \<and>
      acquired {} sound_os os'"
    using worker_main_ends [of sound_os "idle_logger\<lparr>shutdown_requested := True\<rparr>"] keep by auto
  then show ?thesis by (auto simp: acquired_empty sound_os_def)
qed

text \<open>
  C27: a record cannot forge another line. Whatever bytes the message, the context and the string
  values of an accepted call hold, the line that the renderer leaves in the buffer for the record
  the worker reads back holds no byte below the space, so neither a line break nor an
  \<open>ESC\<close>; in the text format it holds no control character at all, \<open>DEL\<close>
  included. The keys are rendered as they are in the text format: their part is that the call has
  passed \<open>mp_logger_validate_fields\<close>. The bound on the capacities keeps the length of the escaped
  line inside a \<open>size_t\<close>.
\<close>

theorem record_line_single:
  assumes "capacities_ok config" and "wf_config config" and "6 * render_bound config < 2 ^ 64 - 1"
    and "wf_slot config slot" and "wf_scratch config sc" and "fields_readable fields_ptr count"
    and "mp_logger_validate_fields (Some config) fields_ptr count = MP_LOG_STATUS_OK"
    and "0 < capacity" and "unat capacity \<le> length buffer"
  shows "let slot' = fill_slot config slot seq now lvl msg ctx fields_ptr count;
      (r, sc') = mp_logger_copy_record_from_slot config slot' sc;
      (b, n) = mp_logger_render_record (Some config) (Some r) buffer capacity in
    n = strlen b \<and> n < unat capacity \<and>
    (\<forall>c. c \<in> set (cstr b) \<longrightarrow>
       (if format config = MP_LOG_FORMAT_JSON then 0x20 \<le> char_code c else \<not> iscntrl c))"
proof -
  define slot' where "slot' = fill_slot config slot seq now lvl msg ctx fields_ptr count"
  obtain r sc' where copy: "mp_logger_copy_record_from_slot config slot' sc = (r, sc')"
    by (metis surj_pair)
  note acc = accepted_fields [OF assms(6,7)]
  have "list_all (valid_field config) (call_fields fields_ptr count)"
    using acc(3) by (simp add: valid_fields_def)
  note filled = fill_slot_spec(1) [OF assms(4,1) acc(1,2) this slot'_def]
  note spec = copy_record_spec [OF filled assms(5,1) copy]
  let ?t = "take (unat capacity - 1) (record_line config r)"
  have "length (record_line config r) < 2 ^ 64 - 1"
    using length_record_line [OF filled_record_fits [OF filled assms(2,1) spec(5,6,4,3)]] assms(3) by simp
  note render = render_record_eq [OF assms(8,9) this]
  have "NUL \<notin> set ?t" by (meson NUL_notin_record_line in_set_takeD)
  then have line: "cstr (overwrite buffer 0 (?t @ [NUL])) = ?t" by (rule cstr_overwrite_0)
  have "line_char config c" if "c \<in> set ?t" for c
    using record_line_chars [OF spec(3)] that by (auto simp: list_all_iff dest: in_set_takeD)
  moreover have "0 < unat capacity" using assms(8) by (simp add: word_pos_unat)
  ultimately show ?thesis
    by (auto simp: copy render line [unfolded One_nat_def] strlen_def line_char_def min.commute simp flip: slot'_def)
qed

definition forging_fields :: "mp_log_field list" where
  "forging_fields = [mp_log_field_string (Some ''key'') (Some [CHR 0x0A, CHR 0x1B])]"

theorem record_line_single_witness:
  "\<exists>r sc' b n. mp_logger_copy_record_from_slot mp_logger_config_init_defaults
     (fill_slot mp_logger_config_init_defaults (fresh_slot mp_logger_config_init_defaults) 1 0 MP_LOG_LEVEL_INFO
       [CHR ''a'', CHR 0x0A, CHR ''b''] (Some [CHR 0x0D]) (Some forging_fields) 1)
     (fresh_scratch mp_logger_config_init_defaults) = (r, sc') \<and>
   mp_logger_render_record (Some mp_logger_config_init_defaults) (Some r) (zeros 512) 512 = (b, n) \<and>
   CHR 0x0A \<notin> set (cstr b) \<and> CHR 0x0D \<notin> set (cstr b) \<and> CHR 0x1B \<notin> set (cstr b)"
proof -
  let ?d = mp_logger_config_init_defaults
  let ?slot = "fill_slot ?d (fresh_slot ?d) 1 0 MP_LOG_LEVEL_INFO [CHR ''a'', CHR 0x0A, CHR ''b''] (Some [CHR 0x0D])
    (Some forging_fields) 1"
  have caps: "capacities_ok ?d" by (simp add: capacities_ok_def mp_logger_config_init_defaults_def)
  have wf: "wf_config ?d" using config_inv_defaults by (simp add: config_inv_def)
  have bound: "6 * render_bound ?d < 2 ^ 64 - 1"
    by (simp add: render_bound_def mp_logger_config_init_defaults_def)
  have fields: "fields_readable (Some forging_fields) 1"
    by (simp add: fields_readable_def forging_fields_def)
  moreover have "valid_fields ?d forging_fields" "1 \<le> field_capacity ?d"
    by (simp_all add: valid_fields_def forging_fields_def valid_field_def valid_key_def mp_log_field_string_def ostr_def
        cstr_Cons reserved_keys_def key_char_def ctype_defs char_code_def string_fits_def
        mp_logger_config_init_defaults_def)
  ultimately have valid: "mp_logger_validate_fields (Some ?d) (Some forging_fields) 1 = MP_LOG_STATUS_OK"
    by (simp add: validate_fields_iff forging_fields_def)
  obtain r sc' where copy: "mp_logger_copy_record_from_slot ?d ?slot (fresh_scratch ?d) = (r, sc')" by (metis surj_pair)
  obtain b n where render: "mp_logger_render_record (Some ?d) (Some r) (zeros 512) 512 = (b, n)" by (metis surj_pair)
  have "\<forall>c. c \<in> set (cstr b) \<longrightarrow> 0x20 \<le> char_code c"
    using record_line_single [OF caps wf bound wf_fresh fields valid, where capacity = 512 and buffer = "zeros 512" and seq = 1 and now = 0
        and lvl = MP_LOG_LEVEL_INFO and msg = "[CHR ''a'', CHR 0x0A, CHR ''b'']" and ctx = "Some [CHR 0x0D]"]
    by (simp add: Let_def copy render) (simp add: mp_logger_config_init_defaults_def)
  then show ?thesis
    using copy render by (auto simp: char_code_def)
qed

end
