(* ===== verification/Logger_Threads.thy ===== *)
theory Logger_Threads
  imports Logger_Worker
begin

text \<open>
  The interleavings of any number of threads that log, the worker thread and a thread that shuts
  the logger down (\<open>mp_logger_enqueue_record\<close>, \<open>mp_logger_worker_main\<close> and
  \<open>mp_logger_shutdown\<close> in \<open>src/mp_logger.c\<close>): the program points between two accesses
  to shared state, the queue mutex, the condition variable and the shutdown flag.
\<close>

section \<open>States\<close>

text \<open>
  A log call: entered, past the test of the flag, holding the mutex, with its sequence number,
  with its slot filled, with the record in the queue, after the unlock, on its way to count a
  drop, and back with a status. The last four carry the record as the specification sees it.
\<close>

datatype producer =
    P_Idle
  | P_Enter log_call
  | P_Try log_call
  | P_Locked log_call
  | P_Numbered log_call uint64_t
  | P_Filled record_view
  | P_Unlock record_view
  | P_Signal record_view
  | P_Busy
  | P_Full
  | P_Done mp_log_status_t

text \<open>
  The worker: before the lock, holding the mutex before the test, about to wait (it still holds
  the mutex), asleep, woken, holding the mutex with a record taken, with the record before and
  after the delivery, about to leave the loop (holding the mutex), and ended.
\<close>

datatype worker_point =
    W_Lock
  | W_Test
  | W_Wait
  | W_Asleep
  | W_Woken
  | W_Unlock mp_log_record
  | W_Deliver mp_log_record
  | W_Count mp_log_record
  | W_Exit
  | W_Ended

datatype controller = C_Idle | C_Signal | C_Join | C_Done

datatype actor = Producer nat | Worker | Controller | Spurious

text \<open>
  \<open>owner\<close> is the thread that holds the queue mutex. The last four fields are histories that no
  step reads: the records put into the queue, taken from it and delivered, and the records of
  the calls that have returned \<open>OK\<close>.
\<close>

record 'a conc =
  shared :: "'a mp_logger"
  owner :: "actor option"
  producers :: "nat \<Rightarrow> producer"
  worker_point :: worker_point
  worker_local :: worker
  controller :: controller
  outside :: "'a os"
  accepted :: "record_view list"
  taken :: "record_view list"
  delivered :: "record_view list"
  returned :: "record_view list"

section \<open>Parts of a log call\<close>

text \<open>The three parts of what a call does under the mutex, one after the other.\<close>

definition fill_tail :: "(int \<times> int) option \<Rightarrow> log_call \<Rightarrow> uint64_t \<Rightarrow> 'a mp_logger \<Rightarrow> 'a mp_logger" where
  "fill_tail now call seq logger =
     logger\<lparr>slots := (slots logger)[unat (queue_tail logger) :=
       fill_slot (logger_config logger) (slots logger ! unat (queue_tail logger)) seq (mp_logger_now_millis now)
         (call_level call) (call_message call) (call_context call) (call_fields_ptr call) (call_field_count call)]\<rparr>"

definition publish_tail :: "'a mp_logger \<Rightarrow> 'a mp_logger" where
  "publish_tail logger =
     logger\<lparr>queue_tail := (queue_tail logger + 1) mod buffer_capacity (logger_config logger),
       queue_count := queue_count logger + 1\<rparr>"

definition lock :: "actor \<Rightarrow> 'a conc \<Rightarrow> 'a conc" where
  "lock a s = s\<lparr>owner := Some a, shared := (shared s)\<lparr>queue_mutex := True\<rparr>\<rparr>"

definition unlock :: "'a conc \<Rightarrow> 'a conc" where
  "unlock s = s\<lparr>owner := None, shared := (shared s)\<lparr>queue_mutex := False\<rparr>\<rparr>"

definition signal :: "'a conc \<Rightarrow> 'a conc" where
  "signal s = (if worker_point s = W_Asleep then s\<lparr>worker_point := W_Woken\<rparr> else s)"

definition goto :: "nat \<Rightarrow> producer \<Rightarrow> 'a conc \<Rightarrow> 'a conc" where
  "goto t p s = s\<lparr>producers := (producers s)(t := p)\<rparr>"

section \<open>Steps\<close>

inductive producer_step :: "nat \<Rightarrow> 'a conc \<Rightarrow> 'a conc \<Rightarrow> bool" for t where
  enter: "producers s t = P_Idle \<or> producers s t = P_Done st \<Longrightarrow>
    fields_readable (call_fields_ptr call) (call_field_count call) \<Longrightarrow> producer_step t s (goto t (P_Enter call) s)"
| invalid: "producers s t = P_Enter call \<Longrightarrow>
    mp_logger_validate_fields (Some (logger_config (shared s))) (call_fields_ptr call) (call_field_count call) = st \<Longrightarrow>
    st \<noteq> MP_LOG_STATUS_OK \<Longrightarrow> producer_step t s (goto t (P_Done st) s)"
| stopped: "producers s t = P_Enter call \<Longrightarrow>
    mp_logger_validate_fields (Some (logger_config (shared s))) (call_fields_ptr call) (call_field_count call) = MP_LOG_STATUS_OK \<Longrightarrow>
    shutdown_requested (shared s) \<Longrightarrow> producer_step t s (goto t (P_Done MP_LOG_STATUS_NOT_RUNNING) s)"
| pass: "producers s t = P_Enter call \<Longrightarrow>
    mp_logger_validate_fields (Some (logger_config (shared s))) (call_fields_ptr call) (call_field_count call) = MP_LOG_STATUS_OK \<Longrightarrow>
    \<not> shutdown_requested (shared s) \<Longrightarrow> producer_step t s (goto t (P_Try call) s)"
| busy: "producers s t = P_Try call \<Longrightarrow> queue_mutex (shared s) \<Longrightarrow> producer_step t s (goto t P_Busy s)"
| count_busy: "producers s t = P_Busy \<Longrightarrow>
    producer_step t s (goto t (P_Done MP_LOG_STATUS_BUSY)
      (s\<lparr>shared := (shared s)\<lparr>dropped_busy_total := dropped_busy_total (shared s) + 1\<rparr>\<rparr>))"
| acquire: "producers s t = P_Try call \<Longrightarrow> \<not> queue_mutex (shared s) \<Longrightarrow>
    producer_step t s (goto t (P_Locked call) (lock (Producer t) s))"
| full: "producers s t = P_Locked call \<Longrightarrow> queue_count (shared s) \<ge> buffer_capacity (logger_config (shared s)) \<Longrightarrow>
    producer_step t s (goto t P_Full (unlock s))"
| count_full: "producers s t = P_Full \<Longrightarrow>
    producer_step t s (goto t (P_Done MP_LOG_STATUS_QUEUE_FULL)
      (s\<lparr>shared := (shared s)\<lparr>dropped_full_total := dropped_full_total (shared s) + 1\<rparr>\<rparr>))"
| number: "producers s t = P_Locked call \<Longrightarrow> queue_count (shared s) < buffer_capacity (logger_config (shared s)) \<Longrightarrow>
    producer_step t s (goto t (P_Numbered call (queued_records_total (shared s) + 1))
      (s\<lparr>shared := (shared s)\<lparr>queued_records_total := queued_records_total (shared s) + 1\<rparr>\<rparr>))"
| fill: "producers s t = P_Numbered call seq \<Longrightarrow>
    producer_step t s (goto t (P_Filled (call_view (logger_config (shared s)) seq now call))
      (s\<lparr>shared := fill_tail now call seq (shared s)\<rparr>))"
| publish: "producers s t = P_Filled v \<Longrightarrow>
    producer_step t s (goto t (P_Unlock v) (s\<lparr>shared := publish_tail (shared s), accepted := accepted s @ [v]\<rparr>))"
| release: "producers s t = P_Unlock v \<Longrightarrow> producer_step t s (goto t (P_Signal v) (unlock s))"
| notify: "producers s t = P_Signal v \<Longrightarrow>
    producer_step t s (goto t (P_Done MP_LOG_STATUS_OK) (signal (s\<lparr>returned := returned s @ [v]\<rparr>)))"

text \<open>
  The delivery reports the drop counters and hands the rendered line to the streams, as
  \<open>worker_round\<close> does.
\<close>

inductive worker_step :: "'a conc \<Rightarrow> 'a conc \<Rightarrow> bool" where
  acquire: "worker_point s \<in> {W_Lock, W_Woken} \<Longrightarrow> \<not> queue_mutex (shared s) \<Longrightarrow>
    worker_step s (lock Worker s\<lparr>worker_point := W_Test\<rparr>)"
| idle: "worker_point s = W_Test \<Longrightarrow> queue_count (shared s) = 0 \<Longrightarrow> \<not> shutdown_requested (shared s) \<Longrightarrow>
    worker_step s (s\<lparr>worker_point := W_Wait\<rparr>)"
| sleep: "worker_point s = W_Wait \<Longrightarrow> worker_step s (unlock s\<lparr>worker_point := W_Asleep\<rparr>)"
| take: "worker_point s = W_Test \<Longrightarrow> queue_count (shared s) \<noteq> 0 \<Longrightarrow>
    take_record (shared s, worker_scratch (worker_local s)) = (r, l, sc) \<Longrightarrow>
    worker_step s (s\<lparr>worker_point := W_Unlock r, shared := l, worker_local := (worker_local s)\<lparr>worker_scratch := sc\<rparr>,
      taken := taken s @ [view_of r]\<rparr>)"
| release: "worker_point s = W_Unlock r \<Longrightarrow> worker_step s (unlock s\<lparr>worker_point := W_Deliver r\<rparr>)"
| deliver: "worker_point s = W_Deliver r \<Longrightarrow>
    mp_logger_flush_drop_counters (shared s) (worker_last (worker_local s)) (outside s) = (seen, os1) \<Longrightarrow>
    deliver_record (shared s) r ((worker_local s)\<lparr>worker_last := seen\<rparr>) os1 = (w, os2) \<Longrightarrow>
    worker_step s (s\<lparr>worker_point := W_Count r, worker_local := w, outside := os2\<rparr>)"
| count: "worker_point s = W_Count r \<Longrightarrow>
    worker_step s (s\<lparr>worker_point := W_Lock, delivered := delivered s @ [view_of r],
      shared := (shared s)\<lparr>processed_records_total := processed_records_total (shared s) + 1\<rparr>\<rparr>)"
| leave: "worker_point s = W_Test \<Longrightarrow> queue_count (shared s) = 0 \<Longrightarrow> shutdown_requested (shared s) \<Longrightarrow>
    worker_step s (s\<lparr>worker_point := W_Exit\<rparr>)"
| finish: "worker_point s = W_Exit \<Longrightarrow>
    worker_step s (unlock s\<lparr>worker_point := W_Ended, outside := worker_finish (shared s) (worker_local s) (outside s)\<rparr>)"

text \<open>The flag and the signal of a shutdown do not take the mutex; then the join waits for the worker.\<close>

inductive controller_step :: "'a conc \<Rightarrow> 'a conc \<Rightarrow> bool" where
  request: "controller s = C_Idle \<Longrightarrow>
    controller_step s (s\<lparr>controller := C_Signal, shared := (shared s)\<lparr>shutdown_requested := True\<rparr>\<rparr>)"
| notify: "controller s = C_Signal \<Longrightarrow> controller_step s (signal s\<lparr>controller := C_Join\<rparr>)"
| join: "controller s = C_Join \<Longrightarrow> worker_point s = W_Ended \<Longrightarrow>
    controller_step s (s\<lparr>controller := C_Done, shared := (shared s)\<lparr>worker_started := False\<rparr>\<rparr>)"

text \<open>\<open>pthread_cond_wait\<close> may also return without a signal.\<close>

inductive step :: "actor \<Rightarrow> 'a conc \<Rightarrow> 'a conc \<Rightarrow> bool" where
  producer: "producer_step t s s' \<Longrightarrow> step (Producer t) s s'"
| worker: "worker_step s s' \<Longrightarrow> step Worker s s'"
| controller: "controller_step s s' \<Longrightarrow> step Controller s s'"
| spurious: "worker_point s = W_Asleep \<Longrightarrow> step Spurious s (s\<lparr>worker_point := W_Woken\<rparr>)"

text \<open>Runs by the steps of some actors.\<close>

inductive run :: "actor set \<Rightarrow> 'a conc \<Rightarrow> 'a conc \<Rightarrow> bool" for A where
  refl [simp]: "run A s s"
| step: "run A s s1 \<Longrightarrow> a \<in> A \<Longrightarrow> step a s1 s2 \<Longrightarrow> run A s s2"

text \<open>The start: the worker thread of a running logger with an empty queue and zero counters.\<close>

definition started :: "'a conc \<Rightarrow> bool" where
  "started s \<longleftrightarrow>
     ring_ok (shared s) \<and> wf_scratch (logger_config (shared s)) (worker_scratch (worker_local s)) \<and>
     queue_count (shared s) = 0 \<and> \<not> queue_mutex (shared s) \<and> \<not> shutdown_requested (shared s) \<and>
     queued_records_total (shared s) = 0 \<and> processed_records_total (shared s) = 0 \<and>
     owner s = None \<and> producers s = (\<lambda>_. P_Idle) \<and> worker_point s = W_Lock \<and> controller s = C_Idle \<and>
     accepted s = [] \<and> taken s = [] \<and> delivered s = [] \<and> returned s = []"

inductive_cases stepE: "step a s s'"

lemma run_preserves:
  assumes "run A s s'" and "\<And>a s s'. a \<in> A \<Longrightarrow> step a s s' \<Longrightarrow> P s \<Longrightarrow> P s'" and "P s"
  shows "P s'"
  using assms by (induction rule: run.induct) blast+

lemmas move_defs = goto_def lock_def unlock_def signal_def

section \<open>The mutex\<close>

fun producer_holds :: "producer \<Rightarrow> bool" where
  "producer_holds (P_Locked _) = True"
| "producer_holds (P_Numbered _ _) = True"
| "producer_holds (P_Filled _) = True"
| "producer_holds (P_Unlock _) = True"
| "producer_holds _ = False"

fun worker_holds :: "worker_point \<Rightarrow> bool" where
  "worker_holds W_Test = True"
| "worker_holds W_Wait = True"
| "worker_holds (W_Unlock _) = True"
| "worker_holds W_Exit = True"
| "worker_holds _ = False"

text \<open>The thread at a program point that holds the mutex is the owner, and there is no other.\<close>

definition mutex_ok :: "'a conc \<Rightarrow> bool" where
  "mutex_ok s \<longleftrightarrow>
     (\<forall>t. producer_holds (producers s t) \<longleftrightarrow> owner s = Some (Producer t)) \<and>
     (worker_holds (worker_point s) \<longleftrightarrow> owner s = Some Worker) \<and>
     owner s \<noteq> Some Controller \<and> owner s \<noteq> Some Spurious \<and> (queue_mutex (shared s) \<longleftrightarrow> owner s \<noteq> None)"

lemma mutex_okD:
  assumes "mutex_ok s"
  shows "producer_holds (producers s t) = (owner s = Some (Producer t))" "worker_holds (worker_point s) = (owner s = Some Worker)"
    "queue_mutex (shared s) = (owner s \<noteq> None)" "owner s \<noteq> Some Controller" "owner s \<noteq> Some Spurious"
  using assms by (simp_all add: mutex_ok_def)

lemma producer_step_mutex: "mutex_ok s \<Longrightarrow> producer_step t s s' \<Longrightarrow> mutex_ok s'"
  by (erule producer_step.cases; (erule disjE)?; frule mutex_okD(1) [of s t];
      auto simp: mutex_ok_def move_defs fill_tail_def publish_tail_def split: if_splits)

lemma take_record_mutex: "take_record (l, sc) = (r, l', sc') \<Longrightarrow> queue_mutex l' = queue_mutex l"
  by (auto dest: take_record_count)

lemma worker_step_mutex: "mutex_ok s \<Longrightarrow> worker_step s s' \<Longrightarrow> mutex_ok s'"
  by (erule worker_step.cases; frule mutex_okD(2);
      auto simp: mutex_ok_def move_defs take_record_mutex split: if_splits)

lemma controller_step_mutex: "mutex_ok s \<Longrightarrow> controller_step s s' \<Longrightarrow> mutex_ok s'"
  by (erule controller_step.cases) (auto simp: mutex_ok_def move_defs)



section \<open>The queue\<close>

text \<open>The queue does not depend on the flags and counters.\<close>

lemma ring_ok_conc [simp]:
  "ring_ok (l\<lparr>queue_mutex := b\<rparr>) = ring_ok l" "ring_ok (l\<lparr>worker_started := b\<rparr>) = ring_ok l"
  "ring_ok (l\<lparr>dropped_busy_total := n\<rparr>) = ring_ok l" "ring_ok (l\<lparr>dropped_full_total := n\<rparr>) = ring_ok l"
  "ring_ok (l\<lparr>queued_records_total := n\<rparr>) = ring_ok l" "ring_ok (l\<lparr>processed_records_total := n\<rparr>) = ring_ok l"
  by (simp_all add: ring_ok_def ring_index_def Let_def)

lemma queue_view_conc [simp]:
  "queue_view (l\<lparr>queue_mutex := b\<rparr>) = queue_view l" "queue_view (l\<lparr>worker_started := b\<rparr>) = queue_view l"
  "queue_view (l\<lparr>dropped_busy_total := n\<rparr>) = queue_view l" "queue_view (l\<lparr>dropped_full_total := n\<rparr>) = queue_view l"
  "queue_view (l\<lparr>queued_records_total := n\<rparr>) = queue_view l"
  by (simp_all add: queue_view_def ring_index_def Let_def)

lemma publish_conc [simp]:
  "publish_tail (l\<lparr>queue_mutex := b\<rparr>) = (publish_tail l)\<lparr>queue_mutex := b\<rparr>"
  "publish_tail (l\<lparr>worker_started := b\<rparr>) = (publish_tail l)\<lparr>worker_started := b\<rparr>"
  "publish_tail (l\<lparr>shutdown_requested := b\<rparr>) = (publish_tail l)\<lparr>shutdown_requested := b\<rparr>"
  "publish_tail (l\<lparr>dropped_busy_total := n\<rparr>) = (publish_tail l)\<lparr>dropped_busy_total := n\<rparr>"
  "publish_tail (l\<lparr>dropped_full_total := n\<rparr>) = (publish_tail l)\<lparr>dropped_full_total := n\<rparr>"
  "publish_tail (l\<lparr>processed_records_total := n\<rparr>) = (publish_tail l)\<lparr>processed_records_total := n\<rparr>"
  by (simp_all add: publish_tail_def)

lemma publish_simps [simp]: "logger_config (publish_tail l) = logger_config l"
  "queued_records_total (publish_tail l) = queued_records_total l" "shutdown_requested (publish_tail l) = shutdown_requested l"
  "logger_config (fill_tail now call seq l) = logger_config l"
  "queued_records_total (fill_tail now call seq l) = queued_records_total l"
  "processed_records_total (fill_tail now call seq l) = processed_records_total l"
  "processed_records_total (publish_tail l) = processed_records_total l"
  "queue_mutex (publish_tail l) = queue_mutex l" "queue_mutex (fill_tail now call seq l) = queue_mutex l"
  "queue_count (fill_tail now call seq l) = queue_count l"
  "shutdown_requested (fill_tail now call seq l) = shutdown_requested l"
  by (simp_all add: publish_tail_def fill_tail_def)

text \<open>The three parts of a call together are the admission of its record.\<close>

lemma publish_fill:
  "publish_tail (fill_tail now call (queued_records_total l) l) =
   admit_record now call (l\<lparr>queued_records_total := queued_records_total l - 1\<rparr>)"
  by (simp add: publish_tail_def fill_tail_def admit_record_def Let_def)

text \<open>
  What the owner of the mutex is about to add: a sequence number was drawn for it, or its slot
  is filled.
\<close>

fun pending_at :: "actor option \<Rightarrow> (nat \<Rightarrow> producer) \<Rightarrow> record_view option" where
  "pending_at (Some (Producer t)) ps = (case ps t of P_Filled v \<Rightarrow> Some v | _ \<Rightarrow> None)"
| "pending_at a ps = None"

fun drawn_at :: "actor option \<Rightarrow> (nat \<Rightarrow> producer) \<Rightarrow> bool" where
  "drawn_at (Some (Producer t)) ps = (case ps t of P_Numbered _ _ \<Rightarrow> True | P_Filled _ \<Rightarrow> True | _ \<Rightarrow> False)"
| "drawn_at a ps = False"

definition pending :: "'a conc \<Rightarrow> record_view option" where
  "pending s = pending_at (owner s) (producers s)"

definition drawn :: "'a conc \<Rightarrow> bool" where
  "drawn s = drawn_at (owner s) (producers s)"

lemma pending_at_update:
  "pending_at a (ps(t := p)) =
    (if a = Some (Producer t) then (case p of P_Filled v \<Rightarrow> Some v | _ \<Rightarrow> None) else pending_at a ps)"
  by (cases "(a, ps)" rule: pending_at.cases) auto

lemma drawn_at_update:
  "drawn_at a (ps(t := p)) =
    (if a = Some (Producer t) then (case p of P_Numbered _ _ \<Rightarrow> True | P_Filled _ \<Rightarrow> True | _ \<Rightarrow> False) else drawn_at a ps)"
  by (cases "(a, ps)" rule: drawn_at.cases) auto

fun queue_at :: "record_view option \<Rightarrow> 'a mp_logger \<Rightarrow> record_view list \<Rightarrow> record_view list \<Rightarrow> bool" where
  "queue_at None l tk acc \<longleftrightarrow> ring_ok l \<and> tk @ queue_view l = acc"
| "queue_at (Some v) l tk acc \<longleftrightarrow> ring_ok (publish_tail l) \<and> tk @ queue_view (publish_tail l) = acc @ [v]"

definition queue_ok :: "'a conc \<Rightarrow> bool" where
  "queue_ok s \<longleftrightarrow> queue_at (pending s) (shared s) (taken s) (accepted s)"

lemma queue_at_flags [simp]:
  "queue_at p (l\<lparr>queue_mutex := b\<rparr>) tk acc = queue_at p l tk acc"
  "queue_at p (l\<lparr>worker_started := b\<rparr>) tk acc = queue_at p l tk acc"
  "queue_at p (l\<lparr>shutdown_requested := b\<rparr>) tk acc = queue_at p l tk acc"
  "queue_at p (l\<lparr>dropped_busy_total := n\<rparr>) tk acc = queue_at p l tk acc"
  "queue_at p (l\<lparr>dropped_full_total := n\<rparr>) tk acc = queue_at p l tk acc"
  "queue_at p (l\<lparr>processed_records_total := n\<rparr>) tk acc = queue_at p l tk acc"
  by (cases p; simp)+

definition numbers_ok :: "'a conc \<Rightarrow> bool" where
  "numbers_ok s \<longleftrightarrow>
     queued_records_total (shared s) = of_nat (length (accepted s)) + (if drawn s then 1 else 0) \<and>
     map view_sequence_id (accepted s) = map (\<lambda>i. of_nat (i + 1)) [0..<length (accepted s)]"

fun producer_ok :: "'a mp_logger \<Rightarrow> record_view list \<Rightarrow> producer \<Rightarrow> bool" where
  "producer_ok l acc (P_Enter call) = fields_readable (call_fields_ptr call) (call_field_count call)"
| "producer_ok l acc (P_Try call) = call_ok call (logger_config l)"
| "producer_ok l acc (P_Locked call) = call_ok call (logger_config l)"
| "producer_ok l acc (P_Numbered call seq) =
     (call_ok call (logger_config l) \<and> seq = queued_records_total l \<and> queue_count l < buffer_capacity (logger_config l))"
| "producer_ok l acc (P_Filled v) =
     (view_sequence_id v = queued_records_total l \<and> queue_count l < buffer_capacity (logger_config l))"
| "producer_ok l acc (P_Unlock v) = (v \<in> set acc)"
| "producer_ok l acc (P_Signal v) = (v \<in> set acc)"
| "producer_ok l acc _ = True"

definition carried :: "worker_point \<Rightarrow> record_view list" where
  "carried p = (case p of W_Unlock r \<Rightarrow> [view_of r] | W_Deliver r \<Rightarrow> [view_of r] | W_Count r \<Rightarrow> [view_of r] | _ \<Rightarrow> [])"

definition worker_ok :: "'a conc \<Rightarrow> bool" where
  "worker_ok s \<longleftrightarrow>
     wf_scratch (logger_config (shared s)) (worker_scratch (worker_local s)) \<and>
     delivered s @ carried (worker_point s) = taken s \<and>
     processed_records_total (shared s) = of_nat (length (delivered s)) \<and>
     (worker_point s = W_Exit \<longrightarrow> queue_count (shared s) = 0) \<and>
     (worker_point s \<in> {W_Exit, W_Ended} \<longrightarrow> shutdown_requested (shared s))"

definition conc_inv :: "'a conc \<Rightarrow> bool" where
  "conc_inv s \<longleftrightarrow>
     mutex_ok s \<and> queue_ok s \<and> numbers_ok s \<and> worker_ok s \<and>
     (\<forall>t. producer_ok (shared s) (accepted s) (producers s t)) \<and> set (returned s) \<subseteq> set (accepted s)"

lemma conc_inv_started: "started s \<Longrightarrow> conc_inv s"
proof -
  assume s: "started s"
  then have "queue_view (shared s) = []" using queue_view_nonempty [of "shared s"] by (auto simp: started_def)
  then show ?thesis
    using s by (simp add: started_def conc_inv_def mutex_ok_def queue_ok_def pending_def numbers_ok_def drawn_def worker_ok_def
        carried_def)
qed

lemma pending_goto [simp]:
  "pending (goto t p s) = (if owner s = Some (Producer t) then (case p of P_Filled v \<Rightarrow> Some v | _ \<Rightarrow> None) else pending s)"
  by (simp add: pending_def goto_def pending_at_update)

lemma drawn_goto [simp]:
  "drawn (goto t p s) =
    (if owner s = Some (Producer t) then (case p of P_Numbered _ _ \<Rightarrow> True | P_Filled _ \<Rightarrow> True | _ \<Rightarrow> False) else drawn s)"
  by (simp add: drawn_def goto_def drawn_at_update)

lemma goto_simps [simp]:
  "shared (goto t p s) = shared s" "owner (goto t p s) = owner s" "producers (goto t p s) = (producers s)(t := p)"
  "worker_point (goto t p s) = worker_point s" "worker_local (goto t p s) = worker_local s"
  "controller (goto t p s) = controller s" "accepted (goto t p s) = accepted s" "taken (goto t p s) = taken s"
  "delivered (goto t p s) = delivered s" "returned (goto t p s) = returned s"
  by (simp_all add: goto_def)

lemma pending_simps [simp]:
  "pending (s\<lparr>shared := l\<rparr>) = pending s" "pending (s\<lparr>accepted := vs\<rparr>) = pending s" "pending (s\<lparr>taken := vs\<rparr>) = pending s"
  "pending (s\<lparr>returned := vs\<rparr>) = pending s" "pending (s\<lparr>delivered := vs\<rparr>) = pending s"
  "pending (s\<lparr>worker_point := p\<rparr>) = pending s" "pending (s\<lparr>worker_local := w\<rparr>) = pending s"
  "pending (s\<lparr>controller := c\<rparr>) = pending s" "pending (s\<lparr>outside := os\<rparr>) = pending s"
  "pending (unlock s) = None" "pending (lock Worker s) = None" "pending (signal s) = pending s"
  by (simp_all add: pending_def move_defs)

lemma drawn_simps [simp]:
  "drawn (s\<lparr>shared := l\<rparr>) = drawn s" "drawn (s\<lparr>accepted := vs\<rparr>) = drawn s" "drawn (s\<lparr>taken := vs\<rparr>) = drawn s"
  "drawn (s\<lparr>returned := vs\<rparr>) = drawn s" "drawn (s\<lparr>delivered := vs\<rparr>) = drawn s"
  "drawn (s\<lparr>worker_point := p\<rparr>) = drawn s" "drawn (s\<lparr>worker_local := w\<rparr>) = drawn s"
  "drawn (s\<lparr>controller := c\<rparr>) = drawn s" "drawn (s\<lparr>outside := os\<rparr>) = drawn s"
  "\<not> drawn (unlock s)" "\<not> drawn (lock Worker s)" "drawn (signal s) = drawn s"
  by (simp_all add: drawn_def move_defs)

lemma move_simps [simp]:
  "shared (lock a s) = (shared s)\<lparr>queue_mutex := True\<rparr>" "shared (unlock s) = (shared s)\<lparr>queue_mutex := False\<rparr>"
  "shared (signal s) = shared s" "owner (lock a s) = Some a" "owner (unlock s) = None" "owner (signal s) = owner s"
  "producers (lock a s) = producers s" "producers (unlock s) = producers s" "producers (signal s) = producers s"
  "worker_point (lock a s) = worker_point s" "worker_point (unlock s) = worker_point s"
  "worker_local (lock a s) = worker_local s" "worker_local (unlock s) = worker_local s" "worker_local (signal s) = worker_local s"
  "controller (lock a s) = controller s" "controller (unlock s) = controller s" "controller (signal s) = controller s"
  "accepted (lock a s) = accepted s" "accepted (unlock s) = accepted s" "accepted (signal s) = accepted s"
  "taken (lock a s) = taken s" "taken (unlock s) = taken s" "taken (signal s) = taken s"
  "delivered (lock a s) = delivered s" "delivered (unlock s) = delivered s" "delivered (signal s) = delivered s"
  "returned (lock a s) = returned s" "returned (unlock s) = returned s" "returned (signal s) = returned s"
  "worker_point (signal s) = (if worker_point s = W_Asleep then W_Woken else worker_point s)"
  by (simp_all add: move_defs)

text \<open>The owner of the mutex is at a point that holds it, and what it is about to add is seen there.\<close>

lemma owner_point:
  assumes "conc_inv s"
  shows "(owner s = Some (Producer t)) = producer_holds (producers s t)" "(owner s = Some Worker) = worker_holds (worker_point s)"
    "queue_mutex (shared s) = (owner s \<noteq> None)"
  using assms by (simp_all add: conc_inv_def mutex_ok_def)

lemma pending_owner: "owner s = Some (Producer t) \<Longrightarrow> pending s = (case producers s t of P_Filled v \<Rightarrow> Some v | _ \<Rightarrow> None)"
  and drawn_owner: "owner s = Some (Producer t) \<Longrightarrow>
    drawn s = (case producers s t of P_Numbered _ _ \<Rightarrow> True | P_Filled _ \<Rightarrow> True | _ \<Rightarrow> False)"
  by (simp_all add: pending_def drawn_def)

lemma pending_none: "owner s = None \<Longrightarrow> pending s = None" "owner s = Some Worker \<Longrightarrow> pending s = None"
    "owner s = None \<Longrightarrow> \<not> drawn s" "owner s = Some Worker \<Longrightarrow> \<not> drawn s"
  by (simp_all add: pending_def drawn_def)

lemma producer_step_queue:
  assumes "conc_inv s" and "producer_step t s s'"
  shows "queue_ok s'"
  using assms(2)
proof cases
  case (fill call seq now)
  have p: "producer_ok (shared s) (accepted s) (producers s t)"
    using assms(1) by (simp add: conc_inv_def del: producer_ok.simps)
  have own: "owner s = Some (Producer t)"
    using owner_point(1) [OF assms(1), of t] fill by simp
  then have q: "ring_ok (shared s)" "taken s @ queue_view (shared s) = accepted s"
    using assms(1) fill by (simp_all add: conc_inv_def queue_ok_def pending_owner)
  let ?l = "(shared s)\<lparr>queued_records_total := queued_records_total (shared s) - 1\<rparr>"
  have "ring_ok ?l" "call_ok call (logger_config ?l)" "unat (queue_count ?l) < unat (buffer_capacity (logger_config ?l))"
    using p q by (simp_all add: fill word_less_nat_alt)
  from admit_record_ring [OF this] show ?thesis
    using p q own by (simp add: fill(1) queue_ok_def) (simp add: fill publish_fill)
next
  case (publish v)
  have own: "owner s = Some (Producer t)" using owner_point(1) [OF assms(1), of t] publish by simp
  then have "pending s = Some v" by (simp add: pending_owner publish)
  then show ?thesis using assms(1) own by (simp add: conc_inv_def publish(1) queue_ok_def)
next
  case (acquire call)
  then have "pending s = None" using owner_point(3) [OF assms(1)] pending_none(1) by simp
  then show ?thesis using assms(1) by (simp add: conc_inv_def acquire(1) queue_ok_def)
next
  case (full call)
  then have "owner s = Some (Producer t)" using owner_point(1) [OF assms(1), of t] by simp
  then have "pending s = None" using full by (simp add: pending_owner)
  then show ?thesis using assms(1) by (simp add: conc_inv_def full(1) queue_ok_def)
next
  case (number call)
  then have "owner s = Some (Producer t)" using owner_point(1) [OF assms(1), of t] by simp
  then show ?thesis using assms(1) number(2) by (simp add: conc_inv_def number(1) queue_ok_def pending_owner)
next
  case (release v)
  then have "owner s = Some (Producer t)" using owner_point(1) [OF assms(1), of t] by simp
  then show ?thesis using assms(1) release(2) by (simp add: conc_inv_def release(1) queue_ok_def pending_owner)
next
  case (enter st call)
  then have "owner s \<noteq> Some (Producer t)" using owner_point(1) [OF assms(1), of t] by auto
  then show ?thesis using assms(1) by (simp add: conc_inv_def enter(1) queue_ok_def)
next
  case (count_busy)
  then have "owner s \<noteq> Some (Producer t)" using owner_point(1) [OF assms(1), of t] by simp
  then show ?thesis using assms(1) by (simp add: conc_inv_def count_busy(1) queue_ok_def)
next
  case (count_full)
  then have "owner s \<noteq> Some (Producer t)" using owner_point(1) [OF assms(1), of t] by simp
  then show ?thesis using assms(1) by (simp add: conc_inv_def count_full(1) queue_ok_def)
qed (use assms(1) owner_point(1) [OF assms(1), of t] in \<open>simp_all add: conc_inv_def queue_ok_def\<close>)

lemma producer_ok_keep:
  assumes "producer_ok l acc p" and "logger_config l' = logger_config l" and "set acc \<subseteq> set acc'"
    and "producer_holds p \<longrightarrow> queued_records_total l' = queued_records_total l \<and> queue_count l' = queue_count l"
  shows "producer_ok l' acc' p"
  using assms by (cases p) auto

lemma producer_step_shared:
  assumes "conc_inv s" and "producer_step t s s'"
  shows "logger_config (shared s') = logger_config (shared s)" "set (accepted s) \<subseteq> set (accepted s')"
    "owner s \<noteq> Some (Producer t) \<longrightarrow>
      queued_records_total (shared s') = queued_records_total (shared s) \<and> queue_count (shared s') = queue_count (shared s)"
    "t' \<noteq> t \<longrightarrow> producers s' t' = producers s t'"
    "taken s' = taken s" "delivered s' = delivered s" "worker_local s' = worker_local s"
    "processed_records_total (shared s') = processed_records_total (shared s)"
    "shutdown_requested (shared s') = shutdown_requested (shared s)"
    "worker_point s' = worker_point s \<or> worker_point s = W_Asleep \<and> worker_point s' = W_Woken"
    "owner s \<noteq> Some (Producer t) \<longrightarrow> queue_count (shared s') = queue_count (shared s)"
proof -
  note own = owner_point(1) [OF assms(1), of t]
  show "logger_config (shared s') = logger_config (shared s)" "set (accepted s) \<subseteq> set (accepted s')"
      "taken s' = taken s" "delivered s' = delivered s" "worker_local s' = worker_local s"
      "processed_records_total (shared s') = processed_records_total (shared s)"
      "shutdown_requested (shared s') = shutdown_requested (shared s)"
      "worker_point s' = worker_point s \<or> worker_point s = W_Asleep \<and> worker_point s' = W_Woken"
    by (rule producer_step.cases [OF assms(2)]; force)+
  show "t' \<noteq> t \<longrightarrow> producers s' t' = producers s t'"
    by (rule producer_step.cases [OF assms(2)]; simp)
  show "owner s \<noteq> Some (Producer t) \<longrightarrow>
      queued_records_total (shared s') = queued_records_total (shared s) \<and> queue_count (shared s') = queue_count (shared s)"
    using assms(2) own by cases simp_all
  then show "owner s \<noteq> Some (Producer t) \<longrightarrow> queue_count (shared s') = queue_count (shared s)" by blast
qed

lemma producer_step_producers:
  assumes "conc_inv s" and "producer_step t s s'"
  shows "producer_ok (shared s') (accepted s') (producers s' t')"
proof (cases "t' = t")
  case False
  have "producer_ok (shared s) (accepted s) (producers s t')" using assms(1) by (simp add: conc_inv_def)
  moreover have "producer_holds (producers s t') \<longrightarrow> owner s \<noteq> Some (Producer t)"
    using owner_point(1) [OF assms(1), of t'] False by auto
  ultimately show ?thesis
    using producer_step_shared [OF assms] False by (simp add: producer_ok_keep)
next
  case True
  have ok: "producer_ok (shared s) (accepted s) (producers s t)" using assms(1) by (simp add: conc_inv_def)
  have "producer_ok (shared s') (accepted s') (producers s' t)"
    using assms(2)
  proof cases
    case (fill call seq now)
    then show ?thesis using ok by (simp add: call_view_def)
  next
    case (enter st call)
    then show ?thesis by simp
  qed (use ok in \<open>simp_all add: call_ok_def\<close>)
  then show ?thesis by (simp add: True)
qed

lemma producer_step_numbers:
  assumes "conc_inv s" and "producer_step t s s'"
  shows "numbers_ok s'"
proof -
  have n: "numbers_ok s" using assms(1) by (simp add: conc_inv_def)
  have ok: "producer_ok (shared s) (accepted s) (producers s t)" using assms(1) by (simp add: conc_inv_def)
  note own = owner_point(1) [OF assms(1), of t]
  show ?thesis
    using assms(2)
  proof cases
    case (acquire call)
    then have "\<not> drawn s" using owner_point(3) [OF assms(1)] pending_none(3) by simp
    then show ?thesis using n by (simp add: acquire(1) numbers_ok_def)
  next
    case (enter st call)
    then show ?thesis using n own by (auto simp: numbers_ok_def)
  next
    case (publish v)
    then show ?thesis using n own ok by (simp add: numbers_ok_def drawn_owner algebra_simps)
  qed (use n own in \<open>simp_all add: numbers_ok_def drawn_owner\<close>)
qed

lemma producer_step_worker:
  assumes "conc_inv s" and "producer_step t s s'"
  shows "worker_ok s'"
proof -
  have w: "worker_ok s" using assms(1) by (simp add: conc_inv_def)
  note same = producer_step_shared [OF assms]
  have carried: "carried (worker_point s') = carried (worker_point s)"
    using same(10) by (auto simp: carried_def)
  have "worker_point s = W_Exit \<longrightarrow> owner s \<noteq> Some (Producer t)" using owner_point(2) [OF assms(1)] by auto
  then show ?thesis
    using w same(1,3,5-10) carried by (auto simp: worker_ok_def)
qed

lemma producer_step_returned:
  assumes "conc_inv s" and "producer_step t s s'"
  shows "set (returned s') \<subseteq> set (accepted s')"
proof -
  have "producer_ok (shared s) (accepted s) (producers s t)" "set (returned s) \<subseteq> set (accepted s)"
    using assms(1) by (simp_all add: conc_inv_def)
  with assms(2) show ?thesis by cases auto
qed

lemma producer_step_inv:
  assumes "conc_inv s" and "producer_step t s s'"
  shows "conc_inv s'"
proof -
  have "mutex_ok s'" using producer_step_mutex assms by (auto simp: conc_inv_def)
  then show ?thesis
    unfolding conc_inv_def
    using producer_step_queue [OF assms] producer_step_numbers [OF assms] producer_step_worker [OF assms]
      producer_step_producers [OF assms] producer_step_returned [OF assms] by blast
qed

lemma worker_step_inv:
  assumes "conc_inv s" and "worker_step s s'"
  shows "conc_inv s'"
proof -
  have i: "mutex_ok s" "queue_ok s" "numbers_ok s" "worker_ok s" "set (returned s) \<subseteq> set (accepted s)"
      "\<And>t. producer_ok (shared s) (accepted s) (producers s t)"
    using assms(1) by (simp_all add: conc_inv_def)
  have m: "mutex_ok s'" by (rule worker_step_mutex [OF i(1) assms(2)])
  note own = owner_point(2) [OF assms(1)] and others = owner_point(1) [OF assms(1)]
  have locking: "producer_ok ((shared s)\<lparr>queue_mutex := b\<rparr>) (accepted s) (producers s t)" for b t
    using i(6) [of t] by (rule producer_ok_keep) simp_all
  show ?thesis
    using assms(2)
  proof cases
    case acquire
    then have "owner s = None" using owner_point(3) [OF assms(1)] by simp
    moreover have "worker_ok s'"
      using acquire(2) i(4)
      by (elim insertE) (simp_all add: acquire(1) worker_ok_def carried_def)
    ultimately show ?thesis
      using i(2,3,5) m locking pending_none [of s]
      by (simp add: conc_inv_def acquire(1) queue_ok_def numbers_ok_def)
  next
    case (take r l sc)
    then have o: "owner s = Some Worker" using own by simp
    then have ring: "ring_ok (shared s)" "taken s @ queue_view (shared s) = accepted s"
      using i(2) by (simp_all add: queue_ok_def pending_none)
    have sc: "wf_scratch (logger_config (shared s)) (worker_scratch (worker_local s))" using i(4) by (simp add: worker_ok_def)
    note t = take_record_ring [OF ring(1) sc take(3,4)] and c = take_record_count [OF take(4)]
    have "queue_view (shared s) \<noteq> []" using take(3) queue_view_nonempty by blast
    then have "queue_view (shared s) = view_of r # queue_view l" using t by simp
    moreover have no: "\<not> producer_holds (producers s t)" for t using others [of t] o by simp
    have "producer_ok l (accepted s) (producers s t)" for t
      using i(6) [of t] by (rule producer_ok_keep) (simp_all add: c no)
    ultimately show ?thesis
      using i m t c ring o
      by (simp add: conc_inv_def take(1) queue_ok_def numbers_ok_def worker_ok_def carried_def take(2) pending_none)
  next
    case (count r)
    have "producer_ok ((shared s)\<lparr>processed_records_total := n\<rparr>) (accepted s) (producers s t)" for n t
      using i(6) [of t] by (rule producer_ok_keep) auto
    moreover have w: "delivered s @ [view_of r] = taken s" using i(4) count(2) by (simp add: worker_ok_def carried_def)
    moreover have "length (taken s) = length (delivered s) + 1" by (simp flip: w)
    ultimately show ?thesis
      using i m count(2) by (simp add: conc_inv_def count(1) queue_ok_def numbers_ok_def worker_ok_def carried_def)
  next
    case (deliver r seen os1 w os2)
    have "worker_scratch w = worker_scratch (worker_local s)"
      using deliver(4) by (auto simp: deliver_record_def split: prod.splits)
    then show ?thesis
      using i m deliver(2) by (simp add: conc_inv_def deliver(1) queue_ok_def numbers_ok_def worker_ok_def carried_def)
  next
    case sleep
    then show ?thesis
      using i m own locking pending_none [of s]
      by (simp add: conc_inv_def sleep(1) queue_ok_def numbers_ok_def worker_ok_def carried_def)
  next
    case (release r)
    then show ?thesis
      using i m own locking pending_none [of s]
      by (simp add: conc_inv_def release(1) queue_ok_def numbers_ok_def worker_ok_def carried_def)
  next
    case finish
    then show ?thesis
      using i m own locking pending_none [of s]
      by (simp add: conc_inv_def finish(1) queue_ok_def numbers_ok_def worker_ok_def carried_def)
  next
    case idle
    then show ?thesis using i m by (simp add: conc_inv_def idle(1) queue_ok_def numbers_ok_def worker_ok_def carried_def)
  next
    case leave
    then show ?thesis using i m by (simp add: conc_inv_def leave(1) queue_ok_def numbers_ok_def worker_ok_def carried_def)
  qed
qed

lemma step_inv:
  assumes "conc_inv s" and "step a s s'"
  shows "conc_inv s'"
  using assms(2)
proof cases
  case (producer t)
  then show ?thesis using producer_step_inv assms(1) by blast
next
  case worker
  then show ?thesis using worker_step_inv assms(1) by blast
next
  case controller
  have keep: "producer_ok ((shared s)\<lparr>shutdown_requested := b\<rparr>) (accepted s) (producers s t)"
      "producer_ok ((shared s)\<lparr>worker_started := b\<rparr>) (accepted s) (producers s t)" for b t
    using assms(1) by (auto simp: conc_inv_def intro: producer_ok_keep)
  have mutex: "mutex_ok s'" using controller_step_mutex assms(1) controller(2) by (auto simp: conc_inv_def)
  show ?thesis
    using controller(2)
  proof cases
    case notify
    then have "worker_ok s'" using assms(1) by (auto simp: conc_inv_def worker_ok_def carried_def)
    then show ?thesis
      using assms(1) mutex by (simp add: conc_inv_def notify(1) queue_ok_def numbers_ok_def)
  qed (use assms(1) mutex keep in \<open>simp_all add: conc_inv_def queue_ok_def numbers_ok_def worker_ok_def\<close>)
next
  case spurious
  then have "worker_ok s'" using assms(1) by (auto simp: conc_inv_def worker_ok_def carried_def)
  then show ?thesis
    using assms(1) spurious by (simp add: conc_inv_def mutex_ok_def queue_ok_def numbers_ok_def)
qed

lemma run_inv: "run A s s' \<Longrightarrow> conc_inv s \<Longrightarrow> conc_inv s'"
  by (erule run_preserves) (rule step_inv)

text \<open>The histories only grow.\<close>

lemma step_accepted:
  assumes "step a s s'"
  shows "prefix (accepted s) (accepted s')"
proof -
  have "prefix (accepted s) (accepted s')" if "producer_step t s s'" for t
    using that by cases simp_all
  moreover have "prefix (accepted s) (accepted s')" if "worker_step s s'"
    using that by cases simp_all
  moreover have "prefix (accepted s) (accepted s')" if "controller_step s s'"
    using that by cases simp_all
  ultimately show ?thesis
    using assms by (elim stepE) (blast, blast, blast, simp)
qed

lemma run_accepted: "run A s s' \<Longrightarrow> prefix (accepted s) (accepted s')"
  using run_preserves [where P = "\<lambda>s''. prefix (accepted s) (accepted s'')"] step_accepted prefix_order.trans by blast

text \<open>
  The mutex and the signal after every record keep the worker from sleeping beside a record:
  when it is about to wait the queue is empty, and when it sleeps and the queue is not empty a
  call is on its way to wake it.
\<close>

fun signalling :: "producer \<Rightarrow> bool" where
  "signalling (P_Unlock _) = True"
| "signalling (P_Signal _) = True"
| "signalling _ = False"

definition wakeup_ok :: "'a conc \<Rightarrow> bool" where
  "wakeup_ok s \<longleftrightarrow>
     (worker_point s = W_Wait \<longrightarrow> queue_count (shared s) = 0) \<and>
     (worker_point s = W_Asleep \<and> queue_count (shared s) \<noteq> 0 \<longrightarrow> (\<exists>t. signalling (producers s t)))"

lemma signalling_goto: "(\<exists>t'. signalling (((producers s)(t := p)) t')) \<longleftrightarrow>
    signalling p \<or> (\<exists>t'. t' \<noteq> t \<and> signalling (producers s t'))"
  by auto

lemma producer_step_wakeup:
  assumes "conc_inv s" and "wakeup_ok s" and "producer_step t s s'"
  shows "wakeup_ok s'"
proof -
  note own = owner_point(1) [OF assms(1), of t] and w = owner_point(2) [OF assms(1)]
  have keep: "wakeup_ok s'" if "producers s' = (producers s)(t := p)" "signalling (producers s t) \<longrightarrow> signalling p"
    "worker_point s' = worker_point s" "queue_count (shared s') = queue_count (shared s)" for p
  proof -
    have "(\<exists>t. signalling (producers s t)) \<longrightarrow> signalling p \<or> (\<exists>t'. t' \<noteq> t \<and> signalling (producers s t'))"
      using that(2) by metis
    then show ?thesis using assms(2) unfolding wakeup_ok_def that(1,3,4) signalling_goto by blast
  qed
  show ?thesis
    using assms(3)
  proof cases
    case (publish v)
    then have "worker_point s \<noteq> W_Wait" using own w by auto
    then show ?thesis using publish by (auto simp: wakeup_ok_def)
  next
    case (notify v)
    then show ?thesis using assms(2) by (simp add: wakeup_ok_def)
  next
    case (enter st call)
    then show ?thesis by (intro keep) auto
  qed (rule keep, simp, simp, simp, simp)+
qed

lemma step_wakeup:
  assumes "conc_inv s" and "wakeup_ok s" and "step a s s'"
  shows "wakeup_ok s'"
  using assms(3)
proof cases
  case (producer t)
  then show ?thesis using producer_step_wakeup assms by blast
next
  case worker
  from worker(2) show ?thesis using assms(2) by cases (auto simp: wakeup_ok_def)
next
  case controller
  from controller(2) show ?thesis using assms(2) by cases (auto simp: wakeup_ok_def)
next
  case spurious
  then show ?thesis by (simp add: wakeup_ok_def)
qed

lemma run_wakeup: "run A s s' \<Longrightarrow> conc_inv s \<Longrightarrow> wakeup_ok s \<Longrightarrow> wakeup_ok s'"
  using run_preserves [where P = "\<lambda>s. conc_inv s \<and> wakeup_ok s"] step_wakeup step_inv by blast

text \<open>With an empty queue and nobody but the worker at the mutex, all records were taken.\<close>

lemma empty_queue_taken:
  assumes "conc_inv s" and "owner s = None \<or> owner s = Some Worker" and "queue_count (shared s) = 0"
  shows "taken s = accepted s"
proof -
  have "pending s = None" using assms(2) pending_none by blast
  moreover have "queue_view (shared s) = []" using assms(3) queue_view_nonempty by blast
  ultimately show ?thesis using assms(1) by (simp add: conc_inv_def queue_ok_def)
qed

lemma less_plus_one_not_zero: "(n :: size_t) < c \<Longrightarrow> n + 1 \<noteq> 0"
  by (metis eq_neg_iff_add_eq_0 word_n1_ge not_le)

text \<open>The histories of a reachable state, and its counters as lengths.\<close>

lemma history_prefix:
  assumes inv: "conc_inv s"
  shows "prefix (delivered s) (taken s)" "prefix (taken s) (accepted s)"
proof -
  have i: "queue_ok s" "worker_ok s" using inv by (simp_all add: conc_inv_def)
  then show "prefix (delivered s) (taken s)" by (metis worker_ok_def prefixI)
  show "prefix (taken s) (accepted s)"
  proof (cases "pending s")
    case None
    then have "accepted s = taken s @ queue_view (shared s)" using i(1) by (simp add: queue_ok_def)
    then show ?thesis by (rule prefixI)
  next
    case (Some v)
    then have q: "ring_ok (publish_tail (shared s))" "taken s @ queue_view (publish_tail (shared s)) = accepted s @ [v]"
      using i(1) by (simp_all add: queue_ok_def)
    from Some obtain t where "owner s = Some (Producer t)" "producers s t = P_Filled v"
      by (cases "(owner s, producers s)" rule: pending_at.cases) (auto simp: pending_def split: producer.splits)
    moreover have "producer_ok (shared s) (accepted s) (producers s t)" using inv by (simp add: conc_inv_def)
    ultimately have "queue_count (shared s) < buffer_capacity (logger_config (shared s))" by simp
    then have "queue_count (publish_tail (shared s)) \<noteq> 0"
      by (simp add: publish_tail_def less_plus_one_not_zero)
    then have "queue_view (publish_tail (shared s)) \<noteq> []" using queue_view_nonempty by blast
    then show ?thesis using q(2) by (metis append_butlast_last_id append_assoc butlast_snoc prefixI)
  qed
qed

lemma counters_length:
  assumes "conc_inv s" and "length (accepted s) + 1 < 2 ^ 64"
  shows "length (accepted s) \<le> unat (queued_records_total (shared s))"
    "unat (processed_records_total (shared s)) = length (delivered s)"
proof -
  have d: "length (delivered s) \<le> length (accepted s)"
    using history_prefix [OF assms(1)] prefix_length_le le_trans by metis
  have q: "queued_records_total (shared s) = of_nat (length (accepted s) + (if drawn s then 1 else 0))"
    "processed_records_total (shared s) = of_nat (length (delivered s))"
    using assms(1) by (simp_all add: conc_inv_def numbers_ok_def worker_ok_def)
  show "length (accepted s) \<le> unat (queued_records_total (shared s))"
    using assms(2) unfolding q(1) unat_of_nat by simp
  show "unat (processed_records_total (shared s)) = length (delivered s)"
    using assms(2) d unfolding q(2) unat_of_nat by simp
qed

end
