(* ===== verification/Logger_Lifecycle.thy ===== *)
theory Logger_Lifecycle
  imports Logger_Worker
begin

text \<open>
  The life of a logger (\<open>src/mp_logger.c\<close>): the allocation of the queue storage, creation,
  start, flush, shutdown and destruction. Where an operation waits for the worker thread, the
  thread runs here as \<open>mp_logger_worker_main\<close> does when nobody logs at the same time.
\<close>

section \<open>Storage of the queue\<close>

text \<open>
  The sizes are products in \<open>size_t\<close>; 88 and 24 are the sizes of a slot and of a field. A slot
  gets its part of each storage, which is shorter than the capacity when the storage is.
\<close>

definition partition_slot ::
    "mp_logger_config \<Rightarrow> nat \<times> nat \<times> nat \<times> nat \<times> nat \<Rightarrow> nat \<Rightarrow> mp_log_slot" where
  "partition_slot c lengths i =
     (case lengths of (messages, contexts, field_structs, keys, strings) \<Rightarrow>
        let mc = unat (message_capacity c); cc = unat (context_capacity c); fc = unat (field_capacity c);
            kc = unat (field_key_capacity c); vc = unat (field_value_capacity c)
        in \<lparr>slot_sequence_id = 0, slot_unix_epoch_millis = 0, slot_level = Log_Level 0,
             message_length = 0, context_length = 0, slot_field_count = 0,
             message_buffer = zeros (min mc (messages - i * mc)),
             context_buffer = zeros (min cc (contexts - i * cc)),
             slot_fields = replicate (min fc (field_structs - i * fc)) zero_field,
             slot_key_storage = zeros (min (fc * kc) (keys - i * (fc * kc))),
             slot_string_storage = zeros (min (fc * vc) (strings - i * (fc * vc)))\<rparr>)"

definition mp_logger_allocate_buffers :: "'a mp_logger \<Rightarrow> 'a os \<Rightarrow> mp_log_status_t \<times> 'a mp_logger \<times> 'a os" where
  "mp_logger_allocate_buffers logger os =
     (let c = logger_config logger; bc = buffer_capacity c;
          messages = bc * message_capacity c; contexts = bc * context_capacity c; field_structs = bc * field_capacity c;
          keys = bc * field_capacity c * field_key_capacity c; strings = bc * field_capacity c * field_value_capacity c
      in case calloc_all [(bc, 88), (messages, 1), (contexts, 1), (field_structs, 24), (keys, 1), (strings, 1)] os of
           (blocks, os) \<Rightarrow>
             let logger = logger\<lparr>storage_blocks := blocks @ storage_blocks logger\<rparr> in
             if None \<in> set blocks then (MP_LOG_STATUS_IO_ERROR, logger, os)
             else (MP_LOG_STATUS_OK,
                   logger\<lparr>slots := map (partition_slot c
                     (unat messages, unat contexts, unat field_structs, unat keys, unat strings)) [0..<unat bc]\<rparr>, os))"

text \<open>The products that have to stay below 2^64.\<close>

definition storage_representable :: "mp_logger_config \<Rightarrow> bool" where
  "storage_representable c \<longleftrightarrow>
     unat (buffer_capacity c) * unat (message_capacity c) < 2 ^ 64 \<and>
     unat (buffer_capacity c) * unat (context_capacity c) < 2 ^ 64 \<and>
     unat (buffer_capacity c) * unat (field_capacity c) < 2 ^ 64 \<and>
     unat (buffer_capacity c) * unat (field_capacity c) * unat (field_key_capacity c) < 2 ^ 64 \<and>
     unat (buffer_capacity c) * unat (field_capacity c) * unat (field_value_capacity c) < 2 ^ 64"

lemma region_fits: "i < n \<Longrightarrow> min m (n * m - i * m) = (m :: nat)"
proof -
  assume "i < n"
  then have "Suc i * m \<le> n * m" by (simp only: mult_le_mono1 Suc_leI)
  then show ?thesis by simp
qed

lemma partition_fresh:
  assumes "storage_representable c" and "i < unat (buffer_capacity c)"
  shows "partition_slot c
    (unat (buffer_capacity c * message_capacity c), unat (buffer_capacity c * context_capacity c),
     unat (buffer_capacity c * field_capacity c), unat (buffer_capacity c * field_capacity c * field_key_capacity c),
     unat (buffer_capacity c * field_capacity c * field_value_capacity c)) i = fresh_slot c"
proof -
  let ?bf = "buffer_capacity c * field_capacity c"
  have bf: "unat ?bf = unat (buffer_capacity c) * unat (field_capacity c)"
    using assms(1) by (intro unat_size_mult) (simp add: storage_representable_def)
  have "unat (buffer_capacity c * message_capacity c) = unat (buffer_capacity c) * unat (message_capacity c)"
    "unat (buffer_capacity c * context_capacity c) = unat (buffer_capacity c) * unat (context_capacity c)"
    using assms(1) by (intro unat_size_mult; simp add: storage_representable_def)+
  moreover have "unat (?bf * field_key_capacity c) = unat ?bf * unat (field_key_capacity c)"
    "unat (?bf * field_value_capacity c) = unat ?bf * unat (field_value_capacity c)"
    using assms(1) by (intro unat_size_mult; simp only: bf; simp add: storage_representable_def)+
  ultimately show ?thesis
    using region_fits [OF assms(2)] by (simp add: partition_slot_def fresh_slot_def Let_def bf mult.assoc)
qed

section \<open>The worker thread\<close>

text \<open>
  A thread that \<open>pthread_create\<close> has made and that has not run yet, one that waits for records
  on the condition variable, and one that has ended.
\<close>

datatype worker_thread = Thread_Starting | Thread_Waiting worker | Thread_Ended

text \<open>The thread runs to its next wait or to its end while nobody else uses the logger.\<close>

definition run_thread :: "'a mp_logger \<Rightarrow> worker_thread \<Rightarrow> 'a os \<Rightarrow> 'a mp_logger \<times> worker_thread \<times> 'a os" where
  "run_thread logger thread os =
     (case thread of
        Thread_Starting \<Rightarrow>
          (case mp_logger_worker_main logger os of (logger, w, os) \<Rightarrow>
             (logger, (case w of None \<Rightarrow> Thread_Ended | Some w \<Rightarrow> Thread_Waiting w), os))
      | Thread_Waiting w \<Rightarrow>
          (case worker_drain (logger, w, os) of (finished, logger, w, os) \<Rightarrow>
             if finished then (logger, Thread_Ended, worker_finish logger w os)
             else (logger, Thread_Waiting w, os))
      | Thread_Ended \<Rightarrow> (logger, Thread_Ended, os))"

definition mp_logger_start ::
    "'a mp_logger option \<Rightarrow> worker_thread \<Rightarrow> 'a os \<Rightarrow> mp_log_status_t \<times> 'a mp_logger option \<times> worker_thread \<times> 'a os" where
  "mp_logger_start logger_ptr thread os =
     (case logger_ptr of
        None \<Rightarrow> (MP_LOG_STATUS_INVALID_ARGUMENT, None, thread, os)
      | Some logger \<Rightarrow>
          if worker_started logger then (MP_LOG_STATUS_OK, logger_ptr, thread, os)
          else if streams logger = [] then (MP_LOG_STATUS_CONFIG_ERROR, logger_ptr, thread, os)
          else
            let logger = logger\<lparr>shutdown_requested := False\<rparr> in
            (case os_try os of (created, os) \<Rightarrow>
               if \<not> created then (MP_LOG_STATUS_INTERNAL_ERROR, Some logger, thread, os)
               else (MP_LOG_STATUS_OK, Some (logger\<lparr>worker_started := True\<rparr>), Thread_Starting, os)))"

text \<open>
  The join of \<open>mp_logger_shutdown\<close> either works, after the thread has run to its end with the
  flag set, or fails or times out, and then the thread is where it was. The signal is taken to
  reach the thread; \<open>Logger_Threads\<close> looks at that. With a timeout the clock is read for
  the deadline (Linux).
\<close>

definition mp_logger_shutdown ::
    "'a mp_logger option \<Rightarrow> worker_thread \<Rightarrow> 32 word \<Rightarrow> 'a os \<Rightarrow>
     mp_log_status_t \<times> 'a mp_logger option \<times> worker_thread \<times> 'a os" where
  "mp_logger_shutdown logger_ptr thread timeout_millis os =
     (case logger_ptr of
        None \<Rightarrow> (MP_LOG_STATUS_INVALID_ARGUMENT, None, thread, os)
      | Some logger \<Rightarrow>
          let logger = logger\<lparr>shutdown_requested := True\<rparr> in
          if \<not> worker_started logger then (MP_LOG_STATUS_OK, Some logger, thread, os)
          else
            (case (if timeout_millis > 0 then clock_realtime os else (Some (0, 0), os)) of (now, os) \<Rightarrow>
               if now = None then (MP_LOG_STATUS_INTERNAL_ERROR, Some logger, thread, os)
               else case os_try os of (joined, os) \<Rightarrow>
                 if \<not> joined then (MP_LOG_STATUS_INTERNAL_ERROR, Some logger, thread, os)
                 else case run_thread logger thread os of (logger, thread, os) \<Rightarrow>
                   (MP_LOG_STATUS_OK, Some (logger\<lparr>worker_started := False\<rparr>), thread, os)))"

text \<open>
  The release of what a logger holds: its streams, the descriptor of the backup log, then the
  storage and the logger itself; \<open>storage_blocks\<close> lists the blocks in the order of the calls of
  \<open>free\<close>.
\<close>

definition logger_teardown :: "'a mp_logger \<Rightarrow> 'a os \<Rightarrow> 'a os" where
  "logger_teardown l os =
     (case mp_logger_destroy_streams l os of (l, os) \<Rightarrow>
        case mp_logger_backup_close l os of (l, os) \<Rightarrow> free_all (storage_blocks l) os)"

definition mp_logger_destroy :: "'a mp_logger option \<Rightarrow> worker_thread \<Rightarrow> 'a os \<Rightarrow> worker_thread \<times> 'a os" where
  "mp_logger_destroy logger_ptr thread os =
     (case logger_ptr of
        None \<Rightarrow> (thread, os)
      | Some logger \<Rightarrow>
          (case (if worker_started logger
                 then (case mp_logger_shutdown (Some logger) thread 5000 os of (_, l, thread, os) \<Rightarrow> (the l, thread, os))
                 else (logger, thread, os)) of (logger, thread, os) \<Rightarrow>
             (thread, logger_teardown logger os)))"

section \<open>Creation\<close>

text \<open>2304 is the size of the logger; the number plays no role.\<close>

definition mp_logger_create ::
    "mp_logger_config option \<Rightarrow> 'a os \<Rightarrow> mp_log_status_t \<times> 'a mp_logger option \<times> 'a os" where
  "mp_logger_create config_ptr os =
     (case config_ptr of
        None \<Rightarrow> (MP_LOG_STATUS_INVALID_ARGUMENT, None, os)
      | Some c \<Rightarrow>
          if \<not> mp_logger_validate_config c then (MP_LOG_STATUS_CONFIG_ERROR, None, os)
          else let normalized_config = normalize_config c in
            (case os_calloc 1 2304 os of
               (None, os) \<Rightarrow> (MP_LOG_STATUS_IO_ERROR, None, os)
             | (Some block, os) \<Rightarrow>
                 (case clock_realtime os of (now, os) \<Rightarrow>
                  let logger = zeroed_logger\<lparr>logger_config := normalized_config, storage_blocks := [Some block],
                        backup_fd := None, render_capacity := mp_logger_render_capacity normalized_config,
                        run_suffix := mp_logger_make_run_suffix now (zeros MP_LOGGER_RUN_SUFFIX_CAPACITY)
                          MP_LOGGER_RUN_SUFFIX_CAPACITY\<rparr> in
                  case mp_logger_allocate_buffers logger os of (status, logger, os) \<Rightarrow>
                  if status \<noteq> MP_LOG_STATUS_OK
                  then (status, None, snd (mp_logger_destroy (Some logger) Thread_Ended os))
                  else case mp_logger_backup_open logger os of (status, logger, os) \<Rightarrow>
                  if status \<noteq> MP_LOG_STATUS_OK
                  then (status, None, snd (mp_logger_destroy (Some logger) Thread_Ended os))
                  else case mp_logger_build_builtin_streams logger os of (status, logger, os) \<Rightarrow>
                  if status \<noteq> MP_LOG_STATUS_OK
                  then (status, None, snd (mp_logger_destroy (Some logger) Thread_Ended os))
                  else (MP_LOG_STATUS_OK, Some logger, os))))"

definition mp_logger_create_from_bootstrap ::
    "(string \<Rightarrow> string option) \<Rightarrow> cbuf option \<Rightarrow> 'a os \<Rightarrow>
     mp_log_status_t \<times> ('a mp_logger \<times> worker_thread) option \<times> 'a os" where
  "mp_logger_create_from_bootstrap read_file config_path os =
     (case mp_logger_bootstrap_load read_file config_path (Some zeroed_config) of (status, config) \<Rightarrow>
        if status \<noteq> MP_LOG_STATUS_OK then (status, None, os)
        else case mp_logger_create config os of (status, logger, os) \<Rightarrow>
        if status \<noteq> MP_LOG_STATUS_OK then (status, None, os)
        else case mp_logger_start logger Thread_Ended os of (status, logger, thread, os) \<Rightarrow>
        if status \<noteq> MP_LOG_STATUS_OK then (status, None, snd (mp_logger_destroy logger thread os))
        else (MP_LOG_STATUS_OK, map_option (\<lambda>l. (l, thread)) logger, os))"

section \<open>Flush\<close>

text \<open>
  The loop observes the processed counter and the monotonic clock at its successive turns;
  \<open>None\<close> is a loop that does not end.
\<close>

partial_function (option) flush_loop ::
    "(nat \<Rightarrow> uint64_t) \<Rightarrow> (nat \<Rightarrow> (int \<times> int) option) \<Rightarrow> bool \<Rightarrow> int64_t \<Rightarrow> uint64_t \<Rightarrow> nat \<Rightarrow> mp_log_status_t option" where
  "flush_loop processed clock timed deadline_millis target_processed k =
     (if processed k < target_processed then
        if timed \<and> deadline_millis <s mp_logger_now_monotonic_millis (clock k) then Some MP_LOG_STATUS_INTERNAL_ERROR
        else flush_loop processed clock timed deadline_millis target_processed (Suc k)
      else Some MP_LOG_STATUS_OK)"

definition mp_logger_flush ::
    "'a mp_logger option \<Rightarrow> 32 word \<Rightarrow> (int \<times> int) option \<Rightarrow> (nat \<Rightarrow> uint64_t) \<Rightarrow> (nat \<Rightarrow> (int \<times> int) option) \<Rightarrow>
     mp_log_status_t option" where
  "mp_logger_flush logger_ptr timeout_millis entry_clock processed clock =
     (case logger_ptr of
        None \<Rightarrow> Some MP_LOG_STATUS_INVALID_ARGUMENT
      | Some logger \<Rightarrow>
          if \<not> worker_started logger
          then Some (if queue_count logger = 0 then MP_LOG_STATUS_OK else MP_LOG_STATUS_NOT_RUNNING)
          else flush_loop processed clock (timeout_millis > 0)
            (mp_logger_now_monotonic_millis entry_clock + ucast timeout_millis) (queued_records_total logger) 0)"

section \<open>Ownership\<close>

text \<open>
  Everything a logger holds is listed in it: its streams, the descriptor of the backup log and
  the heap blocks. The teardown releases exactly that.
\<close>

lemma destroy_stopped: "\<not> worker_started l \<Longrightarrow> mp_logger_destroy (Some l) thread os = (thread, logger_teardown l os)"
  by (simp add: mp_logger_destroy_def)

definition close_backup :: "nat option \<Rightarrow> 'a os \<Rightarrow> 'a os" where
  "close_backup fd os = (case fd of None \<Rightarrow> os | Some i \<Rightarrow> os_close i os)"

lemma logger_teardown_eq:
  "logger_teardown l = (\<lambda>os. free_all (storage_blocks l) (close_backup (backup_fd l) (destroy_streams_loop (streams l) os)))"
  by (simp add: fun_eq_iff logger_teardown_def mp_logger_destroy_streams_def mp_logger_backup_close_def
      close_backup_def split: option.split)

lemma owns_close_backup: "owns (set_option fd) (close_backup fd :: 'a os \<Rightarrow> 'a os)"
proof (cases fd)
  case None
  then show ?thesis by (simp add: owns_def close_backup_def)
next
  case (Some i)
  then have "(close_backup fd :: 'a os \<Rightarrow> 'a os) = os_close i" by (simp add: close_backup_def fun_eq_iff)
  then show ?thesis using owns_close [of i] by (simp add: Some)
qed

lemma owns_teardown:
  assumes "owns S (destroy_streams_loop (streams l))" and "apart_blocks (storage_blocks l)"
    and "S \<inter> set_option (backup_fd l) = {}" and "(S \<union> set_option (backup_fd l)) \<inter> live_blocks (storage_blocks l) = {}"
  shows "owns (S \<union> set_option (backup_fd l) \<union> live_blocks (storage_blocks l)) (logger_teardown l)"
  unfolding logger_teardown_eq
  by (intro owns_comp [OF owns_comp [OF assms(1) owns_close_backup assms(3)] owns_free_all [OF assms(2)] assms(4)])

lemma teardown_same_but_streams:
  "same_but_streams l l' \<Longrightarrow> storage_blocks l' = storage_blocks l \<and> backup_fd l' = backup_fd l \<and>
    worker_started l' = worker_started l \<and> ring_ok l' = ring_ok l \<and> render_capacity l' = render_capacity l \<and>
    queue_view l' = queue_view l \<and> queue_count l' = queue_count l \<and> shutdown_requested l' = shutdown_requested l"
  by (cases l; cases l') (simp add: same_but_streams_def ring_ok_def queue_view_def ring_index_def Let_def)

lemma apart_blocks_snoc: "apart_blocks (ps @ [Some i]) \<longleftrightarrow> apart_blocks ps \<and> i \<notin> live_blocks ps"
  by (induction ps rule: apart_blocks.induct) (auto simp: live_blocks_def)

lemma live_blocks_append [simp]: "live_blocks (ps @ qs) = live_blocks ps \<union> live_blocks qs"
  by (auto simp: live_blocks_def)

lemma ring_ok_fresh:
  assumes "capacities_ok (logger_config l)" and "slots l = replicate (unat (buffer_capacity (logger_config l))) (fresh_slot (logger_config l))"
    and "queue_head l = 0" "queue_tail l = 0" "queue_count l = 0"
  shows "ring_ok l"
proof -
  have "0 < unat (buffer_capacity (logger_config l))"
    using assms(1) capacities_pos(1) by (simp add: word_pos_unat)
  moreover have "wf_slot (logger_config l) (fresh_slot (logger_config l))" by (rule wf_fresh(1))
  ultimately show ?thesis
    using assms by (simp add: ring_ok_def Let_def ring_index_def list_all_iff)
qed

lemma validate_capacities: "mp_logger_validate_config c \<Longrightarrow> capacities_ok c"
  by (simp add: mp_logger_validate_config_def capacities_ok_def)

section \<open>Creation\<close>

text \<open>The buffers: what was allocated is listed in the logger, also after a failure.\<close>

lemma allocate_buffers_spec:
  assumes wf: "os_wf os" and alloc: "mp_logger_allocate_buffers l os = (status, l', os')"
  obtains blocks where "acquired (live_blocks blocks) os os'" "apart_blocks blocks"
    "l'\<lparr>slots := slots l, storage_blocks := storage_blocks l\<rparr> = l" "storage_blocks l' = blocks @ storage_blocks l"
    "status = (if None \<in> set blocks then MP_LOG_STATUS_IO_ERROR else MP_LOG_STATUS_OK)"
    "status = MP_LOG_STATUS_OK \<longrightarrow> storage_representable (logger_config l) \<longrightarrow>
      slots l' = replicate (unat (buffer_capacity (logger_config l))) (fresh_slot (logger_config l))"
proof -
  let ?c = "logger_config l"
  let ?bc = "buffer_capacity ?c"
  let ?sizes = "[(?bc, 88), (?bc * message_capacity ?c, 1), (?bc * context_capacity ?c, 1), (?bc * field_capacity ?c, 24),
    (?bc * field_capacity ?c * field_key_capacity ?c, 1), (?bc * field_capacity ?c * field_value_capacity ?c, 1)]"
  obtain blocks os1 where c: "calloc_all ?sizes os = (blocks, os1)" by (metis surj_pair)
  note a = calloc_all_acquired [OF wf c]
  have slots: "map (partition_slot ?c (unat (?bc * message_capacity ?c), unat (?bc * context_capacity ?c),
      unat (?bc * field_capacity ?c), unat (?bc * field_capacity ?c * field_key_capacity ?c),
      unat (?bc * field_capacity ?c * field_value_capacity ?c))) [0..<unat ?bc] = replicate (unat ?bc) (fresh_slot ?c)"
    if "storage_representable ?c"
    by (rule nth_equalityI) (simp_all add: partition_fresh [OF that])
  have r: "status = (if None \<in> set blocks then MP_LOG_STATUS_IO_ERROR else MP_LOG_STATUS_OK)" "os' = os1"
      "l'\<lparr>slots := slots l, storage_blocks := storage_blocks l\<rparr> = l" "storage_blocks l' = blocks @ storage_blocks l"
      "status = MP_LOG_STATUS_OK \<longrightarrow> storage_representable ?c \<longrightarrow> slots l' = replicate (unat ?bc) (fresh_slot ?c)"
    using alloc slots unfolding mp_logger_allocate_buffers_def Let_def c [unfolded One_nat_def] One_nat_def prod.case
    by (auto split: if_splits)
  show thesis
    using that [of blocks] a r by simp
qed

lemma backup_open_spec:
  assumes wf: "os_wf os" and none: "backup_fd l = None" and opened: "mp_logger_backup_open l os = (status, l', os')"
  shows "acquired (set_option (backup_fd l')) os os' \<and> backup_ready l' os' \<and>
    (status = MP_LOG_STATUS_OK \<longleftrightarrow> backup_fd l' \<noteq> None) \<and>
    l'\<lparr>backup_fd := backup_fd l, backup_path := backup_path l\<rparr> = l"
proof -
  let ?c = "logger_config l"
  obtain ok os1 where d: "mp_logger_ensure_directory (Some (log_directory ?c)) os = (ok, os1)" by (metis surj_pair)
  have a1: "acquired {} os os1" using acquired_keeps [OF acquired_refl [OF wf] keeps_ensure_directory [OF d]] .
  then have wf1: "os_wf os1" by (simp add: acquired_def)
  obtain made path where path: "mp_logger_make_stream_path (backup_path l) MP_LOGGER_PATH_CAPACITY (log_directory ?c)
      (clean_prefix (backup_file_name_prefix ?c)) (run_suffix l) = (made, path)" by (metis surj_pair)
  obtain q os2 where o: "os_open_append path os1 = (q, os2)" by (metis surj_pair)
  note open_q = open_acquired [OF wf1 o]
  have "acquired (set_option q) os os2"
    using open_q acquired_keeps [OF a1] acquired_trans [OF a1] by (cases q) auto
  then show ?thesis
    using opened a1 none open_q
    by (auto simp: mp_logger_backup_open_def d path o backup_ready_def Let_def split: if_splits option.splits)
qed

text \<open>
  What a logger and its thread hold: since \<open>os0\<close> exactly what its streams own, its descriptor,
  its heap blocks and the buffers \<open>W\<close> of the thread were acquired, and these are four
  disjoint sets.
\<close>

definition holdings :: "'a os \<Rightarrow> 'a mp_logger \<Rightarrow> nat set \<Rightarrow> 'a os \<Rightarrow> bool" where
  "holdings os0 l W os \<longleftrightarrow>
     apart_blocks (storage_blocks l) \<and>
     (\<exists>S. acquired ((S \<union> set_option (backup_fd l) \<union> live_blocks (storage_blocks l)) \<union> W) os0 os \<and>
        owns S (destroy_streams_loop (streams l)) \<and> S \<inter> set_option (backup_fd l) = {} \<and>
        (S \<union> set_option (backup_fd l)) \<inter> live_blocks (storage_blocks l) = {} \<and>
        (S \<union> set_option (backup_fd l) \<union> live_blocks (storage_blocks l)) \<inter> W = {})"

lemma teardown_holdings:
  assumes "holdings os0 l W os"
  shows "acquired W os0 (logger_teardown l os)"
proof -
  obtain S where S: "acquired ((S \<union> set_option (backup_fd l) \<union> live_blocks (storage_blocks l)) \<union> W) os0 os"
      "owns S (destroy_streams_loop (streams l))" "S \<inter> set_option (backup_fd l) = {}"
      "(S \<union> set_option (backup_fd l)) \<inter> live_blocks (storage_blocks l) = {}"
      "(S \<union> set_option (backup_fd l) \<union> live_blocks (storage_blocks l)) \<inter> W = {}"
    and apart: "apart_blocks (storage_blocks l)"
    using assms unfolding holdings_def by blast
  show ?thesis by (rule acquired_owns [OF S(1,5) owns_teardown [OF S(2) apart S(3,4)]])
qed

text \<open>The logger that \<open>mp_logger_create\<close> has filled in before it allocates the buffers.\<close>

definition initial_logger :: "mp_logger_config \<Rightarrow> nat \<Rightarrow> (int \<times> int) option \<Rightarrow> 'a mp_logger" where
  "initial_logger c block now =
     zeroed_logger\<lparr>logger_config := normalize_config c, storage_blocks := [Some block],
       backup_fd := None, render_capacity := mp_logger_render_capacity (normalize_config c),
       run_suffix := mp_logger_make_run_suffix now (zeros MP_LOGGER_RUN_SUFFIX_CAPACITY) MP_LOGGER_RUN_SUFFIX_CAPACITY\<rparr>"

lemma initial_logger_simps [simp]:
  "logger_config (initial_logger c block now) = normalize_config c" "storage_blocks (initial_logger c block now) = [Some block]"
  "backup_fd (initial_logger c block now) = None" "streams (initial_logger c block now) = []"
  "render_capacity (initial_logger c block now) = mp_logger_render_capacity c" "queue_head (initial_logger c block now) = 0"
  "queue_tail (initial_logger c block now) = 0" "queue_count (initial_logger c block now) = 0"
  "worker_started (initial_logger c block now) = False" "shutdown_requested (initial_logger c block now) = False"
  "table_ok (initial_logger c block now)"
  by (simp_all add: initial_logger_def zeroed_logger_def table_ok_def mask_ok_def)

lemma holdings_no_streams:
  assumes "streams l = []" and "apart_blocks (storage_blocks l)" and "set_option (backup_fd l) \<inter> live_blocks (storage_blocks l) = {}"
    and "acquired (set_option (backup_fd l) \<union> live_blocks (storage_blocks l)) os0 os"
  shows "holdings os0 l {} os"
proof -
  have "owns {} (destroy_streams_loop (streams l))" using assms(1) by (simp add: owns_def)
  then show ?thesis using assms(2-4) by (auto simp: holdings_def intro!: exI [of _ "{}"])
qed

lemma create_spec:
  assumes wf: "os_wf os" and c: "wf_config c" and create: "mp_logger_create (Some c) os = (status, p, os')"
  shows "case p of
      None \<Rightarrow> status \<noteq> MP_LOG_STATUS_OK \<and> acquired {} os os'
    | Some l \<Rightarrow> status = MP_LOG_STATUS_OK \<and> table_ok l \<and> backup_ready l os' \<and> streams_keep os' (streams l) \<and>
        logger_config l = normalize_config c \<and> \<not> worker_started l \<and> \<not> shutdown_requested l \<and> backup_fd l \<noteq> None \<and>
        queue_count l = 0 \<and>
        subseq (map (\<lambda>s. cstr (stream_name s)) (streams l)) (stream_names (trim (cstr (active_streams c)))) \<and>
        set (stream_names (trim (cstr (active_streams c)))) \<subseteq> builtin_names \<and>
        list_all (\<lambda>s. apply_config_to_stream (logger_config l) s = s) (streams l) \<and>
        holdings os l {} os' \<and>
        (storage_representable c \<longrightarrow> 6 * render_bound c < 2 ^ 64 - 1 \<longrightarrow> logger_ready l)"
proof (cases "mp_logger_validate_config c")
  case False
  then show ?thesis using create wf by (auto simp: mp_logger_create_def)
next
  case valid: True
  obtain q os1 where cal: "os_calloc 1 2304 os = (q, os1)" by (metis surj_pair)
  note a1 = calloc_acquired [OF wf cal]
  show ?thesis
  proof (cases q)
    case None
    then show ?thesis
      using create valid a1 acquired_keeps [OF acquired_refl [OF wf]]
      by (auto simp: mp_logger_create_def cal Let_def)
  next
    case (Some block)
    obtain now os2 where clk: "clock_realtime os1 = (now, os2)" by (metis surj_pair)
    define l0 where "l0 = (initial_logger c block now :: 'a mp_logger)"
    obtain st1 l1 os3 where alloc: "mp_logger_allocate_buffers l0 os2 = (st1, l1, os3)" by (metis prod_cases3)
    obtain st2 l2 os4 where opened: "mp_logger_backup_open l1 os3 = (st2, l2, os4)" by (metis prod_cases3)
    obtain st3 l3 os5 where built: "mp_logger_build_builtin_streams l2 os4 = (st3, l3, os5)" by (metis prod_cases3)
    have r: "(status, p, os') =
        (if st1 \<noteq> MP_LOG_STATUS_OK then (st1, None, snd (mp_logger_destroy (Some l1) Thread_Ended os3))
         else if st2 \<noteq> MP_LOG_STATUS_OK then (st2, None, snd (mp_logger_destroy (Some l2) Thread_Ended os4))
         else if st3 \<noteq> MP_LOG_STATUS_OK then (st3, None, snd (mp_logger_destroy (Some l3) Thread_Ended os5))
         else (MP_LOG_STATUS_OK, Some l3, os5))"
      using create [unfolded mp_logger_create_def Let_def cal Some option.case prod.case clk,
          folded initial_logger_def, folded l0_def] valid
      by (auto simp: alloc opened built split: if_splits)
    have "keeps_resources os1 os2" using clk keeps_simple(1) [of os1] by simp
    then have a2: "acquired {block} os os2" using a1 Some acquired_keeps by fastforce
    then have wf2: "os_wf os2" by (simp add: acquired_def)
    from allocate_buffers_spec [OF wf2 alloc] obtain blocks where b: "acquired (live_blocks blocks) os2 os3" "apart_blocks blocks"
      "l1\<lparr>slots := slots l0, storage_blocks := storage_blocks l0\<rparr> = l0" "storage_blocks l1 = blocks @ storage_blocks l0"
      "st1 = (if None \<in> set blocks then MP_LOG_STATUS_IO_ERROR else MP_LOG_STATUS_OK)"
      "st1 = MP_LOG_STATUS_OK \<longrightarrow> storage_representable (logger_config l0) \<longrightarrow>
        slots l1 = replicate (unat (buffer_capacity (logger_config l0))) (fresh_slot (logger_config l0))" .
    have l1: "logger_config l1 = normalize_config c" "backup_fd l1 = None" "streams l1 = []" "\<not> worker_started l1"
        "storage_blocks l1 = blocks @ [Some block]" "table_ok l1"
        "queue_head l1 = 0" "queue_tail l1 = 0" "queue_count l1 = 0" "render_capacity l1 = mp_logger_render_capacity c"
        "\<not> shutdown_requested l1"
      using b(3,4) by (cases l1; simp add: l0_def initial_logger_def zeroed_logger_def table_ok_def mask_ok_def)+
    have a3: "acquired (live_blocks (storage_blocks l1)) os os3" "apart_blocks (storage_blocks l1)"
      using acquired_trans [OF a2 b(1)] b(2) by (auto simp: l1 apart_blocks_snoc insert_commute)
    then have h1: "holdings os l1 {} os3" by (intro holdings_no_streams) (simp_all add: l1)
    have wf3: "os_wf os3" using a3 by (simp add: acquired_def)
    note o = backup_open_spec [OF wf3 l1(2) opened]
    have l2: "logger_config l2 = normalize_config c" "streams l2 = []" "\<not> worker_started l2"
        "storage_blocks l2 = storage_blocks l1" "table_ok l2" "slots l2 = slots l1" "queue_count l2 = 0"
        "ring_ok l2 = ring_ok l1" "render_capacity l2 = mp_logger_render_capacity c" "\<not> shutdown_requested l2"
      using o l1 by (cases l1; cases l2; simp add: table_ok_def mask_ok_def ring_ok_def ring_index_def Let_def)+
    have a4: "acquired (set_option (backup_fd l2) \<union> live_blocks (storage_blocks l2)) os os4"
        "set_option (backup_fd l2) \<inter> live_blocks (storage_blocks l2) = {}"
      using acquired_trans [OF a3(1), of "set_option (backup_fd l2)" os4] o by (auto simp: l2 Un_commute)
    then have h2: "holdings os l2 {} os4" using a3(2) by (intro holdings_no_streams) (simp_all add: l2)
    have wf4: "os_wf os4" using a4 by (simp add: acquired_def)
    have "wf_array MP_LOGGER_ACTIVE_STREAMS_CAPACITY (active_streams (logger_config l2))"
      using wf_normalize [OF c] by (simp add: l2 wf_config_def)
    from build_builtin_streams_built [OF wf4 l2(5,2) _ this built] o
    have t: "table_built os4 l3 os5" "same_but_streams l2 l3"
        "subseq (map (\<lambda>s. cstr (stream_name s)) (streams l3)) (stream_names (trim (cstr (active_streams c))))"
        "st3 = MP_LOG_STATUS_OK \<longrightarrow> set (stream_names (trim (cstr (active_streams c)))) \<subseteq> builtin_names"
      by (simp_all add: l2 normalize_config_def)
    note same = teardown_same_but_streams [OF t(2)]
    obtain S where S: "acquired S os4 os5" "owns S (destroy_streams_loop (streams l3))"
      using t(1) by (auto simp: table_built_def)
    have h3: "holdings os l3 {} os5"
      using acquired_trans [OF a4(1) S(1)] S(2) a3(2) a4(2) same
      by (auto simp: holdings_def l2 ac_simps intro!: exI [of _ S])
    have ready: "logger_ready l3" if "storage_representable c" "6 * render_bound c < 2 ^ 64 - 1" "st1 = MP_LOG_STATUS_OK"
    proof -
      have "storage_representable (logger_config l0)" using that(1) by (simp add: l0_def storage_representable_def)
      then have "ring_ok l1"
        using b(6) that(3) validate_capacities [OF valid]
        by (intro ring_ok_fresh) (simp_all add: l1 l0_def capacities_ok_def)
      then have "ring_ok l3" using same by (simp add: l2)
      then show ?thesis
        using that(2) same wf_normalize [OF c] same_but_streams_config [OF t(2)] by (simp add: logger_ready_def l2)
    qed
    have destroyed: "acquired {} os (snd (mp_logger_destroy (Some l1) Thread_Ended os3))"
        "acquired {} os (snd (mp_logger_destroy (Some l2) Thread_Ended os4))"
        "acquired {} os (snd (mp_logger_destroy (Some l3) Thread_Ended os5))"
      using teardown_holdings [OF h1] teardown_holdings [OF h2] teardown_holdings [OF h3] same
      by (simp_all add: destroy_stopped l1 l2)
    show ?thesis
    proof (cases "st1 = MP_LOG_STATUS_OK \<and> st2 = MP_LOG_STATUS_OK \<and> st3 = MP_LOG_STATUS_OK")
      case False
      then show ?thesis using r destroyed by (auto split: if_splits)
    next
      case True
      then show ?thesis
        using r ready t o h3 same l2 same_but_streams_config [OF t(2)]
        by (auto simp: table_built_def)
    qed
  qed
qed

end
