(* ===== verification/Logger_Api.thy ===== *)
theory Logger_Api
  imports Logger_Lifecycle
begin

text \<open>
  Histories of API calls on one logger, from \<open>mp_logger_create\<close> to \<open>mp_logger_destroy\<close>:
  what every call keeps of the logger and of the resources it holds.
\<close>

section \<open>Calls\<close>

text \<open>
  \<open>Api_Run\<close> lets the worker thread run to its next wait or its end; the others are calls of
  the application. A reading of the clock comes with a log call.
\<close>

datatype 'a api_call =
    Api_Add_Stream "'a mp_logger_stream"
  | Api_Configure mp_logger_config
  | Api_Start
  | Api_Log "(int \<times> int) option" log_call
  | Api_Run
  | Api_Shutdown "32 word"

fun api_step :: "'a api_call \<Rightarrow> 'a mp_logger \<times> worker_thread \<times> 'a os \<Rightarrow> 'a mp_logger \<times> worker_thread \<times> 'a os" where
  "api_step (Api_Add_Stream s) (l, thread, os) = (the (snd (mp_logger_add_stream (Some l) (Some s))), thread, os)"
| "api_step (Api_Configure c) (l, thread, os) = (the (snd (mp_logger_configure (Some l) (Some c))), thread, os)"
| "api_step Api_Start (l, thread, os) = apfst the (snd (mp_logger_start (Some l) thread os))"
| "api_step (Api_Log now call) (l, thread, os) = (snd (enqueue_call now call l), thread, os)"
| "api_step Api_Run (l, thread, os) = run_thread l thread os"
| "api_step (Api_Shutdown timeout) (l, thread, os) = apfst the (snd (mp_logger_shutdown (Some l) thread timeout os))"

fun api_run :: "'a api_call list \<Rightarrow> 'a mp_logger \<times> worker_thread \<times> 'a os \<Rightarrow> 'a mp_logger \<times> worker_thread \<times> 'a os" where
  "api_run [] st = st"
| "api_run (c # cs) st = api_run cs (api_step c st)"

text \<open>
  What the application has to provide: custom streams whose callbacks leave the resources of the
  logger alone, and fields that can be read.
\<close>

definition foreign_stream :: "'a mp_logger_stream \<Rightarrow> bool" where
  "foreign_stream s \<longleftrightarrow>
     (\<forall>w r b n os. stream_write s = Some w \<longrightarrow> keeps_resources os (snd (w r b n os))) \<and> owns {} (destroy_stream s)"

definition api_call_ok :: "'a api_call \<Rightarrow> bool" where
  "api_call_ok c =
     (case c of
        Api_Add_Stream s \<Rightarrow> foreign_stream s
      | Api_Log now call \<Rightarrow> fields_readable (call_fields_ptr call) (call_field_count call)
      | _ \<Rightarrow> True)"

section \<open>What the steps keep\<close>

lemma holdings_keeps: "holdings os0 l W os \<Longrightarrow> keeps_resources os os' \<Longrightarrow> holdings os0 l W os'"
  unfolding holdings_def using acquired_keeps by blast

lemma holdings_wf: "holdings os0 l W os \<Longrightarrow> os_wf os"
  by (auto simp: holdings_def acquired_def)

lemma holdings_cong:
  "storage_blocks l' = storage_blocks l \<Longrightarrow> backup_fd l' = backup_fd l \<Longrightarrow>
   destroy_streams_loop (streams l') = destroy_streams_loop (streams l) \<Longrightarrow> holdings os0 l' W os = holdings os0 l W os"
  by (simp add: holdings_def)

lemma holdings_acquire:
  assumes "holdings os0 l {} os" and "acquired W os os'"
  shows "holdings os0 l W os'"
proof -
  obtain S where S: "acquired (S \<union> set_option (backup_fd l) \<union> live_blocks (storage_blocks l)) os0 os"
      "owns S (destroy_streams_loop (streams l))" "S \<inter> set_option (backup_fd l) = {}"
      "(S \<union> set_option (backup_fd l)) \<inter> live_blocks (storage_blocks l) = {}"
    and apart: "apart_blocks (storage_blocks l)"
    using assms(1) by (auto simp: holdings_def)
  show ?thesis
    using acquired_trans [OF S(1) assms(2)] S(2-4) apart by (auto simp: holdings_def intro!: exI [of _ S])
qed

lemma holdings_release:
  assumes "holdings os0 l W os" and "owns W d"
  shows "holdings os0 l {} (d os)"
proof -
  obtain S where S: "acquired ((S \<union> set_option (backup_fd l) \<union> live_blocks (storage_blocks l)) \<union> W) os0 os"
      "owns S (destroy_streams_loop (streams l))" "S \<inter> set_option (backup_fd l) = {}"
      "(S \<union> set_option (backup_fd l)) \<inter> live_blocks (storage_blocks l) = {}"
      "(S \<union> set_option (backup_fd l) \<union> live_blocks (storage_blocks l)) \<inter> W = {}"
    and apart: "apart_blocks (storage_blocks l)"
    using assms(1) by (auto simp: holdings_def)
  have "acquired (S \<union> set_option (backup_fd l) \<union> live_blocks (storage_blocks l)) os0 (d os)"
    by (rule acquired_owns [OF _ _ assms(2)]) (use S(1,5) in \<open>auto simp: Un_commute\<close>)
  then show ?thesis using S(2-4) apart by (auto simp: holdings_def intro!: exI [of _ S])
qed

lemma keeps_ready:
  assumes "keeps_resources os os'"
  shows "backup_ready l os \<Longrightarrow> backup_ready l os'" and "streams_keep os ss \<Longrightarrow> streams_keep os' ss"
  using backup_ready_extends streams_keep_extends extends_keeps [OF extends_refl assms] by blast+

lemma ready_cong:
  assumes "os_resources os' = os_resources os"
  shows "backup_ready l os' = backup_ready l os" and "streams_keep os' ss = streams_keep os ss"
  using assms by (simp_all add: backup_ready_def streams_keep_def extends_os_def)

text \<open>The system without some resources: what the streams and the backup log need is among the rest.\<close>

definition without :: "nat set \<Rightarrow> 'a os \<Rightarrow> 'a os" where
  "without W os = os\<lparr>os_resources := (\<lambda>i. if i \<in> W then None else os_resources os i)\<rparr>"

lemma extends_without: "extends_os (without W os) os"
  by (simp add: extends_os_def without_def)

lemma without_empty [simp]: "without {} os = os"
  by (simp add: without_def)

lemma without_resources:
  "keeps_resources os os' \<Longrightarrow> os_resources (without W os') = os_resources (without W os)"
  "acquired W os os' \<Longrightarrow> os_resources (without W os') = os_resources os"
  "owns W d \<Longrightarrow> \<forall>i \<in> W. os_resources os i \<noteq> None \<Longrightarrow> os_resources (d os) = os_resources (without W os)"
  by (auto simp: without_def keeps_resources_def acquired_def owns_def fun_eq_iff)

text \<open>
  The state of a logger in use: the ring, the stream table and the thread are well formed, the
  resources that the callbacks and the backup log use are live and none of them is a buffer of
  the thread, and all resources are accounted for.
\<close>

definition thread_blocks :: "worker_thread \<Rightarrow> nat set" where
  "thread_blocks thread = (case thread of Thread_Waiting w \<Rightarrow> live_blocks (worker_blocks w) | _ \<Rightarrow> {})"

definition thread_ok :: "'a mp_logger \<Rightarrow> worker_thread \<Rightarrow> bool" where
  "thread_ok l thread \<longleftrightarrow>
     (case thread of
        Thread_Starting \<Rightarrow> worker_started l
      | Thread_Waiting w \<Rightarrow> worker_started l \<and> worker_ready l w \<and> apart_blocks (worker_blocks w)
      | Thread_Ended \<Rightarrow> True)"

definition outside_ok :: "'a os \<Rightarrow> 'a mp_logger \<Rightarrow> nat set \<Rightarrow> 'a os \<Rightarrow> bool" where
  "outside_ok os0 l W os \<longleftrightarrow>
     backup_ready l (without W os) \<and> streams_keep (without W os) (streams l) \<and> holdings os0 l W os"

definition life_ok :: "'a os \<Rightarrow> 'a mp_logger \<Rightarrow> worker_thread \<Rightarrow> 'a os \<Rightarrow> bool" where
  "life_ok os0 l thread os \<longleftrightarrow>
     logger_ready l \<and> table_ok l \<and> thread_ok l thread \<and> outside_ok os0 l (thread_blocks thread) os"

lemma outside_ok_keeps: "outside_ok os0 l W os \<Longrightarrow> keeps_resources os os' \<Longrightarrow> outside_ok os0 l W os'"
  using holdings_keeps ready_cong [OF without_resources(1)] unfolding outside_ok_def by blast

lemma outside_ok_acquire: "outside_ok os0 l {} os \<Longrightarrow> acquired W os os' \<Longrightarrow> outside_ok os0 l W os'"
  using holdings_acquire ready_cong [OF without_resources(2)] unfolding outside_ok_def by fastforce

lemma outside_ok_release: "outside_ok os0 l W os \<Longrightarrow> owns W d \<Longrightarrow> outside_ok os0 l {} (d os)"
proof -
  assume out: "outside_ok os0 l W os" and d: "owns W d"
  then have held: "holdings os0 l W os" by (simp add: outside_ok_def)
  then have "\<forall>i \<in> W. os_resources os i \<noteq> None" by (auto simp: holdings_def acquired_def)
  note same = ready_cong [OF without_resources(3) [OF d this]]
  show ?thesis using out holdings_release [OF held d] by (simp add: outside_ok_def same)
qed

lemma outside_ok_ready: "outside_ok os0 l W os \<Longrightarrow> backup_ready l os \<and> streams_keep os (streams l) \<and> os_wf os"
  using backup_ready_extends [OF _ extends_without] streams_keep_extends [OF _ extends_without] holdings_wf
  unfolding outside_ok_def by blast

text \<open>The drain and the warnings leave all but the queue and the counters.\<close>

lemma same_settings_ok:
  assumes "same_settings l l'"
  shows "table_ok l' = table_ok l" "outside_ok os0 l' W os = outside_ok os0 l W os"
proof -
  note s = same_settingsD [OF assms]
  show "table_ok l' = table_ok l" by (simp add: table_ok_def mask_ok_def s)
  have "holdings os0 l' W os = holdings os0 l W os" by (rule holdings_cong) (simp_all add: s)
  then show "outside_ok os0 l' W os = outside_ok os0 l W os"
    by (simp add: outside_ok_def backup_ready_def s)
qed

lemma worker_ready_logger: "worker_ready l w \<Longrightarrow> logger_ready l"
  by (simp add: worker_ready_def logger_ready_def ring_inv_def)

text \<open>A worker with its buffers runs to its next wait or its end.\<close>

lemma drain_life:
  assumes "life_ok os0 l (Thread_Waiting w) os" and "worker_drain (l, w, os) = (finished, l', w', os')"
  shows "finished = shutdown_requested l \<and> same_settings l l' \<and> queue_count l' = 0 \<and>
    life_ok os0 l' (if finished then Thread_Ended else Thread_Waiting w')
      (if finished then worker_finish l' w' os' else os')"
proof -
  have l: "table_ok l" "worker_ready l w" "apart_blocks (worker_blocks w)" "worker_started l"
      "outside_ok os0 l (live_blocks (worker_blocks w)) os"
    using assms(1) by (simp_all add: life_ok_def thread_ok_def thread_blocks_def)
  note out = outside_ok_ready [OF l(5)]
  have e: "finished = shutdown_requested l" "queue_count l' = 0" "worker_ready l' w'" "worker_blocks w' = worker_blocks w"
      "same_settings l l'"
    using worker_drain_ends [OF l(2), of os] assms(2) by auto
  have "keeps_resources os os'"
    using worker_drain_keeps [OF l(2) _ _ extends_refl assms(2)] out by blast
  note after = outside_ok_keeps [OF l(5) this, folded same_settings_ok(2) [OF e(5)]]
  obtain seen os2 where f: "mp_logger_flush_drop_counters l' (worker_last w') os' = (seen, os2)" by (metis surj_pair)
  then have "keeps_resources os' os2" using flush_drop_keeps outside_ok_ready [OF after] by blast
  note finish = outside_ok_release [OF outside_ok_keeps [OF after this] owns_free_all [OF l(3)]]
  have "worker_finish l' w' os' = free_all (worker_blocks w) os2"
    by (simp add: worker_finish_def f e(4))
  then show ?thesis
    using e l after finish worker_ready_logger [OF e(3)] same_settings_ok(1) [OF e(5)] same_settingsD [OF e(5)]
    by (simp add: life_ok_def thread_ok_def thread_blocks_def)
qed

lemma run_thread_life:
  assumes life: "life_ok os0 l thread os" and run: "run_thread l thread os = (l', thread', os')"
  shows "life_ok os0 l' thread' os' \<and> same_settings l l' \<and>
    (shutdown_requested l \<longrightarrow> thread' = Thread_Ended)"
proof (cases thread)
  case Thread_Ended
  then show ?thesis using assms by (simp add: run_thread_def)
next
  case (Thread_Waiting w)
  obtain finished l1 w1 os1 where d: "worker_drain (l, w, os) = (finished, l1, w1, os1)" by (metis prod_cases4)
  from drain_life [OF life [unfolded Thread_Waiting] d] show ?thesis
    using run by (cases finished) (auto simp: run_thread_def Thread_Waiting d)
next
  case Thread_Starting
  have l: "logger_ready l" "table_ok l" "worker_started l" "outside_ok os0 l {} os"
    using life by (simp_all add: life_ok_def thread_ok_def thread_blocks_def Thread_Starting)
  obtain p os1 where s: "worker_start l os = (p, os1)" by (metis surj_pair)
  have "backup_ready l os" "os_wf os" using outside_ok_ready [OF l(4)] by simp_all
  note start = worker_start_spec [OF this(2,1) s]
  show ?thesis
  proof (cases p)
    case None
    then have "outside_ok os0 l {} os1" using outside_ok_acquire [OF l(4)] start by simp
    then show ?thesis
      using run l None s
      by (auto simp: run_thread_def Thread_Starting mp_logger_worker_main_def life_ok_def thread_ok_def thread_blocks_def)
  next
    case (Some w)
    then have w: "acquired (live_blocks (worker_blocks w)) os os1" "apart_blocks (worker_blocks w)" "worker_ready l w"
      using start l(1) by simp_all
    then have waiting: "life_ok os0 l (Thread_Waiting w) os1"
      using l outside_ok_acquire [OF l(4) w(1)] by (simp add: life_ok_def thread_ok_def thread_blocks_def)
    obtain finished l1 w1 os2 where d: "worker_drain (l, w, os1) = (finished, l1, w1, os2)" by (metis prod_cases4)
    from drain_life [OF waiting d] show ?thesis
      using run by (cases finished) (auto simp: run_thread_def Thread_Starting mp_logger_worker_main_def s Some d)
  qed
qed

lemma life_ok_flag [simp]: "life_ok os0 (l\<lparr>shutdown_requested := b\<rparr>) thread os = life_ok os0 l thread os"
proof -
  have "holdings os0 (l\<lparr>shutdown_requested := b\<rparr>) W os = holdings os0 l W os" for W
    by (rule holdings_cong) simp_all
  then show ?thesis
    by (simp add: life_ok_def logger_ready_def table_ok_def mask_ok_def outside_ok_def backup_ready_def thread_ok_def
        worker_ready_def ring_inv_def split: worker_thread.split)
qed

lemma life_ok_started:
  assumes "life_ok os0 l Thread_Ended os"
  shows "life_ok os0 (l\<lparr>worker_started := b\<rparr>) Thread_Ended os" and "life_ok os0 (l\<lparr>worker_started := True\<rparr>) Thread_Starting os"
proof -
  have "holdings os0 (l\<lparr>worker_started := b\<rparr>) {} os = holdings os0 l {} os" for b
    by (rule holdings_cong) simp_all
  moreover have "ring_ok (l\<lparr>worker_started := b\<rparr>) = ring_ok l" for b
    by (simp add: ring_ok_def ring_index_def Let_def)
  ultimately show "life_ok os0 (l\<lparr>worker_started := b\<rparr>) Thread_Ended os"
      "life_ok os0 (l\<lparr>worker_started := True\<rparr>) Thread_Starting os"
    using assms
    by (simp_all add: life_ok_def logger_ready_def table_ok_def mask_ok_def outside_ok_def backup_ready_def thread_ok_def
        thread_blocks_def)
qed

lemma life_ok_keeps: "life_ok os0 l thread os \<Longrightarrow> keeps_resources os os' \<Longrightarrow> life_ok os0 l thread os'"
  using outside_ok_keeps unfolding life_ok_def by blast

lemma life_ok_running: "life_ok os0 l thread os \<Longrightarrow> \<not> worker_started l \<Longrightarrow> thread = Thread_Ended"
  by (cases thread) (auto simp: life_ok_def thread_ok_def)

text \<open>Operations that touch neither the table nor the resources.\<close>

lemma life_ok_queue:
  assumes life: "life_ok os0 l thread os"
    and ring: "\<And>sc. ring_inv (l, sc) \<Longrightarrow> ring_inv (l', sc) \<and> logger_config l' = logger_config l"
    and same: "l'\<lparr>slots := slots l, queued_records_total := queued_records_total l, queue_tail := queue_tail l,
      queue_count := queue_count l, dropped_busy_total := dropped_busy_total l, dropped_full_total := dropped_full_total l\<rparr> = l"
  shows "life_ok os0 l' thread os"
proof -
  have eq: "logger_config l' = logger_config l" "render_capacity l' = render_capacity l" "streams l' = streams l"
      "enabled_level_mask l' = enabled_level_mask l" "storage_blocks l' = storage_blocks l" "backup_fd l' = backup_fd l"
      "worker_started l' = worker_started l"
    using same by (cases l; cases l'; simp)+
  have ring': "ring_ok l \<longrightarrow> ring_ok l'" using ring [of "fresh_scratch (logger_config l)"] by (simp add: ring_inv_def)
  have "holdings os0 l' W os = holdings os0 l W os" for W by (rule holdings_cong) (simp_all add: eq)
  then show ?thesis
    using life ring' ring
    by (auto simp: life_ok_def logger_ready_def table_ok_def mask_ok_def outside_ok_def backup_ready_def thread_ok_def
        worker_ready_def eq split: worker_thread.splits)
qed

lemma log_life:
  assumes life: "life_ok os0 l thread os" and "fields_readable (call_fields_ptr call) (call_field_count call)"
  shows "life_ok os0 (snd (enqueue_call now call l)) thread os"
proof (rule life_ok_queue [OF life])
  obtain status l' where e: "enqueue_call now call l = (status, l')" by (metis surj_pair)
  show "ring_inv (snd (enqueue_call now call l), sc) \<and> logger_config (snd (enqueue_call now call l)) = logger_config l"
    if "ring_inv (l, sc)" for sc
    using enqueue_call_step [OF that assms(2) e] by (simp add: e)
  show "(snd (enqueue_call now call l))\<lparr>slots := slots l, queued_records_total := queued_records_total l,
      queue_tail := queue_tail l, queue_count := queue_count l, dropped_busy_total := dropped_busy_total l,
      dropped_full_total := dropped_full_total l\<rparr> = l"
    by (simp add: enqueue_call_def admit_record_def Let_def)
qed

lemma start_life:
  assumes life: "life_ok os0 l thread os" and "mp_logger_start (Some l) thread os = (status, p, thread', os')"
  shows "\<exists>l'. p = Some l' \<and> life_ok os0 l' thread' os'"
proof (cases "worker_started l \<or> streams l = []")
  case True
  then show ?thesis using assms by (auto simp: mp_logger_start_def Let_def split: if_splits)
next
  case False
  then have ended: "thread = Thread_Ended" using life_ok_running [OF life] by blast
  obtain ok os1 where t: "os_try os = (ok, os1)" by (metis surj_pair)
  then have "keeps_resources os os1" using keeps_simple(5) [of os] by simp
  from life_ok_keeps [OF life this] have after: "life_ok os0 (l\<lparr>shutdown_requested := False\<rparr>) Thread_Ended os1"
    by (simp add: ended)
  then show ?thesis
    using assms(2) False life_ok_started(2) [OF after] by (auto simp: mp_logger_start_def ended t Let_def split: if_splits)
qed

lemma shutdown_life:
  assumes life: "life_ok os0 l thread os" and sd: "mp_logger_shutdown (Some l) thread timeout os = (status, p, thread', os')"
  shows "\<exists>l'. p = Some l' \<and> life_ok os0 l' thread' os' \<and> shutdown_requested l' \<and>
    (status = MP_LOG_STATUS_OK \<longrightarrow> thread' = Thread_Ended \<and> \<not> worker_started l') \<and>
    (status \<noteq> MP_LOG_STATUS_OK \<longrightarrow> status = MP_LOG_STATUS_INTERNAL_ERROR \<and> thread' = thread \<and>
      l' = l\<lparr>shutdown_requested := True\<rparr>)"
proof (cases "worker_started l")
  case False
  then show ?thesis using assms life_ok_running [OF life] by (auto simp: mp_logger_shutdown_def)
next
  case True
  let ?l = "l\<lparr>shutdown_requested := True\<rparr>"
  obtain now os1 where c: "(if timeout > 0 then clock_realtime os else (Some (0, 0), os)) = (now, os1)" by (metis surj_pair)
  then have k1: "keeps_resources os os1" by (metis keeps_refl keeps_simple(1) snd_conv)
  obtain ok os2 where t: "os_try os1 = (ok, os2)" by (metis surj_pair)
  then have "keeps_resources os os2" using keeps_simple(5) [of os1] keeps_trans [OF k1] by simp
  then have l: "life_ok os0 ?l thread os1" "life_ok os0 ?l thread os2" using life_ok_keeps [OF life] k1 by simp_all
  obtain l3 thread3 os3 where r: "run_thread ?l thread os2 = (l3, thread3, os3)" by (metis prod_cases3)
  from run_thread_life [OF l(2) r] have run: "life_ok os0 l3 Thread_Ended os3" "thread3 = Thread_Ended" "shutdown_requested l3"
    using same_settingsD(4) [of ?l l3] by auto
  show ?thesis
    using sd l run True life_ok_started(1) [OF run(1)]
    by (auto simp: mp_logger_shutdown_def c t r Let_def split: if_splits)
qed

lemma destroy_streams_apply: "destroy_streams_loop (map (apply_config_to_stream c) ss) = destroy_streams_loop ss"
proof -
  have "destroy_stream (apply_config_to_stream c s) = destroy_stream s" for s :: "'a mp_logger_stream"
    by (simp add: fun_eq_iff destroy_stream_def apply_config_to_stream_def)
  then have "destroy_streams_loop (map (apply_config_to_stream c) ss) os = destroy_streams_loop ss os" for os
    by (induction ss arbitrary: os) simp_all
  then show ?thesis by (rule ext)
qed

lemma streams_keep_apply: "streams_keep os ss \<Longrightarrow> streams_keep os (map (apply_config_to_stream c) ss)"
  by (auto simp: streams_keep_def apply_config_to_stream_def split: if_splits)

lemma add_stream_life:
  assumes life: "life_ok os0 l thread os" and foreign: "foreign_stream s"
    and add: "mp_logger_add_stream (Some l) (Some s) = (status, Some l')"
  shows "life_ok os0 l' thread os"
proof (cases "status = MP_LOG_STATUS_OK")
  case False
  then show ?thesis
    using life add by (cases rule: add_owned_stream_cases [of s l]) (auto simp: mp_logger_add_stream_def)
next
  case True
  then have l': "l' = l\<lparr>streams := streams l @ [s],
      enabled_level_mask := or (enabled_level_mask l) (mp_logger_level_range_mask (minimum_level s) (maximum_level s))\<rparr>"
    using add by (cases rule: add_owned_stream_cases [of s l]) (auto simp: mp_logger_add_stream_def)
  have table: "table_ok l'"
    using life table_ok_add add by (auto simp: life_ok_def mp_logger_add_stream_def)
  have keep: "streams_keep os' [s]" for os'
    using foreign by (simp add: foreign_stream_def streams_keep_def)
  let ?W = "thread_blocks thread"
  obtain S where S: "acquired ((S \<union> set_option (backup_fd l) \<union> live_blocks (storage_blocks l)) \<union> ?W) os0 os"
      "owns S (destroy_streams_loop (streams l))" "S \<inter> set_option (backup_fd l) = {}"
      "(S \<union> set_option (backup_fd l)) \<inter> live_blocks (storage_blocks l) = {}"
      "(S \<union> set_option (backup_fd l) \<union> live_blocks (storage_blocks l)) \<inter> ?W = {}"
      "apart_blocks (storage_blocks l)"
    using life by (auto simp: life_ok_def outside_ok_def holdings_def)
  have "owns (S \<union> {}) (\<lambda>os. destroy_stream s (destroy_streams_loop (streams l) os))"
    using foreign by (intro owns_comp [OF S(2)]) (simp_all add: foreign_stream_def)
  then have "holdings os0 l' ?W os"
    using S by (auto simp: holdings_def l' destroy_streams_snoc intro!: exI [of _ S])
  then show ?thesis
    using life table keep
    by (auto simp: life_ok_def logger_ready_def outside_ok_def backup_ready_def thread_ok_def l' worker_ready_def
        ring_inv_def ring_ok_def ring_index_def Let_def split: worker_thread.splits)
qed

text \<open>A compatible config has the same capacities, and the rest of it is never measured.\<close>

lemma capacities_cong:
  assumes "mp_logger_runtime_config_is_compatible c d"
  shows "capacities_ok d = capacities_ok c" "wf_slot d = wf_slot c" "filled_slot d = filled_slot c" "wf_scratch d = wf_scratch c"
    "render_bound d = render_bound c" "mp_logger_render_capacity d = mp_logger_render_capacity c"
    "buffer_capacity d = buffer_capacity c"
proof -
  have "valid_value d = valid_value c"
    using assms by (intro ext, rename_tac v, case_tac v) (simp_all add: mp_logger_runtime_config_is_compatible_def)
  then have valid: "valid_field d = valid_field c"
    using assms by (intro ext) (simp add: valid_field_def mp_logger_runtime_config_is_compatible_def)
  show "capacities_ok d = capacities_ok c" "wf_slot d = wf_slot c" "filled_slot d = filled_slot c" "wf_scratch d = wf_scratch c"
      "render_bound d = render_bound c" "mp_logger_render_capacity d = mp_logger_render_capacity c"
      "buffer_capacity d = buffer_capacity c"
    using assms
    by (simp_all add: fun_eq_iff valid capacities_ok_def wf_slot_def filled_slot_def wf_scratch_def storage_ok_def render_bound_def
        mp_logger_render_capacity_def mp_logger_runtime_config_is_compatible_def)
qed

lemma configure_life:
  assumes life: "life_ok os0 l thread os" and conf: "mp_logger_configure (Some l) (Some c) = (status, Some l')"
  shows "life_ok os0 l' thread os"
proof (cases "status = MP_LOG_STATUS_OK")
  case False
  then have "l' = l" using conf by (auto simp: mp_logger_configure_def Let_def split: if_splits)
  then show ?thesis using life by simp
next
  case True
  define d where "d = reconfigured (logger_config l) (normalize_config c)"
  have l': "l' = mp_logger_apply_config_to_streams (l\<lparr>logger_config := d\<rparr>)"
    using conf True by (auto simp: mp_logger_configure_def Let_def d_def split: if_splits)
  have comp: "mp_logger_runtime_config_is_compatible (logger_config l) d"
    by (simp add: d_def mp_logger_runtime_config_is_compatible_def reconfigured_def)
  note cong = capacities_cong [OF comp]
  have eq: "logger_config l' = d" "streams l' = map (apply_config_to_stream d) (streams l)" "slots l' = slots l"
      "queue_head l' = queue_head l" "queue_tail l' = queue_tail l" "queue_count l' = queue_count l"
      "render_capacity l' = render_capacity l" "backup_fd l' = backup_fd l" "storage_blocks l' = storage_blocks l"
      "worker_started l' = worker_started l"
    by (simp_all add: l' mp_logger_apply_config_to_streams_def mp_logger_refresh_enabled_level_mask_def)
  have wf: "wf_config (logger_config l)" using life by (simp add: life_ok_def logger_ready_def)
  then have "wf_config d" by (simp add: d_def wf_config_reconfigured)
  moreover have "ring_ok l' = ring_ok l"
    by (simp add: ring_ok_def ring_index_def Let_def eq cong)
  moreover have "table_ok l'"
    using life unfolding l' by (intro table_ok_apply_config) (simp add: life_ok_def table_ok_def mask_ok_def)
  moreover have "holdings os0 l' W os = holdings os0 l W os" for W
    by (rule holdings_cong) (simp_all add: eq destroy_streams_apply)
  ultimately show ?thesis
    using life wf streams_keep_apply
    by (auto simp: life_ok_def logger_ready_def outside_ok_def backup_ready_def thread_ok_def worker_ready_def ring_inv_def
        eq cong split: worker_thread.splits)
qed

lemma api_step_life:
  assumes "life_ok os0 l thread os" and "api_call_ok c" and "api_step c (l, thread, os) = (l', thread', os')"
  shows "life_ok os0 l' thread' os'"
proof (cases c)
  case (Api_Add_Stream s)
  obtain status p where a: "mp_logger_add_stream (Some l) (Some s) = (status, Some p)"
    by (cases rule: add_owned_stream_cases [of s l]) (simp_all add: mp_logger_add_stream_def)
  from add_stream_life [OF assms(1) _ a] show ?thesis
    using assms(2,3) by (simp add: Api_Add_Stream a api_call_ok_def)
next
  case (Api_Configure d)
  obtain status p where a: "mp_logger_configure (Some l) (Some d) = (status, Some p)"
    using that by (cases "mp_logger_configure (Some l) (Some d)") (auto simp: mp_logger_configure_def Let_def split: if_splits)
  from configure_life [OF assms(1) a] show ?thesis using assms(3) by (simp add: Api_Configure a)
next
  case Api_Start
  obtain status p th o2 where a: "mp_logger_start (Some l) thread os = (status, p, th, o2)" by (metis prod_cases4)
  from start_life [OF assms(1) a] show ?thesis using assms(3) by (auto simp: Api_Start a)
next
  case (Api_Log now call)
  then show ?thesis using log_life [OF assms(1)] assms(2,3) by (auto simp: api_call_ok_def)
next
  case Api_Run
  then show ?thesis using run_thread_life [OF assms(1)] assms(3) by simp
next
  case (Api_Shutdown timeout)
  obtain status p th o2 where a: "mp_logger_shutdown (Some l) thread timeout os = (status, p, th, o2)" by (metis prod_cases4)
  from shutdown_life [OF assms(1) a] show ?thesis using assms(3) by (auto simp: Api_Shutdown a)
qed

lemma api_run_life:
  "life_ok os0 l thread os \<Longrightarrow> list_all api_call_ok cs \<Longrightarrow> api_run cs (l, thread, os) = (l', thread', os') \<Longrightarrow>
   life_ok os0 l' thread' os'"
proof (induction cs arbitrary: l thread os)
  case Nil
  then show ?case by simp
next
  case (Cons c cs)
  obtain l1 th1 os1 where s: "api_step c (l, thread, os) = (l1, th1, os1)" by (metis prod_cases3)
  from api_step_life [OF Cons.prems(1) _ s] Cons show ?case by (simp add: s)
qed

lemma destroy_life:
  assumes life: "life_ok os0 l thread os" and destroy: "mp_logger_destroy (Some l) thread os = (thread', os')"
  shows "acquired (thread_blocks thread') os0 os' \<and> (thread' = Thread_Ended \<or> thread' = thread)"
proof -
  have down: "acquired (thread_blocks th) os0 (logger_teardown k o2)" if "life_ok os0 k th o2" for k th o2
    using that teardown_holdings by (auto simp: life_ok_def outside_ok_def)
  show ?thesis
  proof (cases "worker_started l")
    case False
    then show ?thesis using destroy down [OF life] by (simp add: destroy_stopped)
  next
    case True
    obtain status p th os1 where sd: "mp_logger_shutdown (Some l) thread 5000 os = (status, p, th, os1)" by (metis prod_cases4)
    from shutdown_life [OF life sd] obtain l1 where l1: "p = Some l1" "life_ok os0 l1 th os1"
        "th = Thread_Ended \<or> th = thread" by auto
    have "mp_logger_destroy (Some l) thread os = (th, logger_teardown l1 os1)"
      using True by (simp add: mp_logger_destroy_def sd l1)
    then show ?thesis using down [OF l1(2)] l1(3) destroy by auto
  qed
qed

section \<open>Flush\<close>

definition flush_stops ::
    "(nat \<Rightarrow> uint64_t) \<Rightarrow> (nat \<Rightarrow> (int \<times> int) option) \<Rightarrow> bool \<Rightarrow> int64_t \<Rightarrow> uint64_t \<Rightarrow> nat \<Rightarrow> bool" where
  "flush_stops processed clock timed deadline target k \<longleftrightarrow>
     target \<le> processed k \<or> timed \<and> deadline <s mp_logger_now_monotonic_millis (clock k)"

lemma flush_loop_runs:
  assumes "\<And>i. k \<le> i \<Longrightarrow> i < j \<Longrightarrow> \<not> flush_stops processed clock timed deadline target i" and "k \<le> j"
  shows "flush_loop processed clock timed deadline target k = flush_loop processed clock timed deadline target j"
  using assms
proof (induction "j - k" arbitrary: k)
  case 0
  then show ?case by simp
next
  case (Suc n)
  then have "\<not> flush_stops processed clock timed deadline target k" by simp
  then have "flush_loop processed clock timed deadline target k = flush_loop processed clock timed deadline target (Suc k)"
    by (subst flush_loop.simps) (auto simp: flush_stops_def not_le)
  with Suc show ?case by simp
qed

lemma flush_loop_ends:
  assumes "flush_loop processed clock timed deadline target k = Some s"
  shows "\<exists>j. flush_stops processed clock timed deadline target j"
  by (rule flush_loop.raw_induct [OF _ assms, where P = "\<lambda>p c t d n k s. \<exists>j. flush_stops p c t d n j"])
    (auto simp: flush_stops_def not_less split: if_splits)

lemma flush_loop_eq:
  "flush_loop processed clock timed deadline target 0 =
    (let stops = flush_stops processed clock timed deadline target in
     if \<exists>k. stops k then Some (if target \<le> processed (LEAST k. stops k) then MP_LOG_STATUS_OK else MP_LOG_STATUS_INTERNAL_ERROR)
     else None)"
proof (cases "\<exists>k. flush_stops processed clock timed deadline target k")
  case False
  then have "flush_loop processed clock timed deadline target 0 = None"
    using flush_loop_ends by (metis not_None_eq)
  then show ?thesis using False by (simp add: Let_def)
next
  case True
  let ?k = "LEAST k. flush_stops processed clock timed deadline target k"
  have stop: "flush_stops processed clock timed deadline target ?k" by (rule LeastI_ex [OF True])
  have "flush_loop processed clock timed deadline target 0 = flush_loop processed clock timed deadline target ?k"
    using not_less_Least by (intro flush_loop_runs) blast+
  also have "\<dots> = Some (if target \<le> processed ?k then MP_LOG_STATUS_OK else MP_LOG_STATUS_INTERNAL_ERROR)"
    using stop unfolding flush_stops_def [of _ _ _ _ _ ?k] by (subst flush_loop.simps) (auto simp: not_le)
  finally show ?thesis using True by (simp add: Let_def)
qed

section \<open>Creation succeeds\<close>

text \<open>A system in which every call works and no directory looks like a log file.\<close>

definition works :: "'a os \<Rightarrow> bool" where
  "works os \<longleftrightarrow> os_fault os = (\<lambda>_. None) \<and> (\<forall>p. suffix ''.log'' p \<longrightarrow> os_paths os p \<noteq> Some Directory)"

lemma calloc_works:
  assumes "works os" and "unat n * elem_size < 2 ^ 64"
  shows "\<exists>i os'. os_calloc n elem_size os = (Some i, os') \<and> works os' \<and> os_paths os' = os_paths os"
  using assms by (simp add: works_def os_calloc_def os_call_def acquire_def)

lemma calloc_all_works:
  assumes "works os" and "list_all (\<lambda>(n, elem_size). unat n * elem_size < 2 ^ 64) sizes"
  shows "\<exists>ps os'. calloc_all sizes os = (ps, os') \<and> None \<notin> set ps \<and> works os' \<and> os_paths os' = os_paths os"
  using assms
proof (induction sizes arbitrary: os)
  case Nil
  then show ?case by (simp add: calloc_all.simps)
next
  case (Cons s sizes)
  obtain n e where s: "s = (n, e)" by (cases s)
  from Cons.prems obtain i os1 where c: "os_calloc n e os = (Some i, os1)" "works os1" "os_paths os1 = os_paths os"
    using calloc_works [of os n e] by (auto simp: s)
  from Cons.IH [OF c(2)] Cons.prems show ?case by (auto simp: s calloc_all.simps c(1,3))
qed

lemma ensure_directory_works:
  assumes "works os" and "os_paths os (cstr p) \<noteq> Some Regular_File" and "\<not> suffix ''.log'' (cstr p)"
  shows "\<exists>os'. mp_logger_ensure_directory (Some p) os = (True, os') \<and> works os' \<and> os_paths os' (cstr p) \<noteq> Some Regular_File"
  using assms
  by (cases "os_paths os (cstr p)"; cases "the (os_paths os (cstr p))")
    (auto simp: mp_logger_ensure_directory_def works_def os_stat_def os_mkdir_def os_call_def)

lemma open_works:
  assumes "works os" and "suffix ''.log'' (cstr path)"
  shows "\<exists>i os'. os_open_append path os = (Some i, os') \<and> works os' \<and> (\<forall>p. \<not> suffix ''.log'' p \<longrightarrow> os_paths os' p = os_paths os p)"
  using assms by (auto simp: os_open_append_def works_def os_call_def acquire_def)

lemma length_run_suffix: "strlen (mp_logger_make_run_suffix now (zeros 32) 32) \<le> 31"
proof -
  have short: "length (cstr (snprintf (zeros 32) 32 s)) \<le> 31" if "NUL \<notin> set s" for s
    using that by (simp add: cstr_snprintf)
  have "NUL \<notin> set (run_suffix_text t)" for t using run_suffix_chars by fastforce
  then show ?thesis
    using short [of "''19700101T000000Z''"] short
    by (auto simp: mp_logger_make_run_suffix_def strlen_def Let_def split: option.split)
qed

text \<open>
  A logger that can open its files: the directory is usable, and its name leaves room for the
  name of a file.
\<close>

definition usable :: "'a mp_logger \<Rightarrow> 'a os \<Rightarrow> bool" where
  "usable l os \<longleftrightarrow> works os \<and> (let d = log_directory (logger_config l) in
     strlen d \<le> 155 \<and> os_paths os (cstr d) \<noteq> Some Regular_File \<and> \<not> suffix ''.log'' (cstr d)) \<and> strlen (run_suffix l) \<le> 31"

lemma stream_path_fits:
  assumes "usable l os"
  obtains path where "mp_logger_make_stream_path (zeros 256) 256 (log_directory (logger_config l)) (clean_prefix p) (run_suffix l) = (True, path)"
    and "suffix ''.log'' (cstr path)"
proof -
  obtain made path where path: "mp_logger_make_stream_path (zeros 256) 256 (log_directory (logger_config l)) (clean_prefix p)
      (run_suffix l) = (made, path)"
    by (metis surj_pair)
  have "length (stream_path (cstr (log_directory (logger_config l))) (cstr (clean_prefix p)) (cstr (run_suffix l))) < 256"
    using assms clean_prefix_length [of p] by (simp add: usable_def stream_path_def strlen_def Let_def)
  then show ?thesis
    using that make_stream_path_spec [OF _ _ path] path by (auto simp: stream_path_def suffix_def)
qed

lemma directory_works:
  assumes "usable l os"
  shows "\<exists>os'. mp_logger_ensure_directory (Some (log_directory (logger_config l))) os = (True, os') \<and> usable l os'"
  using assms ensure_directory_works [of os "log_directory (logger_config l)"] by (auto simp: usable_def Let_def)

lemma usable_keeps:
  "usable l os \<Longrightarrow> works os' \<Longrightarrow> (\<And>p. \<not> suffix ''.log'' p \<Longrightarrow> os_paths os' p = os_paths os p) \<Longrightarrow> usable l os'"
  by (simp add: usable_def Let_def)

text \<open>Then every built-in stream can be made.\<close>

lemma make_file_works:
  assumes "usable l os"
  shows "\<exists>s os'. mp_logger_make_file_stream l os = (MP_LOG_STATUS_OK, Some s, os') \<and> usable l os'"
proof -
  obtain os1 where dir: "mp_logger_ensure_directory (Some (log_directory (logger_config l))) os = (True, os1)" "usable l os1"
    using directory_works [OF assms] by blast
  obtain b os2 where b: "os_calloc 1 272 os1 = (Some b, os2)" "works os2" "os_paths os2 = os_paths os1"
    using calloc_works [of os1 1 272] dir(2) by (auto simp: usable_def)
  have u: "usable l os2" by (rule usable_keeps [OF dir(2) b(2)]) (simp add: b(3))
  obtain path where path: "mp_logger_make_stream_path (zeros 256) 256 (log_directory (logger_config l))
      (clean_prefix (file_name_prefix (logger_config l))) (run_suffix l) = (True, path)" "suffix ''.log'' (cstr path)"
    by (rule stream_path_fits [OF u])
  obtain i os3 where o: "os_open_append path os2 = (Some i, os3)" "works os3"
      "\<forall>p. \<not> suffix ''.log'' p \<longrightarrow> os_paths os3 p = os_paths os2 p"
    using open_works [OF b(2) path(2)] by blast
  have "usable l os3" by (rule usable_keeps [OF u o(2)]) (simp add: o(3))
  then show ?thesis by (simp add: mp_logger_make_file_stream_def Let_def dir(1) b(1) [unfolded One_nat_def] path(1) o(1))
qed

lemma make_builtin_works:
  assumes u: "usable l os" and n: "cstr n \<in> builtin_names"
  shows "\<exists>s os'. make_builtin_stream n l os = Some (MP_LOG_STATUS_OK, Some s, os') \<and> usable l os'"
proof -
  have std: "\<exists>s os'. mp_logger_make_stdio_stream m f lo hi os = (MP_LOG_STATUS_OK, Some s, os') \<and> usable l os'" for m f lo hi
  proof -
    obtain i os' where i: "os_calloc 1 272 os = (Some i, os')" "works os'" "os_paths os' = os_paths os"
      using calloc_works [of os 1 272] u by (auto simp: usable_def)
    have "usable l os'" by (rule usable_keeps [OF u i(2)]) (simp add: i(3))
    then show ?thesis by (simp add: mp_logger_make_stdio_stream_def Let_def i(1) [unfolded One_nat_def])
  qed
  have udp: "\<exists>s os'. mp_logger_make_udp_stream l os = (MP_LOG_STATUS_OK, Some s, os') \<and> usable l os'"
    using u by (auto simp: mp_logger_make_udp_stream_def Let_def os_getaddrinfo_def os_socket_def os_calloc_def os_free_def
        os_call_def acquire_def release_def usable_def works_def)
  show ?thesis
    using n std udp make_file_works [OF u]
    by (auto simp: make_builtin_stream_def builtin_names_def strcmp_eq_def Let_def cstr_Cons)
qed

lemma usable_add:
  "mp_logger_add_owned_stream (Some l) (Some s) = (st, Some l') \<Longrightarrow> usable l' os = usable l os"
  by (cases rule: add_owned_stream_cases [of s l]) (auto simp: usable_def)

lemma build_streams_loop_ok:
  assumes "cstr ` set names \<subseteq> builtin_names" and "distinct (map cstr names)"
    and "(\<lambda>s. cstr (stream_name s)) ` set (streams l) \<inter> cstr ` set names = {}"
    and "length (streams l) + length names \<le> MP_LOGGER_MAX_STREAMS" and "usable l os"
  shows "\<exists>l' os'. build_streams_loop names l os = (MP_LOG_STATUS_OK, l', os') \<and>
    map (\<lambda>s. cstr (stream_name s)) (streams l') = map (\<lambda>s. cstr (stream_name s)) (streams l) @ map cstr names \<and> works os'"
  using assms
proof (induction names arbitrary: l os)
  case Nil
  then show ?case by (simp add: usable_def)
next
  case (Cons n names)
  then obtain s os1 where m: "make_builtin_stream n l os = Some (MP_LOG_STATUS_OK, Some s, os1)" "usable l os1"
    using make_builtin_works [of l os n] by auto
  then have name: "cstr (stream_name s) = cstr n" and call: "stream_write s \<noteq> None"
    using make_builtin_stream_name [of n l os MP_LOG_STATUS_OK s os1]
    by (auto simp: make_builtin_stream_def mp_logger_make_stdio_stream_def mp_logger_make_file_stream_def
        mp_logger_make_udp_stream_def Let_def split: if_splits prod.splits option.splits)
  have "cstr n \<noteq> []" using Cons.prems(1) by (auto simp: builtin_names_def)
  then obtain l1 where add: "mp_logger_add_owned_stream (Some l) (Some s) = (MP_LOG_STATUS_OK, Some l1)"
      "streams l1 = streams l @ [s]"
    using Cons.prems(3,4) call by (cases rule: add_owned_stream_cases [of s l]) (auto simp: name)
  have "usable l1 os1" using usable_add [OF add(1)] m(2) by simp
  then have "\<exists>l' os'. build_streams_loop names l1 os1 = (MP_LOG_STATUS_OK, l', os') \<and>
      map (\<lambda>s. cstr (stream_name s)) (streams l') = map (\<lambda>s. cstr (stream_name s)) (streams l1) @ map cstr names \<and> works os'"
    using Cons.prems by (intro Cons.IH) (auto simp: add(2) name)
  then show ?case by (auto simp: m(1) add name)
qed

lemma backup_works:
  assumes u: "usable l os" and zero: "backup_path l = zeros 256"
  shows "\<exists>l' os'. mp_logger_backup_open l os = (MP_LOG_STATUS_OK, l', os') \<and> usable l' os' \<and>
    logger_config l' = logger_config l \<and> streams l' = streams l \<and> slots l' = slots l"
proof -
  obtain os1 where dir: "mp_logger_ensure_directory (Some (log_directory (logger_config l))) os = (True, os1)" "usable l os1"
    using directory_works [OF u] by blast
  obtain path where path: "mp_logger_make_stream_path (zeros 256) 256 (log_directory (logger_config l))
      (clean_prefix (backup_file_name_prefix (logger_config l))) (run_suffix l) = (True, path)" "suffix ''.log'' (cstr path)"
    by (rule stream_path_fits [OF u])
  obtain i os2 where o: "os_open_append path os1 = (Some i, os2)" "works os2"
      "\<forall>p. \<not> suffix ''.log'' p \<longrightarrow> os_paths os2 p = os_paths os1 p"
    using open_works [OF _ path(2), of os1] dir(2) by (auto simp: usable_def)
  have "usable l os2" by (rule usable_keeps [OF dir(2) o(2)]) (simp add: o(3))
  then show ?thesis by (simp add: mp_logger_backup_open_def Let_def dir(1) zero path(1) o(1)) (simp add: usable_def)
qed

text \<open>The loop only touches the table.\<close>

lemma build_streams_loop_same: "slots (fst (snd (build_streams_loop names l os))) = slots l"
proof (induction names arbitrary: l os)
  case Nil
  then show ?case by simp
next
  case (Cons n names)
  show ?case
  proof (cases "make_builtin_stream n l os")
    case None
    then show ?thesis by simp
  next
    case (Some r)
    obtain st sp os1 where r: "r = (st, sp, os1)" by (metis prod_cases3)
    show ?thesis
    proof (cases sp)
      case None
      then show ?thesis using Cons.IH by (simp add: Some r)
    next
      case s: (Some s)
      show ?thesis using Cons.IH by (cases rule: add_owned_stream_cases [of s l]) (simp_all add: Some r s)
    qed
  qed
qed

lemma create_ok:
  assumes os: "os_wf os" "works os" and c: "wf_config c" "mp_logger_validate_config c"
    and sizes: "unat (buffer_capacity c) * 88 < 2 ^ 64" "unat (buffer_capacity c * field_capacity c) * 24 < 2 ^ 64"
    and directory: "strlen (log_directory c) \<le> 155" "os_paths os (cstr (log_directory c)) \<noteq> Some Regular_File"
      "\<not> suffix ''.log'' (cstr (log_directory c))"
    and names: "set (stream_names (trim (cstr (active_streams c)))) \<subseteq> builtin_names"
      "distinct (stream_names (trim (cstr (active_streams c))))"
  shows "\<exists>l os'. mp_logger_create (Some c) os = (MP_LOG_STATUS_OK, Some l, os') \<and>
    map (\<lambda>s. cstr (stream_name s)) (streams l) = stream_names (trim (cstr (active_streams c))) \<and>
    slots l = map (partition_slot (normalize_config c)
      (unat (buffer_capacity c * message_capacity c), unat (buffer_capacity c * context_capacity c),
       unat (buffer_capacity c * field_capacity c), unat (buffer_capacity c * field_capacity c * field_key_capacity c),
       unat (buffer_capacity c * field_capacity c * field_value_capacity c))) [0..<unat (buffer_capacity c)] \<and> works os'"
proof -
  obtain block os1 where cal: "os_calloc 1 2304 os = (Some block, os1)" "works os1" "os_paths os1 = os_paths os"
    using calloc_works [OF os(2), of 1 2304] by auto
  obtain now os2 where clk: "clock_realtime os1 = (now, os2)" by (metis surj_pair)
  then have os2: "works os2" "os_paths os2 = os_paths os" using cal(2,3) by (auto simp: works_def clock_realtime_def os_call_def)
  define l0 where "l0 = (initial_logger c block now :: 'a mp_logger)"
  let ?bc = "buffer_capacity c"
  let ?sizes = "[(?bc, 88), (?bc * message_capacity c, 1), (?bc * context_capacity c, 1), (?bc * field_capacity c, 24),
    (?bc * field_capacity c * field_key_capacity c, 1), (?bc * field_capacity c * field_value_capacity c, 1)]"
  obtain blocks os3 where all: "calloc_all ?sizes os2 = (blocks, os3)" "None \<notin> set blocks" "works os3" "os_paths os3 = os_paths os"
    using calloc_all_works [OF os2(1), of ?sizes] sizes os2(2) unat_less_2p64 by auto
  obtain l1 where alloc: "mp_logger_allocate_buffers l0 os2 = (MP_LOG_STATUS_OK, l1, os3)"
    using all(2) unfolding mp_logger_allocate_buffers_def Let_def
    by (simp add: l0_def all(1) [unfolded One_nat_def])
  have l1: "logger_config l1 = normalize_config c" "backup_fd l1 = None" "streams l1 = []" "run_suffix l1 = run_suffix l0"
      "backup_path l1 = zeros 256" "table_ok l1"
      "slots l1 = map (partition_slot (normalize_config c) (unat (?bc * message_capacity c), unat (?bc * context_capacity c),
        unat (?bc * field_capacity c), unat (?bc * field_capacity c * field_key_capacity c),
        unat (?bc * field_capacity c * field_value_capacity c))) [0..<unat ?bc]"
    using alloc [unfolded mp_logger_allocate_buffers_def Let_def] all(1)
    by (auto simp: l0_def initial_logger_def zeroed_logger_def table_ok_def mask_ok_def split: prod.splits if_splits)
  have "strlen (run_suffix l0) \<le> 31" using length_run_suffix by (simp add: l0_def initial_logger_def)
  then have "usable l1 os3"
    using all(3,4) directory by (simp add: usable_def Let_def l1 normalize_config_def)
  then obtain l2 os5 where opened: "mp_logger_backup_open l1 os3 = (MP_LOG_STATUS_OK, l2, os5)" and l2: "usable l2 os5"
      "logger_config l2 = normalize_config c" "streams l2 = []" "slots l2 = slots l1"
    using backup_works [of l1 os3] by (auto simp: l1)
  let ?names = "stream_names (trim (cstr (active_streams c)))"
  obtain ok names n where split: "mp_logger_split_stream_list (Some (active_streams c)) (replicate 8 (zeros 32)) 8 = (ok, names, n)"
    by (metis prod_cases3)
  have four: "length ?names \<le> 4"
    using names card_mono [OF _ names(1)] by (simp add: builtin_names_def distinct_card)
  have "wf_names 8 (replicate 8 (zeros 32))" by (simp add: wf_names_def list_all_iff)
  moreover have "strlen (active_streams c) < MP_LOGGER_ACTIVE_STREAMS_CAPACITY"
    using c(1) by (intro strlen_less_array) (simp add: wf_config_def)
  ultimately have ok: "ok" "map cstr (take n names) = ?names"
    using split_stream_list_spec [of 8 "replicate 8 (zeros 32)" "active_streams c"] four by (auto simp: split)
  have "\<exists>l' os'. build_streams_loop (take n names) l2 os5 = (MP_LOG_STATUS_OK, l', os') \<and>
      map (\<lambda>s. cstr (stream_name s)) (streams l') = map (\<lambda>s. cstr (stream_name s)) (streams l2) @ map cstr (take n names) \<and> works os'"
  proof (rule build_streams_loop_ok)
    show "cstr ` set (take n names) \<subseteq> builtin_names" using names(1) ok(2) by (metis set_map)
    show "distinct (map cstr (take n names))" using names(2) ok(2) by simp
    have "length (take n names) \<le> 4" using four ok(2) by (metis length_map)
    then show "length (streams l2) + length (take n names) \<le> MP_LOGGER_MAX_STREAMS" by (simp add: l2)
  qed (simp_all add: l2)
  then obtain l3 os6 where loop: "build_streams_loop (take n names) l2 os5 = (MP_LOG_STATUS_OK, l3, os6)"
      "map (\<lambda>s. cstr (stream_name s)) (streams l3) = ?names" "works os6"
    by (auto simp: l2 ok(2))
  then have slots: "slots l3 = slots l1" using build_streams_loop_same [of "take n names" l2 os5] by (simp add: l2)
  have "mp_logger_build_builtin_streams l2 os5 = (MP_LOG_STATUS_OK, l3, os6)"
    using loop(1) ok(1) by (simp add: mp_logger_build_builtin_streams_def l2 normalize_config_def split)
  then have "mp_logger_create (Some c) os = (MP_LOG_STATUS_OK, Some l3, os6)"
    unfolding mp_logger_create_def Let_def cal option.case prod.case clk
      initial_logger_def [symmetric] l0_def [symmetric]
    using c(2) by (simp add: alloc opened)
  then show ?thesis using slots l1 loop(2,3) by simp
qed

lemma bootstrap_create_spec:
  assumes wf: "os_wf os" and r: "mp_logger_create_from_bootstrap read_file path os = (status, p, os')"
  shows "case p of
      None \<Rightarrow> status \<noteq> MP_LOG_STATUS_OK \<and> acquired {} os os'
    | Some (l, thread) \<Rightarrow> status = MP_LOG_STATUS_OK \<and> worker_started l \<and> \<not> shutdown_requested l \<and> streams l \<noteq> [] \<and>
        thread = Thread_Starting \<and>
        (\<exists>c. mp_logger_bootstrap_load read_file path (Some zeroed_config) = (MP_LOG_STATUS_OK, Some c) \<and>
           logger_config l = normalize_config c \<and>
           (storage_representable c \<longrightarrow> 6 * render_bound c < 2 ^ 64 - 1 \<longrightarrow> life_ok os l thread os'))"
proof (cases "fst (mp_logger_bootstrap_load read_file path (Some zeroed_config)) = MP_LOG_STATUS_OK")
  case False
  then show ?thesis using r wf by (auto simp: mp_logger_create_from_bootstrap_def split: prod.splits)
next
  case True
  then obtain c where load: "mp_logger_bootstrap_load read_file path (Some zeroed_config) = (MP_LOG_STATUS_OK, Some c)" "wf_config c"
    using bootstrap_load_keeps [where read_file = read_file and path = path and out = "Some zeroed_config"]
    by (auto simp: config_inv_def split: prod.splits)
  obtain st1 q os1 where create: "mp_logger_create (Some c) os = (st1, q, os1)" by (metis prod_cases3)
  note spec = create_spec [OF wf load(2) create]
  show ?thesis
  proof (cases q)
    case None
    then show ?thesis using r spec by (simp add: mp_logger_create_from_bootstrap_def load(1) create)
  next
    case (Some l)
    then have l: "st1 = MP_LOG_STATUS_OK" "\<not> worker_started l" "\<not> shutdown_requested l" "logger_config l = normalize_config c"
        "holdings os l {} os1" "table_ok l" "backup_ready l os1" "streams_keep os1 (streams l)"
        "storage_representable c \<longrightarrow> 6 * render_bound c < 2 ^ 64 - 1 \<longrightarrow> logger_ready l"
      using spec by simp_all
    obtain ok os2 where t: "os_try os1 = (ok, os2)" by (metis surj_pair)
    then have k: "keeps_resources os1 os2" by (metis keeps_simple(5) snd_conv)
    have failed: "acquired {} os (logger_teardown l os1)" "acquired {} os (logger_teardown (l\<lparr>shutdown_requested := False\<rparr>) os2)"
      using teardown_holdings [OF l(5)] teardown_holdings [OF holdings_keeps [OF l(5) k]]
      by (simp_all add: logger_teardown_eq)
    have ended: "life_ok os l Thread_Ended os2" if "storage_representable c" "6 * render_bound c < 2 ^ 64 - 1"
      using that l outside_ok_keeps [OF _ k, of os l "{}"]
      by (simp add: life_ok_def thread_ok_def thread_blocks_def outside_ok_def)
    have "life_ok os (l\<lparr>shutdown_requested := False, worker_started := True\<rparr>) Thread_Starting os2"
      if "storage_representable c" "6 * render_bound c < 2 ^ 64 - 1"
      using life_ok_started(2) [of os "l\<lparr>shutdown_requested := False\<rparr>" os2] ended [OF that] by simp
    then show ?thesis
      using r l failed
      by (auto simp: mp_logger_create_from_bootstrap_def load(1) create Some mp_logger_start_def Let_def t destroy_stopped
          split: if_splits)
  qed
qed

section \<open>Properties\<close>

text \<open>
  C9: creating a logger from a well-formed config is all or nothing, whatever calls of the
  system fail. After an error nothing that was acquired on the way is still held. On \<open>OK\<close> the
  logger has the normalized config, the built-in streams of the config in its order (less those
  that could not be made) with the thresholds of the config, an open backup log and an empty
  queue; every resource is owned by it, and when the products of the capacities fit
  \<open>size_t\<close> the ring, the table and the buffers are well formed.
\<close>

theorem create_contract:
  assumes "os_wf os" and "wf_config c"
  shows "case mp_logger_create (Some c) os of
      (status, None, os') \<Rightarrow> status \<noteq> MP_LOG_STATUS_OK \<and> acquired {} os os'
    | (status, Some l, os') \<Rightarrow> status = MP_LOG_STATUS_OK \<and> logger_config l = normalize_config c \<and> backup_fd l \<noteq> None \<and>
        queue_count l = 0 \<and> \<not> worker_started l \<and> \<not> shutdown_requested l \<and>
        subseq (map (\<lambda>s. cstr (stream_name s)) (streams l)) (stream_names (trim (cstr (active_streams c)))) \<and>
        set (stream_names (trim (cstr (active_streams c)))) \<subseteq> builtin_names \<and>
        list_all (\<lambda>s. apply_config_to_stream (logger_config l) s = s) (streams l) \<and>
        holdings os l {} os' \<and>
        (storage_representable c \<longrightarrow> 6 * render_bound c < 2 ^ 64 - 1 \<longrightarrow> life_ok os l Thread_Ended os')"
proof -
  obtain status p os' where r: "mp_logger_create (Some c) os = (status, p, os')" by (metis prod_cases3)
  from create_spec [OF assms r] show ?thesis
    unfolding r prod.case by (cases p) (auto simp: life_ok_def thread_ok_def thread_blocks_def outside_ok_def)
qed

text \<open>
  C17: creation succeeds when no call of the system fails, the capacities can be allocated, the
  directory is usable and its name leaves room for a file name, and the stream list names
  built-in streams once each. Then the logger has exactly the streams of the list, in its order
  and with the level bounds of the config, holds all that was acquired, and its storage is the
  queue the config asks for.
\<close>

theorem create_succeeds:
  assumes "os_wf os" and "works os" and "wf_config c" and "mp_logger_validate_config c"
    and "unat (buffer_capacity c) * 88 < 2 ^ 64" and "unat (buffer_capacity c * field_capacity c) * 24 < 2 ^ 64"
    and "strlen (log_directory c) \<le> 155" and "os_paths os (cstr (log_directory c)) \<noteq> Some Regular_File"
    and "\<not> suffix ''.log'' (cstr (log_directory c))"
    and "set (stream_names (trim (cstr (active_streams c)))) \<subseteq> builtin_names"
    and "distinct (stream_names (trim (cstr (active_streams c))))"
  shows "\<exists>l os'. mp_logger_create (Some c) os = (MP_LOG_STATUS_OK, Some l, os') \<and>
    map (\<lambda>s. cstr (stream_name s)) (streams l) = stream_names (trim (cstr (active_streams c))) \<and>
    list_all (\<lambda>s. apply_config_to_stream (logger_config l) s = s) (streams l) \<and>
    length (slots l) = unat (buffer_capacity c) \<and> holdings os l {} os'"
proof -
  obtain l os' where create: "mp_logger_create (Some c) os = (MP_LOG_STATUS_OK, Some l, os')"
      "map (\<lambda>s. cstr (stream_name s)) (streams l) = stream_names (trim (cstr (active_streams c)))"
      "length (slots l) = unat (buffer_capacity c)"
    using create_ok [OF assms] by force
  then show ?thesis using create_spec [OF assms(1,3) create(1)] by auto
qed

text \<open>
  C3: a logger stays well formed and accounts for every resource through any history of calls:
  registrations, reconfigurations, log calls, starts, shutdowns and restarts, and runs of the
  worker, whatever calls of the system fail. Nothing is used or released that is not live, and
  \<open>mp_logger_destroy\<close> releases everything in the end, except for the buffers of a worker
  thread that it could not join.
\<close>

theorem api_history_safe:
  assumes "os_wf os" and "wf_config c" and "storage_representable c" and "6 * render_bound c < 2 ^ 64 - 1"
    and "mp_logger_create (Some c) os = (MP_LOG_STATUS_OK, Some l, os1)" and "list_all api_call_ok calls"
    and "api_run calls (l, Thread_Ended, os1) = (l2, thread, os2)"
  shows "life_ok os l2 thread os2 \<and> os_misuse os2 = os_misuse os \<and>
    (case mp_logger_destroy (Some l2) thread os2 of (thread', os3) \<Rightarrow>
       (thread' = Thread_Ended \<or> thread' = thread) \<and> acquired (thread_blocks thread') os os3)"
proof -
  have "life_ok os l Thread_Ended os1"
    using create_spec [OF assms(1,2,5)] assms(3,4) by (simp add: life_ok_def thread_ok_def thread_blocks_def outside_ok_def)
  from api_run_life [OF this assms(6,7)] have life: "life_ok os l2 thread os2" .
  then have "os_misuse os2 = os_misuse os"
    by (auto simp: life_ok_def outside_ok_def holdings_def acquired_def)
  moreover obtain thread' os3 where d: "mp_logger_destroy (Some l2) thread os2 = (thread', os3)" by (metis surj_pair)
  ultimately show ?thesis using life destroy_life [OF life d] by (auto simp: d)
qed

text \<open>
  C20: creating from a bootstrap file is all or nothing as well: \<open>OK\<close> returns a running logger
  with the config of the file, a stream and a worker thread; after any other status nothing is
  held.
\<close>

theorem create_from_bootstrap_contract:
  assumes "os_wf os"
  shows "case mp_logger_create_from_bootstrap read_file path os of
      (status, None, os') \<Rightarrow> status \<noteq> MP_LOG_STATUS_OK \<and> acquired {} os os'
    | (status, Some (l, thread), os') \<Rightarrow> status = MP_LOG_STATUS_OK \<and> worker_started l \<and> \<not> shutdown_requested l \<and>
        streams l \<noteq> [] \<and> thread = Thread_Starting \<and>
        (\<exists>c. mp_logger_bootstrap_load read_file path (Some zeroed_config) = (MP_LOG_STATUS_OK, Some c) \<and>
           logger_config l = normalize_config c \<and>
           (storage_representable c \<longrightarrow> 6 * render_bound c < 2 ^ 64 - 1 \<longrightarrow> life_ok os l thread os'))"
proof -
  obtain status p os' where r: "mp_logger_create_from_bootstrap read_file path os = (status, p, os')" by (metis prod_cases3)
  from bootstrap_create_spec [OF assms r] show ?thesis unfolding r prod.case by (cases p) auto
qed

text \<open>
  C19: what a flush of a running logger returns. It looks at the processed counter and the clock
  in turn; the first turn that sees the counter at the total queued at entry makes it \<open>OK\<close>,
  and with a timeout the first turn that sees the clock past the deadline before that makes it
  \<open>INTERNAL_ERROR\<close>. It returns exactly when there is such a turn, so always when the worker
  keeps up, and with a timeout as soon as the clock is past the deadline.
\<close>

theorem flush_spec:
  assumes "worker_started l"
  shows "mp_logger_flush (Some l) timeout entry_clock processed clock =
    (let deadline = mp_logger_now_monotonic_millis entry_clock + ucast timeout;
         target = queued_records_total l;
         stops = (\<lambda>k. target \<le> processed k \<or> timeout > 0 \<and> deadline <s mp_logger_now_monotonic_millis (clock k))
     in if \<exists>k. stops k
        then Some (if target \<le> processed (LEAST k. stops k) then MP_LOG_STATUS_OK else MP_LOG_STATUS_INTERNAL_ERROR)
        else None)"
  using assms by (simp add: mp_logger_flush_def flush_loop_eq Let_def flush_stops_def [abs_def])

text \<open>
  C35: a worker that cannot allocate its buffers ends, but the logger still counts as started:
  starting it again is \<open>OK\<close> and does nothing, and a flush without a timeout never returns when
  a record is waiting.
\<close>

theorem dead_worker_blocks_flush:
  assumes "worker_started l" and "fst (worker_start l os) = None" and "processed_records_total l < queued_records_total l"
  shows "\<exists>os'. run_thread l Thread_Starting os = (l, Thread_Ended, os') \<and>
    mp_logger_start (Some l) Thread_Ended os' = (MP_LOG_STATUS_OK, Some l, Thread_Ended, os') \<and>
    mp_logger_flush (Some l) 0 entry_clock (\<lambda>_. processed_records_total l) clock = None"
proof -
  obtain os' where "worker_start l os = (None, os')" using assms(2) by (metis prod.collapse)
  then have "run_thread l Thread_Starting os = (l, Thread_Ended, os')"
    by (simp add: run_thread_def mp_logger_worker_main_def)
  moreover have "mp_logger_flush (Some l) 0 entry_clock (\<lambda>_. processed_records_total l) clock = None"
    using assms(1,3) by (simp add: mp_logger_flush_def flush_loop_eq flush_stops_def Let_def not_le)
  ultimately show ?thesis using assms(1) by (simp add: mp_logger_start_def)
qed

text \<open>
  C34: destroying a logger whose worker cannot be joined in time releases all that the logger
  holds while the thread is still there: it goes on with released storage, streams and
  descriptor.
\<close>

theorem destroy_strands_worker:
  assumes "life_ok os0 l thread os" and "worker_started l" and "os_fault os (Suc (os_ticks os)) \<noteq> None"
  shows "case mp_logger_destroy (Some l) thread os of (thread', os') \<Rightarrow>
    thread' = thread \<and> list_all (\<lambda>p. case p of None \<Rightarrow> True | Some i \<Rightarrow> os_resources os' i = None) (storage_blocks l) \<and>
    (case backup_fd l of None \<Rightarrow> True | Some fd \<Rightarrow> os_resources os' fd = None)"
proof -
  let ?W = "thread_blocks thread"
  obtain now os1 where c: "clock_realtime os = (now, os1)" by (metis surj_pair)
  obtain ok os2 where t: "os_try os1 = (ok, os2)" by (metis surj_pair)
  have "os_fault os1 (os_ticks os1) \<noteq> None" using c assms(3) by (auto simp: clock_realtime_def os_call_def)
  then have "\<not> ok" using t by (auto simp: os_try_def os_call_def)
  then obtain os3 where sd: "mp_logger_shutdown (Some l) thread 5000 os =
      (MP_LOG_STATUS_INTERNAL_ERROR, Some (l\<lparr>shutdown_requested := True\<rparr>), thread, os3)"
    using that assms(2) by (cases now) (simp_all add: mp_logger_shutdown_def Let_def c t)
  have "fst (mp_logger_destroy (Some l) thread os) = thread"
    using assms(2) by (simp add: mp_logger_destroy_def sd split: prod.split)
  then obtain os' where d: "mp_logger_destroy (Some l) thread os = (thread, os')" by (metis prod.collapse)
  have released: "acquired ?W os0 os'" using destroy_life [OF assms(1) d] by simp
  obtain S where S: "acquired ((S \<union> set_option (backup_fd l) \<union> live_blocks (storage_blocks l)) \<union> ?W) os0 os"
      "(S \<union> set_option (backup_fd l) \<union> live_blocks (storage_blocks l)) \<inter> ?W = {}"
    using assms(1) by (auto simp: life_ok_def outside_ok_def holdings_def)
  have gone: "os_resources os' i = None" if i: "i \<in> set_option (backup_fd l) \<union> live_blocks (storage_blocks l)" for i
  proof -
    have "os_resources os0 i = None" using S(1) i by (auto simp: acquired_def split: if_splits)
    moreover have "i \<notin> ?W" using S(2) i by blast
    ultimately show ?thesis using released by (auto simp: acquired_def)
  qed
  then show ?thesis
    by (auto simp: d list_all_iff live_blocks_def split: option.split)
qed

text \<open>
  C36: capacities whose product overflows \<open>size_t\<close> are accepted: with \<open>buffer_capacity\<close> 4 and
  \<open>message_capacity\<close> 2^62 the message storage has no bytes at all, and a log call would copy
  its message past the end of it.
\<close>

definition oversized_config :: mp_logger_config where
  "oversized_config = mp_logger_config_init_defaults\<lparr>buffer_capacity := 4, message_capacity := 2 ^ 62\<rparr>"

lemma zeroed_arrays [simp]:
  "length (active_streams zeroed_config) = 128" "length (log_directory zeroed_config) = 256"
  "length (service_name zeroed_config) = 64" "length (environment_name zeroed_config) = 64"
  "length (build_version zeroed_config) = 64" "length (file_name_prefix zeroed_config) = 64"
  "length (backup_file_name_prefix zeroed_config) = 64"
  by (simp_all add: zeroed_config_def)

lemma trimmed_literal:
  assumes "0 < n" and "n \<le> length dest" and "NUL \<notin> set s" and "s \<noteq> []" and "\<not> isspace (hd s)" and "\<not> isspace (last s)"
    and "length s < n"
  shows "cstr (mp_logger_copy_trimmed dest n (Some s)) = s"
proof -
  have "dropWhile isspace s = s" "dropWhile isspace (rev s) = rev s"
    using assms(4-6) by (simp_all add: dropWhile_eq_self_iff hd_rev)
  then have "trim s = s" by (simp add: trim_def)
  then show ?thesis using assms by (simp add: cstr_copy_trimmed cstr_id)
qed

lemma default_texts:
  "cstr (service_name mp_logger_config_init_defaults) = ''mp-service''"
  "cstr (environment_name mp_logger_config_init_defaults) = ''development''"
  "cstr (build_version mp_logger_config_init_defaults) = ''0.0.0''"
  "cstr (file_name_prefix mp_logger_config_init_defaults) = ''mp-service''"
  "cstr (backup_file_name_prefix mp_logger_config_init_defaults) = ''mp-logger-internal''"
  "cstr (log_directory mp_logger_config_init_defaults) = ''.''"
  "cstr (active_streams mp_logger_config_init_defaults) = ''stdout,stderr,file''"
  by (simp_all add: mp_logger_config_init_defaults_def trimmed_literal isspace_def char_code_def)

lemma validate_defaults: "mp_logger_validate_config mp_logger_config_init_defaults"
  by (simp add: mp_logger_validate_config_def default_texts) (simp add: mp_logger_config_init_defaults_def)

lemma default_names:
  "stream_names (trim (cstr (active_streams mp_logger_config_init_defaults))) = [''stdout'', ''stderr'', ''file'']"
  "strlen (log_directory mp_logger_config_init_defaults) = 1"
proof -
  have "split_on CHR '','' (''stdout'' @ CHR '','' # ''stderr'' @ CHR '','' # ''file'') = [''stdout'', ''stderr'', ''file'']"
    by (subst split_on_append, simp, subst split_on_append, simp, subst split_on_none, simp_all)
  then have "stream_names (trim ''stdout,stderr,file'') = [''stdout'', ''stderr'', ''file'']"
    by (simp add: stream_names_def token_name_def trim_def isspace_def char_code_def del: split_on.simps)
  then show "stream_names (trim (cstr (active_streams mp_logger_config_init_defaults))) = [''stdout'', ''stderr'', ''file'']"
    by (simp only: default_texts)
  show "strlen (log_directory mp_logger_config_init_defaults) = 1" by (simp add: strlen_def default_texts)
qed

theorem capacity_overflow:
  "\<exists>l os'. mp_logger_create (Some oversized_config) sound_os = (MP_LOG_STATUS_OK, Some l, os') \<and>
    length (slots l) = 4 \<and> list_all (\<lambda>slot. message_buffer slot = []) (slots l)"
proof -
  let ?c = oversized_config
  have caps: "buffer_capacity ?c = 4" "message_capacity ?c = 2 ^ 62" "field_capacity ?c = 8" "context_capacity ?c = 1024"
      "field_key_capacity ?c = 32" "field_value_capacity ?c = 128"
    by (simp_all add: oversized_config_def mp_logger_config_init_defaults_def)
  have same: "active_streams ?c = active_streams mp_logger_config_init_defaults"
      "log_directory ?c = log_directory mp_logger_config_init_defaults"
    by (simp_all add: oversized_config_def)
  have "wf_config ?c"
    using config_inv_defaults by (simp add: oversized_config_def config_inv_def wf_config_def)
  moreover have "mp_logger_validate_config ?c"
    using validate_defaults by (simp add: mp_logger_validate_config_def oversized_config_def)
  moreover have "works sound_os" "os_paths sound_os p = None" for p by (simp_all add: works_def sound_os_def)
  ultimately obtain l os' where r: "mp_logger_create (Some ?c) sound_os = (MP_LOG_STATUS_OK, Some l, os')"
      "slots l = map (partition_slot (normalize_config ?c)
        (unat (buffer_capacity ?c * message_capacity ?c), unat (buffer_capacity ?c * context_capacity ?c),
         unat (buffer_capacity ?c * field_capacity ?c), unat (buffer_capacity ?c * field_capacity ?c * field_key_capacity ?c),
         unat (buffer_capacity ?c * field_capacity ?c * field_value_capacity ?c))) [0..<unat (buffer_capacity ?c)]"
    using create_ok [of sound_os ?c] default_names by (auto simp: same caps builtin_names_def suffix_def default_texts)
  have "message_buffer slot = []" if "slot \<in> set (slots l)" for slot
    using that by (auto simp: r(2) partition_slot_def caps Let_def)
  then show ?thesis using r by (auto simp: caps list_all_iff)
qed

text \<open>The default config can be created on a system in which every call works.\<close>

lemma default_created:
  obtains l os1 where "mp_logger_create (Some mp_logger_config_init_defaults) sound_os = (MP_LOG_STATUS_OK, Some l, os1)"
    "life_ok sound_os l Thread_Ended os1" "\<not> worker_started l" "backup_fd l \<noteq> None" "streams l \<noteq> []" "works os1"
proof -
  let ?c = mp_logger_config_init_defaults
  have wf: "wf_config ?c" using config_inv_defaults by (simp add: config_inv_def)
  have caps: "buffer_capacity ?c = 1024" "message_capacity ?c = 512" "field_capacity ?c = 8" "context_capacity ?c = 1024"
      "field_key_capacity ?c = 32" "field_value_capacity ?c = 128"
    by (simp_all add: mp_logger_config_init_defaults_def)
  have "works sound_os" "\<And>p. os_paths sound_os p = None" by (simp_all add: works_def sound_os_def)
  then obtain l os1 where r: "mp_logger_create (Some ?c) sound_os = (MP_LOG_STATUS_OK, Some l, os1)"
      and names: "map (\<lambda>s. cstr (stream_name s)) (streams l) = [''stdout'', ''stderr'', ''file'']" and works: "works os1"
    using create_ok [of sound_os ?c] wf validate_defaults default_names
    by (auto simp: caps builtin_names_def suffix_def default_texts)
  have "streams l \<noteq> []" using names by auto
  moreover have "storage_representable ?c" by (simp add: storage_representable_def caps)
  ultimately show thesis
    using that [OF r] create_spec [OF os_wf_sound wf r] works
    by (simp add: life_ok_def thread_ok_def thread_blocks_def outside_ok_def)
qed

theorem create_contract_witness:
  "case mp_logger_create (Some mp_logger_config_init_defaults) sound_os of
      (status, None, os') \<Rightarrow> status \<noteq> MP_LOG_STATUS_OK
    | (status, Some l, os') \<Rightarrow> holdings sound_os l {} os'"
  using create_contract [OF os_wf_sound, of mp_logger_config_init_defaults] config_inv_defaults
  by (auto simp: config_inv_def split: prod.splits option.splits)

theorem create_succeeds_witness:
  "\<exists>l os'. mp_logger_create (Some mp_logger_config_init_defaults) sound_os = (MP_LOG_STATUS_OK, Some l, os') \<and>
    map (\<lambda>s. cstr (stream_name s)) (streams l) = stream_names (trim (cstr (active_streams mp_logger_config_init_defaults))) \<and>
    list_all (\<lambda>s. apply_config_to_stream (logger_config l) s = s) (streams l) \<and>
    length (slots l) = unat (buffer_capacity mp_logger_config_init_defaults) \<and> holdings sound_os l {} os'"
proof (rule create_succeeds)
  show "works sound_os" by (simp add: works_def sound_os_def)
  show "wf_config mp_logger_config_init_defaults" using config_inv_defaults by (simp add: config_inv_def)
  have caps: "buffer_capacity mp_logger_config_init_defaults = 1024" "field_capacity mp_logger_config_init_defaults = 8"
    by (simp_all add: mp_logger_config_init_defaults_def)
  then show "unat (buffer_capacity mp_logger_config_init_defaults) * 88 < 2 ^ 64"
      "unat (buffer_capacity mp_logger_config_init_defaults * field_capacity mp_logger_config_init_defaults) * 24 < 2 ^ 64"
    by (simp_all add: caps)
  show "os_paths sound_os (cstr (log_directory mp_logger_config_init_defaults)) \<noteq> Some Regular_File"
    by (simp add: sound_os_def)
qed (use validate_defaults default_names in \<open>auto simp: builtin_names_def suffix_def default_texts\<close>)

definition sample_calls :: "unit api_call list" where
  "sample_calls = [Api_Add_Stream (custom_stream ''memory'' MP_LOG_LEVEL_TRACE MP_LOG_LEVEL_FATAL), Api_Log None hello_call,
     Api_Start, Api_Run, Api_Log None hello_call, Api_Shutdown 0, Api_Start]"

lemma sample_calls_ok: "list_all api_call_ok sample_calls"
proof -
  have "foreign_stream (custom_stream n lo hi)" for n lo hi
    by (simp add: foreign_stream_def custom_stream_def destroy_stream_def owns_def)
  then show ?thesis
    by (simp add: sample_calls_def api_call_ok_def hello_call_def fields_readable_def)
qed

theorem api_history_safe_witness:
  "\<exists>l os1 l2 thread os2. mp_logger_create (Some mp_logger_config_init_defaults) sound_os = (MP_LOG_STATUS_OK, Some l, os1) \<and>
    api_run sample_calls (l, Thread_Ended, os1) = (l2, thread, os2) \<and> life_ok sound_os l2 thread os2 \<and> \<not> os_misuse os2"
proof -
  obtain l os1 where r: "mp_logger_create (Some mp_logger_config_init_defaults) sound_os = (MP_LOG_STATUS_OK, Some l, os1)"
    by (rule default_created)
  obtain l2 thread os2 where run: "api_run sample_calls (l, Thread_Ended, os1) = (l2, thread, os2)" by (metis prod_cases3)
  have "wf_config mp_logger_config_init_defaults" using config_inv_defaults by (simp add: config_inv_def)
  moreover have "storage_representable mp_logger_config_init_defaults"
    by (simp add: storage_representable_def mp_logger_config_init_defaults_def)
  ultimately show ?thesis
    using api_history_safe [OF os_wf_sound _ _ _ r sample_calls_ok run] r run by (simp add: sound_os_def)
qed

theorem create_from_bootstrap_contract_witness:
  "(\<exists>l os'. mp_logger_create_from_bootstrap (\<lambda>_. Some []) (Some ''a.yaml'') sound_os =
      (MP_LOG_STATUS_OK, Some (l, Thread_Starting), os') \<and> worker_started l \<and> life_ok sound_os l Thread_Starting os') \<and>
   (\<exists>status os'. mp_logger_create_from_bootstrap (\<lambda>_. None) (Some ''missing.yaml'') sound_os = (status, None, os') \<and>
      status \<noteq> MP_LOG_STATUS_OK \<and> os_resources os' = (\<lambda>_. None))"
proof -
  let ?d = mp_logger_config_init_defaults
  have load: "mp_logger_bootstrap_load (\<lambda>_. Some []) (Some ''a.yaml'') (Some zeroed_config) = (MP_LOG_STATUS_OK, Some ?d)"
    by (simp add: mp_logger_bootstrap_load_def bootstrap_lines_Nil mp_logger_has_yaml_extension_def strrchr_def
        cstr_Cons ctype_defs char_code_def)
  obtain l os1 where c: "mp_logger_create (Some ?d) sound_os = (MP_LOG_STATUS_OK, Some l, os1)" "\<not> worker_started l"
      "streams l \<noteq> []" "works os1"
    by (rule default_created)
  obtain os2 where "os_try os1 = (True, os2)" using c(4) by (auto simp: works_def os_try_def os_call_def)
  then have r: "mp_logger_create_from_bootstrap (\<lambda>_. Some []) (Some ''a.yaml'') sound_os =
      (MP_LOG_STATUS_OK, Some (l\<lparr>shutdown_requested := False, worker_started := True\<rparr>, Thread_Starting), os2)"
    using c(2,3) by (simp add: mp_logger_create_from_bootstrap_def load c(1) mp_logger_start_def Let_def)
  have "storage_representable ?d" "6 * render_bound ?d < 2 ^ 64 - 1"
    by (simp_all add: storage_representable_def render_bound_def mp_logger_config_init_defaults_def)
  with create_from_bootstrap_contract [OF os_wf_sound, of "\<lambda>_. Some []" "Some ''a.yaml''"]
  have "life_ok sound_os (l\<lparr>shutdown_requested := False, worker_started := True\<rparr>) Thread_Starting os2"
    by (simp add: r load)
  with r have started: "\<exists>l os'. mp_logger_create_from_bootstrap (\<lambda>_. Some []) (Some ''a.yaml'') sound_os =
      (MP_LOG_STATUS_OK, Some (l, Thread_Starting), os') \<and> worker_started l \<and> life_ok sound_os l Thread_Starting os'"
    by auto
  have "fst (mp_logger_bootstrap_load (\<lambda>_. None) (Some ''missing.yaml'') (Some zeroed_config)) \<noteq> MP_LOG_STATUS_OK"
    by (simp add: mp_logger_bootstrap_load_def)
  then have "\<exists>status os'. mp_logger_create_from_bootstrap (\<lambda>_. None) (Some ''missing.yaml'') sound_os = (status, None, os') \<and>
      status \<noteq> MP_LOG_STATUS_OK \<and> os_resources os' = (\<lambda>_. None)"
    using create_from_bootstrap_contract [OF os_wf_sound, of "\<lambda>_. None" "Some ''missing.yaml''"]
    by (auto simp: acquired_empty sound_os_def split: prod.splits option.splits)
  with started show ?thesis ..
qed

theorem flush_spec_witness:
  "mp_logger_flush (Some (idle_logger\<lparr>worker_started := True, queued_records_total := 2\<rparr>)) 0 None (\<lambda>k. of_nat k) (\<lambda>_. None) =
   Some MP_LOG_STATUS_OK"
proof -
  have "(2 :: uint64_t) \<le> of_nat 2" by simp
  then have "\<exists>k. (2 :: uint64_t) \<le> of_nat k" "(2 :: uint64_t) \<le> of_nat (LEAST k. (2 :: uint64_t) \<le> of_nat k)"
    by (blast, rule LeastI [where P = "\<lambda>k. (2 :: uint64_t) \<le> of_nat k"])
  then show ?thesis
    using flush_spec [of "idle_logger\<lparr>worker_started := True, queued_records_total := 2\<rparr>" 0 None of_nat "\<lambda>_. None"]
    by (simp add: Let_def)
qed

text \<open>A system in which every call fails.\<close>

definition broken_os :: "unit os" where
  "broken_os = sound_os\<lparr>os_fault := (\<lambda>_. Some 0)\<rparr>"

theorem dead_worker_blocks_flush_witness:
  "mp_logger_flush (Some (idle_logger\<lparr>worker_started := True, queued_records_total := 1\<rparr>)) 0 None (\<lambda>_. 0) (\<lambda>_. None) = None"
proof -
  let ?l = "idle_logger\<lparr>worker_started := True, queued_records_total := 1\<rparr>"
  have "fst (worker_start ?l broken_os) = None"
    by (simp add: worker_start_def calloc_all.simps os_calloc_def os_call_def broken_os_def Let_def)
  moreover have "processed_records_total ?l = 0"
    by (simp add: idle_logger_def ready_logger_def configured_logger_def zeroed_logger_def)
  ultimately show ?thesis using dead_worker_blocks_flush [of ?l broken_os None "\<lambda>_. None"] by auto
qed

theorem destroy_strands_worker_witness:
  "\<exists>l os fd os'. worker_started l \<and> backup_fd l = Some fd \<and>
    mp_logger_destroy (Some (l :: unit mp_logger)) Thread_Starting os = (Thread_Starting, os') \<and> os_resources os' fd = None"
proof -
  obtain l os1 where l: "life_ok sound_os l Thread_Ended os1" "backup_fd l \<noteq> None" by (rule default_created)
  let ?l = "l\<lparr>worker_started := True\<rparr>" and ?os = "os1\<lparr>os_fault := (\<lambda>_. Some 0)\<rparr>"
  have "life_ok sound_os ?l Thread_Starting os1" by (rule life_ok_started(2) [OF l(1)])
  moreover have "keeps_resources os1 ?os" by (simp add: keeps_resources_def)
  ultimately have "life_ok sound_os ?l Thread_Starting ?os" by (rule life_ok_keeps)
  from destroy_strands_worker [OF this] l(2) show ?thesis
    by (auto split: prod.splits intro!: exI [of _ ?l] exI [of _ ?os])
qed

end
