(* ===== verification/Logger_Concurrency.thy ===== *)
theory Logger_Concurrency
  imports Logger_Threads Logger_Api
begin

text \<open>
  What the threads of \<open>Logger_Threads\<close> can and cannot do together: the properties of all their
  interleavings, and two interleavings that go wrong.
\<close>

section \<open>Some runs\<close>

lemma run_trans: "run A s1 s2 \<Longrightarrow> run A s s1 \<Longrightarrow> run A s s2"
  by (erule run_preserves) (rule run.step)

lemma run_mono: "run A s s' \<Longrightarrow> A \<subseteq> B \<Longrightarrow> run B s s'"
  by (induction rule: run.induct) (blast intro: run.intros)+

text \<open>A call with acceptable fields gets past the test of the flag.\<close>

lemma call_passes:
  assumes "producers s t = P_Idle" and "fields_readable (call_fields_ptr call) (call_field_count call)"
    and "mp_logger_validate_fields (Some (logger_config (shared s))) (call_fields_ptr call) (call_field_count call) = MP_LOG_STATUS_OK"
    and "\<not> shutdown_requested (shared s)"
  shows "run {Producer t} s (goto t (P_Try call) s)"
proof -
  have "step (Producer t) s (goto t (P_Enter call) s)"
    by (intro step.producer producer_step.enter) (simp_all add: assms)
  moreover have "step (Producer t) (goto t (P_Enter call) s) (goto t (P_Try call) (goto t (P_Enter call) s))"
    by (intro step.producer producer_step.pass) (simp_all add: assms)
  moreover have "goto t (P_Try call) (goto t (P_Enter call) s) = goto t (P_Try call) s" by (simp add: goto_def)
  ultimately show ?thesis by (metis run.intros singletonI)
qed

text \<open>A call that finds the mutex free and room in the queue puts its record into it.\<close>

lemma call_admitted:
  assumes p: "producers s t = P_Try call" and free: "\<not> queue_mutex (shared s)"
    and room: "queue_count (shared s) < buffer_capacity (logger_config (shared s))"
  shows "\<exists>s' v. run {Producer t} s s' \<and> producers s' = (producers s)(t := P_Done MP_LOG_STATUS_OK) \<and>
    controller s' = controller s \<and> worker_point s' = (if worker_point s = W_Asleep then W_Woken else worker_point s) \<and>
    accepted s' = accepted s @ [v] \<and> returned s' = returned s @ [v] \<and> delivered s' = delivered s \<and>
    queue_count (shared s') = queue_count (shared s) + 1 \<and> \<not> queue_mutex (shared s') \<and>
    logger_config (shared s') = logger_config (shared s) \<and>
    worker_started (shared s') = worker_started (shared s) \<and>
    queued_records_total (shared s') = queued_records_total (shared s) + 1 \<and>
    processed_records_total (shared s') = processed_records_total (shared s)"
proof -
  define s1 where "s1 = goto t (P_Locked call) (lock (Producer t) s)"
  define q where "q = queued_records_total (shared s) + 1"
  define s2 where "s2 = goto t (P_Numbered call q) (s1\<lparr>shared := (shared s1)\<lparr>queued_records_total := q\<rparr>\<rparr>)"
  define v where "v = call_view (logger_config (shared s)) q None call"
  define s3 where "s3 = goto t (P_Filled v) (s2\<lparr>shared := fill_tail None call q (shared s2)\<rparr>)"
  define s4 where "s4 = goto t (P_Unlock v) (s3\<lparr>shared := publish_tail (shared s3), accepted := accepted s3 @ [v]\<rparr>)"
  define s5 where "s5 = goto t (P_Signal v) (unlock s4)"
  define s6 where "s6 = goto t (P_Done MP_LOG_STATUS_OK) (signal (s5\<lparr>returned := returned s5 @ [v]\<rparr>))"
  have "producer_step t s s1" unfolding s1_def by (rule producer_step.acquire) (simp_all add: p free)
  moreover have "producer_step t s1 s2"
    using producer_step.number [of s1 t call] room by (simp add: s2_def q_def s1_def)
  moreover have "producer_step t s2 s3"
    using producer_step.fill [of s2 t call q None] by (simp add: s3_def v_def s2_def s1_def)
  moreover have "producer_step t s3 s4" unfolding s4_def by (rule producer_step.publish) (simp add: s3_def)
  moreover have "producer_step t s4 s5" unfolding s5_def by (rule producer_step.release) (simp add: s4_def)
  moreover have "producer_step t s5 s6" unfolding s6_def by (rule producer_step.notify) (simp add: s5_def)
  ultimately have "run {Producer t} s s6" by (meson run.intros step.producer singletonI)
  moreover have "queue_count (publish_tail l) = queue_count l + 1" "worker_started (publish_tail l) = worker_started l"
      "worker_started (fill_tail None call q l) = worker_started l" for l :: "'a mp_logger"
    by (simp_all add: publish_tail_def fill_tail_def)
  ultimately show ?thesis
    by (intro exI [of _ s6] exI [of _ v]) (simp add: s6_def s5_def s4_def s3_def s2_def s1_def q_def)
qed

text \<open>An awake worker that finds the mutex free takes the oldest record and delivers it.\<close>

lemma worker_delivers:
  assumes w: "worker_point s \<in> {W_Lock, W_Woken}" and free: "\<not> queue_mutex (shared s)" and some: "queue_count (shared s) \<noteq> 0"
  shows "\<exists>s'. run {Worker} s s' \<and> worker_point s' = W_Lock \<and> \<not> queue_mutex (shared s') \<and>
    queue_count (shared s') = queue_count (shared s) - 1 \<and> accepted s' = accepted s \<and> producers s' = producers s"
proof -
  define s1 where "s1 = lock Worker s\<lparr>worker_point := W_Test\<rparr>"
  obtain r l sc where take: "take_record (shared s1, worker_scratch (worker_local s1)) = (r, l, sc)" by (metis prod_cases3)
  define s2 where "s2 = s1\<lparr>worker_point := W_Unlock r, shared := l, worker_local := (worker_local s1)\<lparr>worker_scratch := sc\<rparr>,
      taken := taken s1 @ [view_of r]\<rparr>"
  define s3 where "s3 = unlock s2\<lparr>worker_point := W_Deliver r\<rparr>"
  obtain seen os1 where drops: "mp_logger_flush_drop_counters (shared s3) (worker_last (worker_local s3)) (outside s3) = (seen, os1)"
    by (metis surj_pair)
  obtain w2 os2 where deliver: "deliver_record (shared s3) r ((worker_local s3)\<lparr>worker_last := seen\<rparr>) os1 = (w2, os2)"
    by (metis surj_pair)
  define s4 where "s4 = s3\<lparr>worker_point := W_Count r, worker_local := w2, outside := os2\<rparr>"
  define s5 where "s5 = s4\<lparr>worker_point := W_Lock, delivered := delivered s4 @ [view_of r],
      shared := (shared s4)\<lparr>processed_records_total := processed_records_total (shared s4) + 1\<rparr>\<rparr>"
  have "worker_step s s1" unfolding s1_def by (rule worker_step.acquire [OF w free])
  moreover have "worker_step s1 s2"
    unfolding s2_def by (rule worker_step.take [OF _ _ take]) (use some in \<open>simp_all add: s1_def\<close>)
  moreover have "worker_step s2 s3" unfolding s3_def by (rule worker_step.release) (simp add: s2_def)
  moreover have "worker_step s3 s4" unfolding s4_def by (rule worker_step.deliver [OF _ drops deliver]) (simp add: s3_def)
  moreover have "worker_step s4 s5" unfolding s5_def by (rule worker_step.count) (simp add: s4_def)
  ultimately have "run {Worker} s s5" by (meson run.intros step.worker singletonI)
  moreover have "queue_count l = queue_count (shared s) - 1" using take_record_count [OF take] by (simp add: s1_def)
  ultimately show ?thesis
    by (intro exI [of _ s5]) (simp add: s5_def s4_def s3_def s2_def s1_def)
qed

text \<open>So it can always bring the deliveries up to date on its own.\<close>

lemma worker_empties:
  assumes "worker_point s \<in> {W_Lock, W_Woken}" and "\<not> queue_mutex (shared s)"
  shows "\<exists>s'. run {Worker} s s' \<and> worker_point s' \<in> {W_Lock, W_Woken} \<and> \<not> queue_mutex (shared s') \<and>
    queue_count (shared s') = 0 \<and> accepted s' = accepted s \<and> producers s' = producers s"
  using assms
proof (induction "unat (queue_count (shared s))" arbitrary: s)
  case 0
  then show ?case by (intro exI [of _ s]) (simp add: unat_eq_0)
next
  case (Suc n)
  then have some: "queue_count (shared s) \<noteq> 0" by auto
  from worker_delivers [OF Suc.prems this] obtain s1 where
    s1: "run {Worker} s s1" "worker_point s1 = W_Lock" "\<not> queue_mutex (shared s1)"
      "queue_count (shared s1) = queue_count (shared s) - 1" "accepted s1 = accepted s" "producers s1 = producers s"
    by blast
  have "n = unat (queue_count (shared s1))" using Suc.hyps(2) some by (simp add: s1(4) unat_minus_one)
  from Suc.hyps(1) [OF this] s1 show ?case using run_trans [OF _ s1(1)] by fastforce
qed

lemma catch_up:
  assumes inv: "conc_inv s1" and "owner s1 = None" and "worker_point s1 \<in> {W_Lock, W_Woken}"
  shows "\<exists>s2. run {Worker} s1 s2 \<and> delivered s2 = accepted s1 \<and> accepted s2 = accepted s1"
proof -
  have "\<not> queue_mutex (shared s1)" using owner_point(3) inv assms(2) by blast
  from worker_empties [OF assms(3) this] obtain s2 where
    s2: "run {Worker} s1 s2" "worker_point s2 \<in> {W_Lock, W_Woken}" "\<not> queue_mutex (shared s2)"
      "queue_count (shared s2) = 0" "accepted s2 = accepted s1" by blast
  have inv2: "conc_inv s2" by (rule run_inv [OF s2(1) inv])
  then have "owner s2 = None" using owner_point(3) s2(3) by blast
  then have "taken s2 = accepted s2" using empty_queue_taken inv2 s2(4) by blast
  moreover have "delivered s2 = taken s2" using inv2 s2(2) by (auto simp: conc_inv_def worker_ok_def carried_def)
  ultimately show ?thesis using s2 by auto
qed

text \<open>A worker that finds the queue empty and no flag is about to wait, and sleeps.\<close>

lemma worker_waits:
  assumes w: "worker_point s \<in> {W_Lock, W_Woken}" and free: "\<not> queue_mutex (shared s)"
    and none: "queue_count (shared s) = 0" and flag: "\<not> shutdown_requested (shared s)"
  shows "run {Worker} s (lock Worker s\<lparr>worker_point := W_Wait\<rparr>)"
proof -
  have "worker_step s (lock Worker s\<lparr>worker_point := W_Test\<rparr>)" by (rule worker_step.acquire [OF w free])
  moreover have "worker_step (lock Worker s\<lparr>worker_point := W_Test\<rparr>) (lock Worker s\<lparr>worker_point := W_Test\<rparr>\<lparr>worker_point := W_Wait\<rparr>)"
    by (rule worker_step.idle) (simp_all add: none flag)
  moreover have "lock Worker s\<lparr>worker_point := W_Test\<rparr>\<lparr>worker_point := W_Wait\<rparr> = lock Worker s\<lparr>worker_point := W_Wait\<rparr>" by simp
  ultimately show ?thesis by (metis run.intros step.worker singletonI)
qed

text \<open>A worker that finds the queue empty and the flag set ends.\<close>

lemma worker_leaves:
  assumes w: "worker_point s \<in> {W_Lock, W_Woken}" and free: "\<not> queue_mutex (shared s)"
    and none: "queue_count (shared s) = 0" and flag: "shutdown_requested (shared s)"
  shows "\<exists>s'. run {Worker} s s' \<and> worker_point s' = W_Ended \<and> producers s' = producers s \<and> controller s' = controller s \<and>
    shared s' = shared s \<and> accepted s' = accepted s \<and> delivered s' = delivered s \<and> returned s' = returned s"
proof -
  define s1 where "s1 = lock Worker s\<lparr>worker_point := W_Test\<rparr>"
  define s2 where "s2 = s1\<lparr>worker_point := W_Exit\<rparr>"
  define s3 where "s3 = unlock s2\<lparr>worker_point := W_Ended, outside := worker_finish (shared s2) (worker_local s2) (outside s2)\<rparr>"
  have "worker_step s s1" unfolding s1_def by (rule worker_step.acquire [OF w free])
  moreover have "worker_step s1 s2"
    unfolding s2_def by (rule worker_step.leave) (use none flag in \<open>simp_all add: s1_def\<close>)
  moreover have "worker_step s2 s3" unfolding s3_def by (rule worker_step.finish) (simp add: s2_def)
  ultimately have "run {Worker} s s3" by (meson run.intros step.worker singletonI)
  moreover have "shared s3 = shared s" using free by (simp add: s3_def s2_def s1_def)
  ultimately show ?thesis by (intro exI [of _ s3]) (simp add: s3_def s2_def s1_def)
qed

section \<open>A concrete start\<close>

text \<open>The state in which \<open>mp_logger_start\<close> has returned for a logger with a given config.\<close>

definition started_conc :: "mp_logger_config \<Rightarrow> 'a os \<Rightarrow> 'a conc" where
  "started_conc c os = \<lparr>shared = (ready_logger c)\<lparr>worker_started := True\<rparr>, owner = None, producers = \<lambda>_. P_Idle,
     worker_point = W_Lock,
     worker_local = \<lparr>worker_scratch = fresh_scratch (normalize_config c), render_buffer = [], worker_last = (0, 0), worker_blocks = []\<rparr>,
     controller = C_Idle, outside = os, accepted = [], taken = [], delivered = [], returned = []\<rparr>"

lemma started_conc: "capacities_ok c \<Longrightarrow> started (started_conc c os)"
  by (simp add: started_def started_conc_def ring_ok_ready)
    (simp add: ready_logger_def configured_logger_def zeroed_logger_def)

definition plain_call :: "string \<Rightarrow> log_call" where
  "plain_call msg = \<lparr>call_level = MP_LOG_LEVEL_INFO, call_message = msg, call_context = None, call_fields_ptr = None,
     call_field_count = 0\<rparr>"

lemma plain_call_ok [simp]:
  "fields_readable (call_fields_ptr (plain_call msg)) (call_field_count (plain_call msg))"
  "mp_logger_validate_fields (Some c) (call_fields_ptr (plain_call msg)) (call_field_count (plain_call msg)) = MP_LOG_STATUS_OK"
  by (simp_all add: plain_call_def fields_readable_def mp_logger_validate_fields_def)

abbreviation default_start :: "unit conc" where
  "default_start \<equiv> started_conc mp_logger_config_init_defaults sound_os"

lemma default_started: "started default_start"
  by (rule started_conc [OF defaults_capacities])

lemma default_logged:
  "\<exists>s v. run UNIV default_start s \<and> accepted s = [v] \<and> returned s = [v] \<and> delivered s = [] \<and> worker_point s = W_Lock \<and>
    owner s = None \<and> controller s = C_Idle \<and> worker_started (shared s) \<and> \<not> signalling (producers s t)"
proof -
  let ?s = "goto 0 (P_Try (plain_call ''hi'')) default_start"
  have start: "producers default_start 0 = P_Idle" "\<not> shutdown_requested (shared default_start)"
      "queue_count (shared default_start) = 0" "\<not> queue_mutex (shared default_start)" "worker_point default_start = W_Lock"
      "accepted default_start = []" "returned default_start = []" "delivered default_start = []" "controller default_start = C_Idle"
      "producers default_start = (\<lambda>_. P_Idle)"
    using default_started by (simp_all add: started_def)
  have room: "0 < buffer_capacity (logger_config (shared default_start))" "worker_started (shared default_start)"
    by (simp_all add: started_conc_def mp_logger_config_init_defaults_def ready_logger_def)
  have run: "run UNIV default_start ?s" by (rule run_mono [OF call_passes]) (simp_all add: start)
  obtain s v where s: "run {Producer 0} ?s s" "accepted s = [v]" "returned s = [v]" "delivered s = []" "worker_point s = W_Lock"
      "\<not> queue_mutex (shared s)" "controller s = C_Idle" "worker_started (shared s)"
      "producers s = (producers ?s)(0 := P_Done MP_LOG_STATUS_OK)"
    using call_admitted [of ?s 0 "plain_call ''hi''"] start room by auto
  have r: "run UNIV default_start s" by (rule run_trans [OF run_mono [OF s(1)] run]) simp
  have "owner s = None" using owner_point(3) [OF run_inv [OF r conc_inv_started [OF default_started]]] s(6) by blast
  then show ?thesis using s r start by (intro exI [of _ s] exI [of _ v]) simp
qed

text \<open>Asleep with the flag set, and no call on its way to the queue: only a spurious wakeup helps.\<close>

fun gives_up :: "producer \<Rightarrow> bool" where
  "gives_up P_Idle = True"
| "gives_up (P_Enter _) = True"
| "gives_up (P_Done _) = True"
| "gives_up _ = False"

definition stuck :: "'a conc \<Rightarrow> bool" where
  "stuck s \<longleftrightarrow> worker_point s = W_Asleep \<and> controller s = C_Join \<and> shutdown_requested (shared s) \<and>
     (\<forall>t. gives_up (producers s t))"

lemma producer_step_stuck:
  assumes "producer_step t s s'" and "stuck s"
  shows "stuck s'"
proof -
  have "gives_up (producers s t)" using assms(2) by (simp add: stuck_def)
  with assms show ?thesis by cases (auto simp: stuck_def)
qed

lemma step_stuck: "step a s s' \<Longrightarrow> a \<noteq> Spurious \<Longrightarrow> stuck s \<Longrightarrow> stuck s'"
proof (elim stepE)
  fix t
  assume "stuck s" "producer_step t s s'"
  then show "stuck s'" by (blast intro: producer_step_stuck)
next
  assume "stuck s" "worker_step s s'"
  then show "stuck s'" by (auto simp: stuck_def elim: worker_step.cases)
next
  assume "stuck s" "controller_step s s'"
  then show "stuck s'" by (auto simp: stuck_def elim: controller_step.cases)
qed simp

lemma run_stuck: "run (UNIV - {Spurious}) s s' \<Longrightarrow> stuck s \<Longrightarrow> stuck s'"
  by (erule run_preserves) (use step_stuck in blast)

text \<open>A worker that has ended delivers nothing more.\<close>

lemma step_ended:
  assumes "step a s s'" and "worker_point s = W_Ended"
  shows "worker_point s' = W_Ended \<and> delivered s' = delivered s"
proof -
  have "worker_point s' = W_Ended \<and> delivered s' = delivered s" if "producer_step t s s'" for t
    using that assms(2) by cases simp_all
  moreover have "\<not> worker_step s s'" using assms(2) by (auto elim: worker_step.cases)
  moreover have "worker_point s' = W_Ended \<and> delivered s' = delivered s" if "controller_step s s'"
    using that assms(2) by cases simp_all
  ultimately show ?thesis using assms by (elim stepE) (blast, blast, blast, simp)
qed

lemma run_ended: "run A s s' \<Longrightarrow> worker_point s = W_Ended \<Longrightarrow> worker_point s' = W_Ended \<and> delivered s' = delivered s"
  by (erule run_preserves [where P = "\<lambda>s''. worker_point s'' = W_Ended \<and> delivered s'' = delivered s"])
    (use step_ended in force, simp)

section \<open>Properties\<close>

text \<open>
  C4: in every state that the threads can reach, at most one thread holds the queue mutex, the
  delivered records are a prefix of the taken ones and those of the accepted ones, nothing is
  lost between them: a record that was taken and not delivered yet is in the hands of the
  worker, and one that was accepted and not taken is in the queue as soon as nobody holds the
  mutex. Accepted records are numbered one after the other in their order, never more than
  \<open>buffer_capacity\<close> wait, and a call returns \<open>OK\<close> only when its record is among the
  accepted ones.
\<close>

theorem interleaving_safe:
  assumes "started s" and "run UNIV s s'"
  shows "(producer_holds (producers s' t) \<and> producer_holds (producers s' t') \<longrightarrow> t = t') \<and>
    (producer_holds (producers s' t) \<longrightarrow> \<not> worker_holds (worker_point s')) \<and>
    prefix (delivered s') (taken s') \<and> taken s' = delivered s' @ carried (worker_point s') \<and>
    prefix (taken s') (accepted s') \<and>
    (owner s' = None \<longrightarrow> accepted s' = taken s' @ queue_view (shared s') \<and>
       length (queue_view (shared s')) \<le> unat (buffer_capacity (logger_config (shared s')))) \<and>
    map view_sequence_id (accepted s') = map (\<lambda>i. of_nat (i + 1)) [0..<length (accepted s')] \<and>
    set (returned s') \<subseteq> set (accepted s')"
proof -
  have inv: "conc_inv s'" by (rule run_inv [OF assms(2) conc_inv_started [OF assms(1)]])
  note own = owner_point [OF inv]
  have i: "queue_ok s'" "numbers_ok s'" "worker_ok s'" "set (returned s') \<subseteq> set (accepted s')"
    using inv by (simp_all add: conc_inv_def)
  have t: "prefix (taken s') (accepted s')" by (rule history_prefix(2) [OF inv])
  have "accepted s' = taken s' @ queue_view (shared s') \<and>
      length (queue_view (shared s')) \<le> unat (buffer_capacity (logger_config (shared s')))" if "owner s' = None"
    using i(1) pending_none(1) [OF that] by (auto simp: queue_ok_def ring_ok_def Let_def)
  moreover have "taken s' = delivered s' @ carried (worker_point s')" using i(3) by (simp add: worker_ok_def)
  moreover have "map view_sequence_id (accepted s') = map (\<lambda>i. of_nat (i + 1)) [0..<length (accepted s')]"
    using i(2) by (simp add: numbers_ok_def)
  moreover have "t = t'" if "producer_holds (producers s' t)" "producer_holds (producers s' t')" for t t'
    using that own(1) [of t] own(1) [of t'] by simp
  moreover have "producer_holds (producers s' t) \<longrightarrow> \<not> worker_holds (worker_point s')"
    using own(1) [of t] own(2) by auto
  ultimately show ?thesis using t i(4) by simp
qed

text \<open>
  C10: no record is left behind while the worker waits. When it is about to wait or to leave, and
  when it sleeps with the mutex free and no call is on its way to signal, every accepted record
  has been delivered.
\<close>

theorem idle_worker_drained:
  assumes "started s" and "run UNIV s s'"
    and "worker_point s' \<in> {W_Wait, W_Exit} \<or>
      worker_point s' = W_Asleep \<and> owner s' = None \<and> (\<forall>t. \<not> signalling (producers s' t))"
  shows "delivered s' = accepted s'"
proof -
  have inv: "conc_inv s'" by (rule run_inv [OF assms(2) conc_inv_started [OF assms(1)]])
  have "wakeup_ok s" using assms(1) by (simp add: started_def wakeup_ok_def)
  then have "wakeup_ok s'" by (rule run_wakeup [OF assms(2) conc_inv_started [OF assms(1)]])
  moreover have w: "worker_ok s'" using inv by (simp add: conc_inv_def)
  ultimately have "queue_count (shared s') = 0" using assms(3) by (auto simp: wakeup_ok_def worker_ok_def)
  moreover have "owner s' = None \<or> owner s' = Some Worker" using assms(3) owner_point(2) [OF inv] by auto
  ultimately have "taken s' = accepted s'" using empty_queue_taken inv by blast
  moreover have "carried (worker_point s') = []" using assms(3) by (auto simp: carried_def)
  ultimately show ?thesis using w by (simp add: worker_ok_def)
qed

text \<open>
  C12: from every reachable state in which the mutex is free and the worker is at its lock, the
  steps of the worker alone lead to a state in which all accepted records are delivered,
  whatever the callbacks and the system calls return.
\<close>

theorem worker_catches_up:
  assumes "started s" and "run UNIV s s1" and "owner s1 = None" and "worker_point s1 \<in> {W_Lock, W_Woken}"
  shows "\<exists>s2. run {Worker} s1 s2 \<and> delivered s2 = accepted s1 \<and> accepted s2 = accepted s1"
proof -
  have "conc_inv s1" by (rule run_inv [OF assms(2) conc_inv_started [OF assms(1)]])
  then show ?thesis using catch_up assms(3,4) by blast
qed

text \<open>
  C11: a flush that returns \<open>OK\<close> has waited for everything logged before it. In every
  interleaving, when \<open>mp_logger_flush\<close> reads its target in \<open>s1\<close> and the processed counter of
  the states \<open>later\<close>, and returns \<open>OK\<close>, then in one of these states all records accepted
  until \<open>s1\<close> were delivered, among them those of all calls that had returned \<open>OK\<close>.
\<close>

theorem flush_waits_for_accepted:
  assumes "started s" and "run UNIV s s1" and "worker_started (shared s1)"
    and "\<forall>k. run UNIV s1 (later k)" and "\<forall>k. length (accepted (later k)) + 1 < 2 ^ 64"
    and "mp_logger_flush (Some (shared s1)) timeout entry_clock (\<lambda>k. processed_records_total (shared (later k))) clock =
      Some MP_LOG_STATUS_OK"
  shows "\<exists>k. prefix (accepted s1) (delivered (later k)) \<and> set (returned s1) \<subseteq> set (delivered (later k))"
proof -
  have inv: "conc_inv s1" by (rule run_inv [OF assms(2) conc_inv_started [OF assms(1)]])
  have "\<exists>k. queued_records_total (shared s1) \<le> processed_records_total (shared (later k))"
    using assms(3,6) by (auto simp: mp_logger_flush_def flush_loop_eq Let_def split: if_splits)
  then obtain k where k: "queued_records_total (shared s1) \<le> processed_records_total (shared (later k))" by blast
  have inv2: "conc_inv (later k)" using run_inv inv assms(4) by blast
  have grown: "prefix (accepted s1) (accepted (later k))" using run_accepted assms(4) by blast
  have done_prefix: "prefix (delivered (later k)) (accepted (later k))"
    using history_prefix [OF inv2] by (rule prefix_order.trans)
  have "length (accepted (later k)) + 1 < 2 ^ 64" using assms(5) by blast
  moreover from this have "length (accepted s1) + 1 < 2 ^ 64" using prefix_length_le [OF grown] by linarith
  ultimately have "length (accepted s1) \<le> length (delivered (later k))"
    using k counters_length [OF inv] counters_length [OF inv2] by (simp add: word_le_nat_alt)
  then have "prefix (accepted s1) (delivered (later k))" using grown done_prefix prefix_length_prefix by blast
  moreover have "set (returned s1) \<subseteq> set (accepted s1)" using inv by (simp add: conc_inv_def)
  ultimately show ?thesis using set_mono_prefix by blast
qed

text \<open>
  C37: a shutdown can lose its wakeup. \<open>mp_logger_shutdown\<close> sets the flag and signals without
  the mutex; when both happen after the worker has tested the flag and before it sleeps, the
  worker sleeps, the join waits, and unless the wait returns without a signal nothing that the
  worker, the logging threads and the shutdown can still do changes that.
\<close>

theorem shutdown_wakeup_lost:
  assumes "started s"
  shows "\<exists>s'. run UNIV s s' \<and>
    (\<forall>s''. run (UNIV - {Spurious}) s' s'' \<longrightarrow> worker_point s'' = W_Asleep \<and> controller s'' = C_Join)"
proof -
  have st: "worker_point s \<in> {W_Lock, W_Woken}" "\<not> queue_mutex (shared s)" "queue_count (shared s) = 0"
      "\<not> shutdown_requested (shared s)" "controller s = C_Idle" "producers s = (\<lambda>_. P_Idle)"
    using assms by (simp_all add: started_def)
  define s1 where "s1 = lock Worker s\<lparr>worker_point := W_Wait\<rparr>"
  define s2 where "s2 = s1\<lparr>controller := C_Signal, shared := (shared s1)\<lparr>shutdown_requested := True\<rparr>\<rparr>"
  define s3 where "s3 = signal s2\<lparr>controller := C_Join\<rparr>"
  define s4 where "s4 = unlock s3\<lparr>worker_point := W_Asleep\<rparr>"
  have "run UNIV s s1" unfolding s1_def by (rule run_mono [OF worker_waits [OF st(1-4)]]) simp
  moreover have "step Controller s1 s2"
    unfolding s2_def by (intro step.controller controller_step.request) (simp add: s1_def st)
  moreover have "step Controller s2 s3" unfolding s3_def by (intro step.controller controller_step.notify) (simp add: s2_def)
  moreover have "step Worker s3 s4" unfolding s4_def by (intro step.worker worker_step.sleep) (simp add: s3_def s2_def s1_def)
  ultimately have "run UNIV s s4" by (meson run.step UNIV_I)
  moreover have "stuck s4" by (simp add: stuck_def s4_def s3_def s2_def s1_def st)
  ultimately show ?thesis using run_stuck by (metis stuck_def)
qed

text \<open>
  C38: a record can be accepted after the worker has ended. A call tests the flag before it takes
  the mutex; when the shutdown and the join come in between, the call still puts its record into
  the queue and returns \<open>OK\<close>, and the record is never delivered.
\<close>

theorem accepted_record_stranded:
  fixes call :: log_call
  assumes "started s" and "fields_readable (call_fields_ptr call) (call_field_count call)"
    and "mp_logger_validate_fields (Some (logger_config (shared s))) (call_fields_ptr call) (call_field_count call) = MP_LOG_STATUS_OK"
  shows "\<exists>s' v. run UNIV s s' \<and> producers s' t = P_Done MP_LOG_STATUS_OK \<and> controller s' = C_Done \<and> returned s' = [v] \<and>
    (\<forall>s''. run UNIV s' s'' \<longrightarrow> v \<in> set (accepted s'') \<and> delivered s'' = [])"
proof -
  have st: "\<not> queue_mutex (shared s)" "queue_count (shared s) = 0" "\<not> shutdown_requested (shared s)" "controller s = C_Idle"
      "producers s t = P_Idle" "worker_point s = W_Lock" "returned s = []" "delivered s = []" "accepted s = []"
      "ring_ok (shared s)"
    using assms(1) by (simp_all add: started_def)
  then have room: "0 < buffer_capacity (logger_config (shared s))" by (simp add: ring_ok_def Let_def word_less_nat_alt)
  define s1 where "s1 = goto t (P_Try call) s"
  define s2 where "s2 = s1\<lparr>controller := C_Signal, shared := (shared s1)\<lparr>shutdown_requested := True\<rparr>\<rparr>"
  define s3 where "s3 = signal s2\<lparr>controller := C_Join\<rparr>"
  have "run UNIV s s1" unfolding s1_def by (rule run_mono [OF call_passes]) (simp_all add: st assms)
  moreover have "step Controller s1 s2"
    unfolding s2_def by (intro step.controller controller_step.request) (simp add: s1_def st)
  moreover have "step Controller s2 s3" unfolding s3_def by (intro step.controller controller_step.notify) (simp add: s2_def)
  ultimately have r3: "run UNIV s s3" by (meson run.step UNIV_I)
  have p3: "worker_point s3 \<in> {W_Lock, W_Woken}" "\<not> queue_mutex (shared s3)" "queue_count (shared s3) = 0"
      "shutdown_requested (shared s3)"
    by (simp_all add: s3_def s2_def s1_def st)
  obtain s4 where s4: "run {Worker} s3 s4" "worker_point s4 = W_Ended" "producers s4 = producers s3"
      "controller s4 = controller s3" "shared s4 = shared s3" "accepted s4 = accepted s3" "delivered s4 = delivered s3"
      "returned s4 = returned s3"
    using worker_leaves [OF p3] by blast
  define s5 where "s5 = s4\<lparr>controller := C_Done, shared := (shared s4)\<lparr>worker_started := False\<rparr>\<rparr>"
  have "step Controller s4 s5"
    unfolding s5_def by (intro step.controller controller_step.join) (simp_all add: s4 s3_def)
  then have r5: "run UNIV s s5" by (meson run.step UNIV_I run_trans run_mono [OF s4(1)] r3 subset_UNIV)
  have s5: "producers s5 t = P_Try call" "\<not> queue_mutex (shared s5)" "queue_count (shared s5) < buffer_capacity (logger_config (shared s5))"
      "controller s5 = C_Done" "worker_point s5 = W_Ended" "accepted s5 = []" "delivered s5 = []" "returned s5 = []"
    by (simp_all add: s5_def s4 s3_def s2_def s1_def st room)
  obtain s6 v where s6: "run {Producer t} s5 s6" "producers s6 t = P_Done MP_LOG_STATUS_OK" "controller s6 = C_Done"
      "worker_point s6 = W_Ended" "accepted s6 = [v]" "delivered s6 = []" "returned s6 = [v]"
    using call_admitted [OF s5(1-3)] s5(4-) by auto
  have "v \<in> set (accepted s'') \<and> delivered s'' = []" if "run UNIV s6 s''" for s''
    using run_accepted [OF that] run_ended [OF that s6(4)] s6(5,6) set_mono_prefix by fastforce
  moreover have "run UNIV s s6" using run_trans [OF run_mono [OF s6(1)] r5] by simp
  ultimately show ?thesis using s6 by blast
qed

section \<open>The properties at concrete states\<close>

theorem interleaving_safe_witness:
  "\<exists>s v. run UNIV default_start s \<and> returned s = [v] \<and> accepted s = taken s @ queue_view (shared s) \<and>
    map view_sequence_id (accepted s) = [1]"
proof -
  obtain s v where s: "run UNIV default_start s" "accepted s = [v]" "returned s = [v]" "owner s = None"
    using default_logged by blast
  have queue: "accepted s = taken s @ queue_view (shared s)"
    and numbers: "map view_sequence_id (accepted s) = map (\<lambda>i. of_nat (i + 1)) [0..<length (accepted s)]"
    using interleaving_safe [OF default_started s(1)] s(4) by blast+
  from numbers have "map view_sequence_id (accepted s) = [1]" unfolding s(2) by simp
  with s(1,3) queue show ?thesis by (intro exI [of _ s] exI [of _ v] conjI)
qed

theorem worker_catches_up_witness:
  "\<exists>s1 s2. run UNIV default_start s1 \<and> run {Worker} s1 s2 \<and> length (delivered s1) = 0 \<and> length (delivered s2) = 1"
proof -
  obtain s v where s: "run UNIV default_start s" "accepted s = [v]" "owner s = None" "worker_point s = W_Lock" "delivered s = []"
    using default_logged by blast
  then show ?thesis using worker_catches_up [OF default_started s(1,3)] by fastforce
qed

theorem flush_waits_for_accepted_witness:
  "\<exists>s1 s2. run UNIV default_start s1 \<and> run {Worker} s1 s2 \<and> length (accepted s1) = 1 \<and> prefix (accepted s1) (delivered s2)"
proof -
  obtain s v where s: "run UNIV default_start s" "accepted s = [v]" "owner s = None" "worker_point s = W_Lock"
      "worker_started (shared s)"
    using default_logged by blast
  have inv: "conc_inv s" by (rule run_inv [OF s(1) conc_inv_started [OF default_started]])
  obtain s2 where s2: "run {Worker} s s2" "delivered s2 = [v]" "accepted s2 = [v]"
    using catch_up [OF inv s(3)] s(2,4) by auto
  have "unat (processed_records_total (shared s2)) = 1"
    using counters_length(2) [OF run_inv [OF s2(1) inv]] s2 by simp
  moreover have "\<not> drawn s" using s(3) by (rule pending_none(3))
  then have "queued_records_total (shared s) = 1" using inv s(2) by (simp add: conc_inv_def numbers_ok_def)
  ultimately have "mp_logger_flush (Some (shared s)) 0 None (\<lambda>k. processed_records_total (shared s2)) (\<lambda>_. None) =
      Some MP_LOG_STATUS_OK"
    using s(5) by (simp add: mp_logger_flush_def flush_loop.simps word_less_nat_alt)
  from flush_waits_for_accepted [OF default_started s(1,5) _ _ this] show ?thesis
    using s s2 run_mono [OF s2(1)] by (intro exI [of _ s] exI [of _ s2]) simp
qed

theorem idle_worker_drained_witness:
  "\<exists>s. run UNIV default_start s \<and> worker_point s = W_Wait \<and> delivered s = accepted s"
proof -
  have st: "worker_point default_start \<in> {W_Lock, W_Woken}" "\<not> queue_mutex (shared default_start)"
      "queue_count (shared default_start) = 0" "\<not> shutdown_requested (shared default_start)"
    using default_started by (simp_all add: started_def)
  have waits: "run UNIV default_start (lock Worker default_start\<lparr>worker_point := W_Wait\<rparr>)"
    by (rule run_mono [OF worker_waits [OF st]]) simp
  from idle_worker_drained [OF default_started waits] show ?thesis using waits by fastforce
qed

theorem shutdown_wakeup_lost_witness:
  "\<exists>s. run UNIV default_start s \<and>
    (\<forall>s'. run (UNIV - {Spurious}) s s' \<longrightarrow> worker_point s' = W_Asleep \<and> controller s' = C_Join)"
  by (rule shutdown_wakeup_lost [OF default_started])

theorem accepted_record_stranded_witness:
  "\<exists>s v. run UNIV default_start s \<and> producers s 0 = P_Done MP_LOG_STATUS_OK \<and> controller s = C_Done \<and> returned s = [v] \<and>
    (\<forall>s'. run UNIV s s' \<longrightarrow> v \<in> set (accepted s') \<and> delivered s' = [])"
  by (rule accepted_record_stranded [OF default_started, of "plain_call ''hi''"]) simp_all

end
