(* ===== verification/Spec2Isabelle.thy ===== *)
theory Spec2Isabelle
  imports Logger_Settings Logger_Concurrency
begin

text \<open>
  Verification library for \<open>mp_logger\<close>, a C library that takes log records from any number of
  threads without blocking them, queues them in a ring of preallocated slots, and has one worker
  thread render them and hand the lines to its streams.

  Parts of the program and their theories. Names of definitions are those of the C functions; a
  loop or a block of a longer function has a definition of its own that the function uses.

  \<^item> \<open>Logger_Types\<close>, \<open>Logger_Prelude\<close>: the levels, formats, statuses, fields, records and
    the config (\<open>include/mp_logger.h\<close>), byte arrays and C strings, and the facts on words, lists
    and strings that all theories share.
  \<^item> \<open>Logger_Strings\<close>, \<open>Logger_Parse\<close>, \<open>Logger_Numbers\<close>, \<open>Logger_Config\<close>,
    \<open>Logger_Bootstrap\<close>: \<open>src/mp_logger_bootstrap.c\<close>, from the copying and parsing of single
    values over the dispatchers of the sections (locale \<open>config_section\<close>) to the line loop of
    \<open>mp_logger_bootstrap_load\<close>; the defaults and the validation of \<open>src/mp_logger.c\<close>.
    Loading a file refines an interpreter of its lines and is all or nothing. Splitting the list
    of streams is characterised for every text, with the exact number of rows it needs.
  \<^item> \<open>Logger_Yaml\<close>, \<open>Logger_Settings\<close>: specifications of these parts. The text of a config, laid out
    like \<open>configs/logger.bootstrap.yaml\<close>, loads back to it, and an override is the assignment of one
    of the 25 settings, with a table of the settings and their kinds as the reference. A key with
    an empty value opens a section, wherever it stands.
  \<^item> \<open>Logger_Time\<close>, \<open>Logger_Render\<close>, \<open>Logger_Json\<close>: the clocks, timestamps and the
    rendering of \<open>src/mp_logger_streams.c\<close>. Rendering refines a function from records to lines;
    a line that fits reads back as the JSON object of the record, a cut one never does.
  \<^item> \<open>Logger_Fields\<close>: validation of fields and the copies into and out of the slots
    (\<open>src/mp_logger.c\<close>), with the regions of the storage that each field owns.
  \<^item> \<open>Logger_System\<close>: the operating system as the logger uses it. Every call takes a tick,
    and an oracle says for each tick whether the call fails; a state lists the live resources,
    the output of the files and the datagrams. \<open>acquired\<close> and \<open>owns\<close> say which resources a
    piece of code acquires and releases.
  \<^item> \<open>Logger_State\<close>: \<open>struct mp_logger\<close> as a record, the stream table, the level mask and
    the runtime configuration.
  \<^item> \<open>Logger_Queue\<close>: log calls and the dequeue as a bounded FIFO queue (locale
    \<open>bounded_queue\<close>), and its histories.
  \<^item> \<open>Logger_Sinks\<close>: paths, the backup log, and the standard, file and UDP streams (locale
    \<open>log_sink\<close>), built and destroyed by the stream table.
  \<^item> \<open>Logger_Worker\<close>: \<open>mp_logger_worker_main\<close>, its buffers, its drain and the delivery; and, end
    to end from the call over the slot to the buffer, the characters a line can hold.
  \<^item> \<open>Logger_Lifecycle\<close>, \<open>Logger_Api\<close>: creation, start, flush, shutdown and destruction,
    and histories of API calls that compose all of the above.
  \<^item> \<open>Logger_Threads\<close>, \<open>Logger_Concurrency\<close>: any number of threads in
    \<open>mp_logger_enqueue_record\<close>, the worker and a thread in \<open>mp_logger_shutdown\<close> as steps
    between two accesses to shared state, with the queue mutex and the condition variable. Every
    interleaving keeps the order of the records and delivers all of them before the worker
    waits; two interleavings of a shutdown go wrong.

  How the state corresponds. A pointer that the code tests for \<open>NULL\<close> is an \<open>option\<close>, an
  output parameter is a result, and an array of \<open>char\<close> is a list of its bytes; \<open>cstr\<close> reads it
  up to the first \<open>NUL\<close>. A local array that the code leaves uninitialised starts as zeros; no
  result depends on it. A callback with its context pointer is a function on the state of the
  operating system. The storage of the slots, one block cut into regions in the code, is the list
  of the regions of each slot. Integers have their width (LP64): \<open>size_t\<close> and \<open>uint64_t\<close> are
  64-bit words. A level is an unbounded integer; a compiler that makes the enumeration unsigned
  has no values below \<open>TRACE\<close>. The locale is the C locale, and system calls follow POSIX.

  Bounds and termination. All loops over arrays, strings and lists end by recursion or a measure;
  the drain of the worker is a \<open>function\<close> with the number of waiting records as its measure. The
  wait loop of \<open>mp_logger_flush\<close> need not end and is a \<open>partial_function\<close>, where \<open>None\<close> is a
  loop that runs forever. The theorems on rendering ask that six times the capacities plus the
  padding fit 64 bits, and those on the ring that the products of the capacities do.

  Interleavings are sequentially consistent, and the steps of one call touch the counters, the
  flag and the queue one at a time; the slot of a record is filled in one step, since its owner
  holds the mutex, and so is the delivery of a record, which only the worker does. They have one
  shutdown and no restart, and the config and the streams do not change meanwhile; they begin with
  an empty queue, and the join of the shutdown is the one without a timeout.

  Limits of the model. The storage of a slot is a list of its own, so after an overflow of the
  capacities its regions are too short rather than overlapping those of other slots. The handle of
  the bootstrap file is not a resource: the file is read as a function from paths to contents.
  A stream without a write callback is skipped by the dispatch; registration rejects it.

  Not modelled: the Go bindings, tests, benchmarks, scripts and build files; initialisation and
  destruction of mutexes, which the code does not check; weak memory and the data races of the
  plain \<open>int\<close> flags; the mutexes of the stream table and the backup log, which a single worker
  and the application take for whole operations. Printing of a \<open>double\<close> with \<open>%.17g\<close> is
  specified by its digits.
\<close>

end
